(* ===== verification/Base.thy ===== *)
theory Base
  imports Main "HOL-Library.Word"
begin

text \<open>
  Prelude of the development: how a C function that can go wrong is modelled, C strings
  and the comparison of C strings, 32-bit integers as bytes, and the list lemmas the
  components share.

  A C function that can leave the defined behaviour of C, end the process or loop is a HOL
  function into a sum type: \<open>Inl\<close> carries the reason the execution stops, \<open>Inr\<close> the
  result. \<open>rbind\<close> sequences two such steps.
\<close>

named_theorems cstr_simps \<open>reading and comparing terminated C strings\<close>
named_theorems res_simps \<open>sequencing of steps that may stop\<close>


section \<open>Steps that may stop\<close>

text \<open>
  The reasons an execution stops: dereference of a null pointer, access outside an object,
  release of a block that is not allocated, use of memory that was never written, an
  \<open>exit\<close> with its status, a loop that never ends, or a wait for input that is not given.
\<close>

datatype stop =
    NullDeref
  | OutOfBounds
  | BadFree
  | Uninit
  | Exit int
  | Diverges
  | Waits

type_synonym 'a res = "stop + 'a"

fun rbind :: "'e + 'a \<Rightarrow> ('a \<Rightarrow> 'e + 'b) \<Rightarrow> 'e + 'b" where
  "rbind (Inl e) f = Inl e"
| "rbind (Inr x) f = f x"

fun need :: "'e \<Rightarrow> 'a option \<Rightarrow> 'e + 'a" where
  "need e None = Inl e"
| "need e (Some x) = Inr x"

lemma rbind_eq_Inr [res_simps]: "rbind m f = Inr y \<longleftrightarrow> (\<exists>x. m = Inr x \<and> f x = Inr y)"
  by (cases m) auto

lemma rbind_eq_Inl [res_simps]:
  "rbind m f = Inl e \<longleftrightarrow> m = Inl e \<or> (\<exists>x. m = Inr x \<and> f x = Inl e)"
  by (cases m) auto

lemma need_eq_Inr [res_simps]: "need e m = Inr x \<longleftrightarrow> m = Some x"
  by (cases m) auto

lemma rbind_cong [fundef_cong]:
  "m = m' \<Longrightarrow> (\<And>x. m' = Inr x \<Longrightarrow> f x = g x) \<Longrightarrow> rbind m f = rbind m' g"
  by (cases m') auto


section \<open>C strings\<close>

text \<open>
  Memory is a list of characters from a pointer on. \<open>c_str\<close> reads the string that starts
  there: \<open>None\<close> when no terminator follows before the object ends, which is where
  \<open>strlen\<close>, \<open>strcmp\<close> or \<open>printf("%s")\<close> would run out of the object.
\<close>

abbreviation NUL :: char where
  "NUL \<equiv> CHR 0x00"

fun c_str :: "char list \<Rightarrow> string option" where
  "c_str [] = None"
| "c_str (c # cs) = (if c = NUL then Some [] else map_option ((#) c) (c_str cs))"

text \<open>\<open>strcmp0 a b\<close> is the test \<open>strcmp(a, b) == 0\<close> on the memory behind both pointers.\<close>

fun strcmp0 :: "char list \<Rightarrow> char list \<Rightarrow> bool option" where
  "strcmp0 (a # as) (b # bs) =
     (if a \<noteq> b then Some False else if a = NUL then Some True else strcmp0 as bs)"
| "strcmp0 as bs = None"

lemma c_str_append [cstr_simps]: "NUL \<notin> set s \<Longrightarrow> c_str (s @ NUL # r) = Some s"
  by (induction s) auto

lemma c_str_SomeE:
  assumes "c_str m = Some s"
  obtains r where "m = s @ NUL # r" and "NUL \<notin> set s"
proof -
  have "\<exists>r. m = s @ NUL # r \<and> NUL \<notin> set s"
    using assms by (induction m arbitrary: s) (auto split: if_splits)
  with that show ?thesis by blast
qed

lemma c_str_no_nul: "c_str m = Some s \<Longrightarrow> NUL \<notin> set s"
  by (erule c_str_SomeE)

lemma c_str_None_iff: "c_str m = None \<longleftrightarrow> NUL \<notin> set m"
  by (induction m) auto

lemma c_str_length: "c_str m = Some s \<Longrightarrow> length s < length m"
  by (erule c_str_SomeE) simp

lemma strcmp0_terminated [cstr_simps]:
  "NUL \<notin> set s \<Longrightarrow> NUL \<notin> set t \<Longrightarrow> strcmp0 (s @ NUL # x) (t @ NUL # y) = Some (s = t)"
proof (induction s arbitrary: t)
  case Nil
  then show ?case by (cases t) auto
next
  case (Cons a s)
  then show ?case by (cases t) auto
qed

lemma strcmp0_c_str:
  "c_str m = Some s \<Longrightarrow> c_str m' = Some t \<Longrightarrow> strcmp0 m m' = Some (s = t)"
  by (elim c_str_SomeE) (simp add: strcmp0_terminated)


section \<open>Search loops\<close>

text \<open>The first index of an array whose cell satisfies a test.\<close>

fun find_first :: "('a \<Rightarrow> bool) \<Rightarrow> 'a list \<Rightarrow> nat option" where
  "find_first P [] = None"
| "find_first P (x # xs) = (if P x then Some 0 else map_option Suc (find_first P xs))"

lemma find_first_Some_iff:
  "find_first P xs = Some i \<longleftrightarrow> i < length xs \<and> P (xs ! i) \<and> (\<forall>j<i. \<not> P (xs ! j))"
proof (induction xs arbitrary: i)
  case Nil
  then show ?case by simp
next
  case (Cons x xs)
  show ?case
  proof (cases i)
    case 0
    then show ?thesis by auto
  next
    case (Suc k)
    with Cons.IH [of k] show ?thesis by (auto simp: less_Suc_eq_0_disj)
  qed
qed

lemma find_first_None_iff: "find_first P xs = None \<longleftrightarrow> (\<forall>x\<in>set xs. \<not> P x)"
  by (induction xs) auto

lemma find_first_cong:
  "(\<And>x. x \<in> set xs \<Longrightarrow> P x = Q x) \<Longrightarrow> find_first P xs = find_first Q xs"
  by (induction xs) auto

lemma find_first_map: "find_first P (map f xs) = find_first (\<lambda>x. P (f x)) xs"
  by (induction xs) auto

lemma find_first_bound: "find_first P xs = Some i \<Longrightarrow> i < length xs"
  by (simp add: find_first_Some_iff)

end
