(* ===== verification/Words.thy ===== *)
theory Words
  imports Base
begin

text \<open>
  Splitting a line into words, the way both tokenizers of the repository do it
  (\<open>split_request\<close> of the kernel module, \<open>split_line\<close> of MiniFS): a first loop counts
  the ends of words, a second one runs a pointer over the characters. This theory holds
  the loops the two share, over an arbitrary test for white space, and the reference
  \<open>words\<close> they are compared with.
\<close>


section \<open>The reference\<close>

text \<open>The maximal runs of characters that are not white space, in order.\<close>

function words :: "(char \<Rightarrow> bool) \<Rightarrow> string \<Rightarrow> string list" where
  "words sp s =
     (case dropWhile sp s of
        [] \<Rightarrow> []
      | c # cs \<Rightarrow>
          takeWhile (\<lambda>x. \<not> sp x) (c # cs) # words sp (dropWhile (\<lambda>x. \<not> sp x) (c # cs)))"
  by pat_completeness auto
termination
proof (relation "measure (\<lambda>(sp, s). length s)", goal_cases)
  case 1
  show ?case by simp
next
  case (2 sp s c cs)
  from 2 have "\<not> sp c" by (metis hd_dropWhile list.sel(1) list.simps(3))
  have "length (dropWhile (\<lambda>x. \<not> sp x) (c # cs)) \<le> length cs"
    using \<open>\<not> sp c\<close> by (simp add: length_dropWhile_le)
  also have "\<dots> < length s"
    using length_dropWhile_le [of sp s] 2 by simp
  finally show ?case by simp
qed

declare words.simps [simp del]

lemma words_Nil [simp]: "words sp [] = []"
  by (simp add: words.simps)

lemma words_space [simp]: "sp c \<Longrightarrow> words sp (c # s) = words sp s"
  by (subst (1 2) words.simps) simp

lemma words_spaces: "\<forall>c\<in>set b. sp c \<Longrightarrow> words sp (b @ s) = words sp s"
  by (induction b) auto

lemma words_word:
  "w \<noteq> [] \<Longrightarrow> \<forall>c\<in>set w. \<not> sp c \<Longrightarrow> r = [] \<or> sp (hd r) \<Longrightarrow> words sp (w @ r) = w # words sp r"
proof -
  assume w: "w \<noteq> []" "\<forall>c\<in>set w. \<not> sp c" and r: "r = [] \<or> sp (hd r)"
  then obtain c cs where c: "w = c # cs" by (cases w) auto
  have tk: "takeWhile (\<lambda>x. \<not> sp x) (w @ r) = w" and dr: "dropWhile (\<lambda>x. \<not> sp x) (w @ r) = r"
    using w r by (cases r; simp add: takeWhile_append2 dropWhile_append2)+
  have "dropWhile sp (w @ r) = c # cs @ r"
    using w c by simp
  with tk dr c show ?thesis
    by (subst words.simps) simp
qed

text \<open>
  The shape both loops follow: a line is some white space, or some white space, a word and
  a rest that is empty or begins with white space. It gives an induction rule for lines.
\<close>

lemma line_cases:
  obtains (blank) "\<forall>c\<in>set s. sp c"
  | (word) b w r where "s = b @ w @ r" and "\<forall>c\<in>set b. sp c" and "w \<noteq> []"
      and "\<forall>c\<in>set w. \<not> sp c" and "r = [] \<or> sp (hd r)"
proof (cases "\<forall>c\<in>set s. sp c")
  case True
  then show ?thesis by (rule blank)
next
  case False
  define b where "b = takeWhile sp s"
  define w where "w = takeWhile (\<lambda>x. \<not> sp x) (dropWhile sp s)"
  define r where "r = dropWhile (\<lambda>x. \<not> sp x) (dropWhile sp s)"
  have "dropWhile sp s \<noteq> []" using False by simp
  then have "w \<noteq> []" unfolding w_def
    by (metis hd_dropWhile list.exhaust_sel takeWhile.simps(2) list.simps(3))
  moreover have "s = b @ w @ r" by (simp add: b_def w_def r_def)
  moreover have "\<forall>c\<in>set b. sp c" by (auto simp: b_def dest: set_takeWhileD)
  moreover have "\<forall>c\<in>set w. \<not> sp c" by (auto simp: w_def dest: set_takeWhileD)
  moreover have "r = [] \<or> sp (hd r)"
    unfolding r_def by (metis hd_dropWhile)
  ultimately show ?thesis using word by blast
qed

lemma line_induct [case_names blank word]:
  assumes blank: "\<And>s. \<forall>c\<in>set s. sp c \<Longrightarrow> P s"
    and word: "\<And>b w r. \<lbrakk>\<forall>c\<in>set b. sp c; w \<noteq> []; \<forall>c\<in>set w. \<not> sp c; r = [] \<or> sp (hd r); P r\<rbrakk>
      \<Longrightarrow> P (b @ w @ r)"
  shows "P s"
proof (induction "length s" arbitrary: s rule: less_induct)
  case less
  show ?case
  proof (cases s rule: line_cases [where sp = sp])
    case blank
    then show ?thesis by (rule assms(1))
  next
    case (word b w r)
    then have "length r < length s" by simp
    then have "P r" by (rule less)
    with word show ?thesis using assms(2) [of b w r] by blast
  qed
qed

lemma words_blank: "\<forall>c\<in>set s. sp c \<Longrightarrow> words sp s = []"
  using words_spaces [of s sp "[]"] by simp

lemma words_split:
  "\<forall>c\<in>set b. sp c \<Longrightarrow> w \<noteq> [] \<Longrightarrow> \<forall>c\<in>set w. \<not> sp c \<Longrightarrow> r = [] \<or> sp (hd r)
    \<Longrightarrow> words sp (b @ w @ r) = w # words sp r"
  by (simp add: words_spaces words_word)

lemma words_chars: "w \<in> set (words sp s) \<Longrightarrow> w \<noteq> [] \<and> set w \<subseteq> set s \<and> (\<forall>c\<in>set w. \<not> sp c)"
  by (induction s rule: line_induct [where sp = sp]) (auto simp: words_blank words_split)

text \<open>The words of a line, with a separator between two of them, are no longer than the line.\<close>

lemma words_total_length_lead:
  "words sp s \<noteq> [] \<Longrightarrow>
    sum_list (map length (words sp s)) + length (words sp s) + (if sp (hd s) then 1 else 0)
      \<le> Suc (length s)"
proof (induction s rule: line_induct [where sp = sp])
  case (blank s)
  then show ?case by (simp add: words_blank)
next
  case (word b w r)
  have hd_b: "(if sp (hd (b @ w @ r)) then 1 else 0) \<le> length b"
    using word by (cases b) auto
  show ?case
  proof (cases "words sp r = []")
    case True
    with word hd_b show ?thesis by (simp add: words_split)
  next
    case False
    with word.hyps have "sp (hd r)" by auto
    with False word.IH have "sum_list (map length (words sp r)) + length (words sp r) \<le> length r"
      by simp
    with word hd_b show ?thesis by (simp add: words_split)
  qed
qed

lemma words_total_length_sep:
  "words sp s \<noteq> [] \<Longrightarrow> sum_list (map length (words sp s)) + length (words sp s) \<le> Suc (length s)"
  using words_total_length_lead [of sp s] by (simp split: if_splits)


section \<open>The counting loop\<close>

text \<open>
  \<^verbatim>\<open>for (index = 1; index < length; ++index)
    if (is_space(data[index]) && !is_space(data[index - 1])) ++count;\<close>
\<close>

function count_ends :: "(char \<Rightarrow> bool) \<Rightarrow> char list \<Rightarrow> nat \<Rightarrow> nat \<Rightarrow> nat \<Rightarrow> nat" where
  "count_ends sp data len index count =
     (if index < len then
        count_ends sp data len (Suc index)
          (if sp (data ! index) \<and> \<not> sp (data ! (index - 1)) then Suc count else count)
      else count)"
  by pat_completeness auto
termination
  by (relation "measure (\<lambda>(sp, data, len, index, count). len - index)") auto

declare count_ends.simps [simp del]

text \<open>
  Only the first \<open>len\<close> characters matter, and a prefix splits off: the loop may be read
  from left to right, remembering whether the last character was white space.
\<close>

fun ends_from :: "(char \<Rightarrow> bool) \<Rightarrow> bool \<Rightarrow> char list \<Rightarrow> nat" where
  "ends_from sp prev [] = 0"
| "ends_from sp prev (c # cs) = (if sp c \<and> \<not> prev then 1 else 0) + ends_from sp (sp c) cs"

lemma count_ends_shift:
  "count_ends sp (l @ c # cs @ e) (Suc (length l + length cs)) (Suc (length l)) n =
     n + ends_from sp (sp c) cs"
proof (induction cs arbitrary: l c n)
  case Nil
  show ?case by (subst count_ends.simps) simp
next
  case (Cons d cs)
  have step: "count_ends sp ((l @ [c]) @ d # cs @ e) (Suc (length (l @ [c]) + length cs))
      (Suc (length (l @ [c]))) m = m + ends_from sp (sp d) cs" for m
    by (rule Cons)
  show ?case
    by (subst count_ends.simps) (use step in \<open>simp add: nth_append\<close>)
qed

lemma ends_from_append:
  "ends_from sp p (xs @ ys) = ends_from sp p xs + ends_from sp (if xs = [] then p else sp (last xs)) ys"
  by (induction xs arbitrary: p) auto

lemma ends_from_spaces: "\<forall>c\<in>set b. sp c \<Longrightarrow> ends_from sp True b = 0"
  by (induction b) auto

lemma ends_from_word: "\<forall>c\<in>set w. \<not> sp c \<Longrightarrow> ends_from sp p w = 0"
  by (induction w arbitrary: p) auto

lemma length_words_ends:
  "s \<noteq> [] \<Longrightarrow> ends_from sp True s + (if sp (last s) then 0 else 1) = length (words sp s)"
proof (induction s rule: line_induct [where sp = sp])
  case (blank s)
  then show ?case by (simp add: ends_from_spaces words_blank)
next
  case (word b w r)
  have w0: "ends_from sp (if b = [] then True else sp (last b)) w = 0"
    using word by (simp add: ends_from_word)
  have lw: "\<not> sp (last w)" using word by simp
  have e: "ends_from sp True (b @ w @ r) = ends_from sp False r"
    using word w0 lw by (simp add: ends_from_append ends_from_spaces)
  show ?case
  proof (cases r)
    case Nil
    with word e lw words_split [of b sp w "[]"] show ?thesis by simp
  next
    case (Cons c cs)
    with word e show ?thesis by (simp add: words_split)
  qed
qed

text \<open>
  The number both tokenizers compute: the loop from index 1, plus one when the last
  character is not white space.
\<close>

lemma count_ends_words:
  assumes "s \<noteq> []"
  shows "count_ends sp (s @ e) (length s) 1 0 + (if sp (last s) then 0 else 1) = length (words sp s)"
proof -
  obtain c cs where s: "s = c # cs" using assms by (cases s) auto
  have "count_ends sp (s @ e) (length s) 1 0 = ends_from sp (sp c) cs"
    using count_ends_shift [of sp "[]" c cs e 0] s by simp
  also have "\<dots> = ends_from sp True s" using s by simp
  finally show ?thesis using length_words_ends [OF assms, of sp] by simp
qed


lemma count_ends_words_nth:
  assumes "s \<noteq> []"
  shows "count_ends sp (s @ e) (length s) 1 0 + (if sp ((s @ e) ! (length s - 1)) then 0 else 1) =
    length (words sp s)"
proof -
  have "(s @ e) ! (length s - 1) = last s"
    using assms by (simp add: nth_append last_conv_nth)
  then show ?thesis using count_ends_words [OF assms, of sp e] by simp
qed


section \<open>Running a pointer over a word\<close>

text \<open>
  \<^verbatim>\<open>while (!is_space(*data) && (*data != '\0')) ++data;\<close>
  on the memory \<open>data\<close> from offset \<open>pos\<close>. A read past the end of the object stops.
\<close>

function scan_word :: "(char \<Rightarrow> bool) \<Rightarrow> char list \<Rightarrow> nat \<Rightarrow> nat res" where
  "scan_word sp data pos =
     (if pos < length data then
        if \<not> sp (data ! pos) \<and> data ! pos \<noteq> NUL then scan_word sp data (Suc pos) else Inr pos
      else Inl OutOfBounds)"
  by pat_completeness auto
termination
  by (relation "measure (\<lambda>(sp, data, pos). length data - pos)") auto

declare scan_word.simps [simp del]

lemma scan_word_run:
  "\<forall>c\<in>set w. \<not> sp c \<and> c \<noteq> NUL \<Longrightarrow> r \<noteq> [] \<Longrightarrow> sp (hd r) \<or> hd r = NUL
    \<Longrightarrow> scan_word sp (l @ w @ r) (length l) = Inr (length l + length w)"
proof (induction w arbitrary: l)
  case Nil
  then show ?case by (subst scan_word.simps) (auto simp: nth_append hd_conv_nth)
next
  case (Cons c w)
  have "scan_word sp ((l @ [c]) @ w @ r) (length (l @ [c])) = Inr (length (l @ [c]) + length w)"
    using Cons.prems by (intro Cons.IH) auto
  with Cons.prems show ?case by (subst scan_word.simps) simp
qed

end
