(* ===== verification/Kmod_Heap.thy ===== *)
theory Kmod_Heap
  imports Words
begin

text \<open>
  Kernel memory as the contact module (01-kernel_module/storage.c) uses it, and the
  tokenizer of its requests.

  The heap maps the address of an allocated block to what the code has written in it: the
  characters of a string buffer from its start (reading beyond them is an access to memory
  that was never written or is outside the block), or the array of token pointers, where
  \<open>None\<close> is a cell that was never written. \<open>kmalloc\<close> is not code of the repository: which
  address it returns, or whether it returns NULL, is the parameter \<open>A\<close>; its documented
  special case, a request of zero bytes, returns \<open>ZERO_SIZE_PTR\<close>, which owns no memory and
  which \<open>kfree\<close> ignores like NULL. Freeing anything else that is not an allocated block
  stops the model.
\<close>


section \<open>Blocks, kmalloc and kfree\<close>

type_synonym addr = nat

datatype kobj =
    KBytes "char list"
  | KPtrs "nat option list"

type_synonym kheap = "addr \<Rightarrow> kobj option"
type_synonym allocator = "kheap \<Rightarrow> nat \<Rightarrow> addr option"

definition ZERO_SIZE_PTR :: addr where
  "ZERO_SIZE_PTR = 16"

definition kmalloc :: "allocator \<Rightarrow> kheap \<Rightarrow> nat \<Rightarrow> addr option" where
  "kmalloc A h n = (if n = 0 then Some ZERO_SIZE_PTR else A h n)"

definition kfree :: "kheap \<Rightarrow> addr \<Rightarrow> kheap res" where
  "kfree h p =
     (if p = 0 \<or> p = ZERO_SIZE_PTR then Inr h
      else case h p of None \<Rightarrow> Inl BadFree | Some _ \<Rightarrow> Inr (h(p := None)))"

text \<open>The characters behind a pointer to the start of a block.\<close>

definition kbytes :: "kheap \<Rightarrow> addr \<Rightarrow> char list res" where
  "kbytes h p =
     (if p = 0 then Inl NullDeref
      else case h p of Some (KBytes m) \<Rightarrow> Inr m | _ \<Rightarrow> Inl OutOfBounds)"

text \<open>
  What the properties assume of the allocator: on a heap with finitely many blocks a block
  it returns is new and is not one of the two pointers that own no memory
  (\<open>alloc_fresh\<close>); it does not return NULL (\<open>alloc_total\<close>).
\<close>

definition alloc_fresh :: "allocator \<Rightarrow> bool" where
  "alloc_fresh A \<longleftrightarrow>
     (\<forall>h n p. finite (dom h) \<longrightarrow> A h n = Some p \<longrightarrow> h p = None \<and> p \<noteq> 0 \<and> p \<noteq> ZERO_SIZE_PTR)"

definition alloc_total :: "allocator \<Rightarrow> bool" where
  "alloc_total A \<longleftrightarrow> (\<forall>h n. finite (dom h) \<longrightarrow> A h n \<noteq> None)"

text \<open>One allocator with both properties: the first address above every block.\<close>

definition top_alloc :: allocator where
  "top_alloc h n = Some (Suc (Max (insert ZERO_SIZE_PTR (dom h))))"

lemma top_alloc_fresh: "alloc_fresh top_alloc"
proof -
  have "h (Suc (Max (insert ZERO_SIZE_PTR (dom h)))) = None" if "finite (dom h)" for h :: kheap
  proof (rule ccontr)
    assume "h (Suc (Max (insert ZERO_SIZE_PTR (dom h)))) \<noteq> None"
    then have "Suc (Max (insert ZERO_SIZE_PTR (dom h))) \<le> Max (insert ZERO_SIZE_PTR (dom h))"
      using that by (intro Max_ge) auto
    then show False by simp
  qed
  moreover have "ZERO_SIZE_PTR < Suc (Max (insert ZERO_SIZE_PTR (dom h)))"
    if "finite (dom h)" for h :: kheap
    using that by (simp add: less_Suc_eq_le)
  ultimately show ?thesis
    unfolding alloc_fresh_def top_alloc_def by (metis Zero_not_Suc less_irrefl option.inject)
qed

lemma top_alloc_total: "alloc_total top_alloc"
  by (simp add: alloc_total_def top_alloc_def)

lemma kbytes_ok: "h p = Some (KBytes m) \<Longrightarrow> p \<noteq> 0 \<Longrightarrow> kbytes h p = Inr m"
  by (simp add: kbytes_def)

lemma alloc_freshD:
  "alloc_fresh A \<Longrightarrow> finite (dom h) \<Longrightarrow> A h n = Some p \<Longrightarrow>
    h p = None \<and> p \<noteq> 0 \<and> p \<noteq> ZERO_SIZE_PTR"
  unfolding alloc_fresh_def by blast

lemma alloc_totalE:
  assumes "alloc_total A" and "finite (dom h)"
  obtains p where "A h n = Some p"
  using assms unfolding alloc_total_def by blast


section \<open>copy_string\<close>

text \<open>
  \<open>copy_string(data)\<close>: \<open>strlen\<close>, a new block of that size plus one, the characters and
  the terminator. A NULL from \<open>kmalloc\<close> is written through unchecked.
\<close>

definition copy_string :: "allocator \<Rightarrow> char list \<Rightarrow> kheap \<Rightarrow> (addr \<times> kheap) res" where
  "copy_string A data h =
     rbind (need OutOfBounds (c_str data)) (\<lambda>s.
     rbind (need NullDeref (kmalloc A h (length s + 1))) (\<lambda>result.
     Inr (result, h(result \<mapsto> KBytes (s @ [NUL])))))"

lemma copy_string_ok:
  "c_str data = Some s \<Longrightarrow> A h (length s + 1) = Some p \<Longrightarrow>
    copy_string A data h = Inr (p, h(p \<mapsto> KBytes (s @ [NUL])))"
  by (simp add: copy_string_def kmalloc_def)

section \<open>split_request\<close>

definition is_space :: "char \<Rightarrow> bool" where
  "is_space symbol \<longleftrightarrow>
     symbol = CHR '' '' \<or> symbol = CHR 0x0A \<or> symbol = CHR 0x0D \<or> symbol = CHR 0x09"

lemma is_space_NUL [simp]: "\<not> is_space NUL"
  by (simp add: is_space_def)

text \<open>\<^verbatim>\<open>while (is_space(*data)) { *data = '\0'; ++data; }\<close>\<close>

function skip_spaces :: "char list \<Rightarrow> nat \<Rightarrow> (char list \<times> nat) res" where
  "skip_spaces data pos =
     (if pos < length data then
        if is_space (data ! pos) then skip_spaces (data[pos := NUL]) (Suc pos)
        else Inr (data, pos)
      else Inl OutOfBounds)"
  by pat_completeness auto
termination
  by (relation "measure (\<lambda>(data, pos). length data - pos)") auto

declare skip_spaces.simps [simp del]

text \<open>
  The loop that fills the token array. \<open>null\<close> says that the array is a NULL pointer; a
  zero byte at the start of a token ends the loop early.
\<close>

function token_loop ::
  "bool \<Rightarrow> nat \<Rightarrow> nat \<Rightarrow> char list \<Rightarrow> nat \<Rightarrow> nat option list \<Rightarrow>
    (char list \<times> nat \<times> nat option list) res" where
  "token_loop null n index data pos toks =
     (if index < n then
        rbind (skip_spaces data pos) (\<lambda>(data, pos).
          if data ! pos = NUL then Inr (data, pos, toks)
          else if null then Inl NullDeref
          else rbind (scan_word is_space data pos) (\<lambda>pos'.
            token_loop null n (Suc index) data pos' (toks[index := Some pos])))
      else Inr (data, pos, toks))"
  by pat_completeness auto
termination
  by (relation "measure (\<lambda>(null, n, index, data, pos, toks). n - index)") auto

declare token_loop.simps [simp del]

definition sizeof_ptr :: nat where
  "sizeof_ptr = 8"

text \<open>
  \<open>split_request(data, length, &result_length)\<close> on the block at address \<open>p\<close>: the result
  is the token array (\<open>None\<close> for NULL), the count, and the heap, in which the request has
  its white space overwritten and the token array has been allocated and filled.
\<close>

definition split_request ::
  "allocator \<Rightarrow> addr \<Rightarrow> nat \<Rightarrow> kheap \<Rightarrow> (addr option \<times> nat \<times> kheap) res" where
  "split_request A p len h =
     (if len = 0 then Inr (None, 0, h)
      else
        rbind (kbytes h p) (\<lambda>data.
        if length data < len then Inl OutOfBounds
        else
          let result_length =
                count_ends is_space data len 1 0 + (if is_space (data ! (len - 1)) then 0 else 1);
              tokens = kmalloc A h (sizeof_ptr * result_length)
          in
          rbind (token_loop (tokens = None) result_length 0 data 0 (replicate result_length None))
            (\<lambda>(data, pos, toks).
          rbind (skip_spaces data pos) (\<lambda>(data, pos).
          let h = h(p \<mapsto> KBytes data) in
          Inr (tokens, result_length,
               case tokens of
                 None \<Rightarrow> h
               | Some t \<Rightarrow> if result_length = 0 then h else h(t \<mapsto> KPtrs toks))))))"

end
