(* ===== verification/Kmod_Split.thy ===== *)
theory Kmod_Split
  imports Kmod_Heap
begin

text \<open>
  Correctness of \<open>split_request\<close>: on a request without zero bytes the token array holds
  exactly the words of the request, each terminated in place.
\<close>

lemma skip_spaces_run:
  "\<forall>c\<in>set b. is_space c \<Longrightarrow> r \<noteq> [] \<Longrightarrow> \<not> is_space (hd r) \<Longrightarrow>
    skip_spaces (l @ b @ r) (length l) =
      Inr (l @ replicate (length b) NUL @ r, length l + length b)"
proof (induction b arbitrary: l)
  case Nil
  then show ?case by (subst skip_spaces.simps) (auto simp: nth_append hd_conv_nth)
next
  case (Cons c b)
  have "skip_spaces ((l @ [NUL]) @ b @ r) (length (l @ [NUL])) =
      Inr ((l @ [NUL]) @ replicate (length b) NUL @ r, length (l @ [NUL]) + length b)"
    using Cons.prems by (intro Cons.IH) auto
  with Cons.prems show ?case by (subst skip_spaces.simps) simp
qed

text \<open>
  The loop followed by the final run over trailing white space, on a line \<open>s\<close> of nonzero
  characters that lies behind the prefix \<open>l\<close> and before the terminator.
\<close>

definition tokens_done ::
  "nat \<Rightarrow> nat \<Rightarrow> char list \<Rightarrow> nat \<Rightarrow> nat option list \<Rightarrow> (char list \<times> nat option list) res" where
  "tokens_done n index data pos toks =
     rbind (token_loop False n index data pos toks) (\<lambda>(data, pos, toks).
     rbind (skip_spaces data pos) (\<lambda>(data, pos). Inr (data, toks)))"

lemma skip_spaces_stop:
  "pos < length data \<Longrightarrow> \<not> is_space (data ! pos) \<Longrightarrow> skip_spaces data pos = Inr (data, pos)"
  by (subst skip_spaces.simps) simp

lemma tokens_done_blank:
  assumes "\<forall>c\<in>set s. is_space c"
  shows "tokens_done n index (l @ s @ NUL # e) (length l) toks =
    Inr (l @ (replicate (length s) NUL @ [NUL]) @ e, toks)"
proof -
  have "skip_spaces (l @ s @ NUL # e) (length l) =
      Inr (l @ replicate (length s) NUL @ NUL # e, length l + length s)"
    using assms by (intro skip_spaces_run) auto
  moreover have "skip_spaces (l @ replicate (length s) NUL @ NUL # e) (length l + length s) =
      Inr (l @ replicate (length s) NUL @ NUL # e, length l + length s)"
    by (rule skip_spaces_stop) (simp_all add: nth_append)
  ultimately show ?thesis
    unfolding tokens_done_def by (subst token_loop.simps) (simp add: nth_append)
qed

text \<open>One turn of the loop: white space, then a word.\<close>

lemma tokens_done_step:
  assumes "\<forall>c\<in>set b. is_space c" and "w \<noteq> []" and "\<forall>c\<in>set w. \<not> is_space c"
    and "NUL \<notin> set w" and "r = [] \<or> is_space (hd r)" and "index < n"
  shows "tokens_done n index (l @ (b @ w @ r) @ NUL # e) (length l) toks =
    tokens_done n (Suc index) ((l @ replicate (length b) NUL @ w) @ r @ NUL # e)
      (length (l @ replicate (length b) NUL @ w)) (toks[index := Some (length l + length b)])"
proof -
  let ?off = "length l + length b"
  have w0: "\<not> is_space (hd w)" "hd w \<noteq> NUL" using assms by (cases w; auto)+
  have skip: "skip_spaces (l @ b @ w @ r @ NUL # e) (length l) =
      Inr (l @ replicate (length b) NUL @ w @ r @ NUL # e, ?off)"
    using assms w0 skip_spaces_run [of b "w @ r @ NUL # e" l] by simp
  have "scan_word is_space ((l @ replicate (length b) NUL) @ w @ (r @ NUL # e))
      (length (l @ replicate (length b) NUL)) =
      Inr (length (l @ replicate (length b) NUL) + length w)"
    using assms by (intro scan_word_run) (auto split: list.splits simp: hd_append)
  then have scan: "scan_word is_space (l @ replicate (length b) NUL @ w @ r @ NUL # e) ?off =
      Inr (length (l @ replicate (length b) NUL @ w))"
    by (simp add: add.assoc)
  have at: "(l @ replicate (length b) NUL @ w @ r @ NUL # e) ! ?off \<noteq> NUL"
    using assms w0 by (cases w) (simp_all add: nth_append)
  show ?thesis
    unfolding tokens_done_def
    by (subst token_loop.simps) (use assms skip at scan in \<open>simp add: add.assoc\<close>)
qed

text \<open>
  What the loop leaves when a zero byte follows the line \<open>s\<close>: the words of \<open>s\<close> are stored
  and terminated, and the cells for further tokens are untouched.
\<close>

lemma tokens_done_words:
  assumes "NUL \<notin> set s" and "index + length (words is_space s) \<le> length toks"
  shows "\<exists>m offs.
    tokens_done (length toks) index (l @ s @ NUL # e) (length l) toks =
      Inr (l @ m @ e, take index toks @ map Some offs @ drop (index + length offs) toks) \<and>
    length m = Suc (length s) \<and>
    list_all2 (\<lambda>off w. length l \<le> off \<and> c_str (drop (off - length l) m) = Some w)
      offs (words is_space s) \<and>
    (s = [] \<or> is_space (hd s) \<longrightarrow> hd m = NUL)"
  using assms
proof (induction s arbitrary: l index toks rule: line_induct [where sp = is_space])
  case (blank s)
  have "hd (replicate (length s) NUL @ [NUL]) = NUL"
    by (cases "length s") auto
  with blank show ?case
    by (intro exI [of _ "replicate (length s) NUL @ [NUL]"] exI [of _ "[]"])
      (simp add: words_blank tokens_done_blank)
next
  case (word b w r)
  let ?l = "l @ replicate (length b) NUL @ w"
  let ?off = "length l + length b"
  let ?toks = "toks[index := Some ?off]"
  have ws: "words is_space (b @ w @ r) = w # words is_space r"
    using word.hyps by (simp add: words_split)
  have i: "index < length toks" and n: "Suc index + length (words is_space r) \<le> length ?toks"
    using word.prems ws by simp_all
  have step: "tokens_done (length toks) index (l @ (b @ w @ r) @ NUL # e) (length l) toks =
      tokens_done (length ?toks) (Suc index) (?l @ r @ NUL # e) (length ?l) ?toks"
    using tokens_done_step [of b w r index "length toks" l e toks] word.hyps word.prems i by simp
  obtain m offs where m: "tokens_done (length ?toks) (Suc index) (?l @ r @ NUL # e) (length ?l) ?toks =
        Inr (?l @ m @ e, take (Suc index) ?toks @ map Some offs @ drop (Suc index + length offs) ?toks)"
      "length m = Suc (length r)"
      "list_all2 (\<lambda>off w. length ?l \<le> off \<and> c_str (drop (off - length ?l) m) = Some w)
        offs (words is_space r)"
      "r = [] \<or> is_space (hd r) \<longrightarrow> hd m = NUL"
    using word.IH [of "Suc index" ?toks ?l] word.prems n by auto
  let ?m = "replicate (length b) NUL @ w @ m"
  have tk: "take (Suc index) ?toks = take index toks @ [Some ?off]"
    using i by (simp add: take_Suc_conv_app_nth)
  have "m = NUL # tl m" using m(2,4) word.hyps(4) by (cases m) auto
  then have "c_str (drop (?off - length l) ?m) = Some w"
    using c_str_append [of w "tl m"] word.prems(1) by simp
  moreover have "list_all2 (\<lambda>off w. length l \<le> off \<and> c_str (drop (off - length l) ?m) = Some w)
      offs (words is_space r)"
    using m(3)
  proof (rule list_all2_mono, goal_cases)
    case (1 off v)
    then obtain k where "off = length ?l + k" using le_Suc_ex by blast
    with 1 show ?case by simp
  qed
  moreover have "b @ w @ r = [] \<or> is_space (hd (b @ w @ r)) \<longrightarrow> hd ?m = NUL"
    using word.hyps by (cases b; cases w) auto
  ultimately show ?case
    using m(1,2) step tk ws
    by (intro exI [of _ ?m] exI [of _ "?off # offs"]) simp
qed

lemma words_prefix_length:
  "length (words sp s) \<le> length (words sp (s @ t))"
proof (induction s arbitrary: t rule: line_induct [where sp = sp])
  case (blank s)
  then show ?case by (simp add: words_blank)
next
  case (word b w r)
  show ?case
  proof (cases r)
    case Nil
    have "words sp (b @ w @ t) \<noteq> []"
    proof -
      obtain c cs where "w @ t = c # cs" "\<not> sp c" using word.hyps by (cases w) auto
      then have "dropWhile sp (b @ w @ t) \<noteq> []" using word.hyps by simp
      then show ?thesis by (subst words.simps) (simp split: list.splits)
    qed
    with word Nil words_split [of b sp w "[]"] show ?thesis by (cases "words sp (b @ w @ t)") simp_all
  next
    case (Cons c cs)
    with word words_split [of b sp w "r @ t"] words_split [of b sp w r] word.IH [of t]
    show ?thesis by simp
  qed
qed


section \<open>split_request on a block\<close>

text \<open>
  The request \<open>s\<close> lies at the start of the block, followed by its terminator; \<open>e\<close> is what
  follows the first zero byte. The first \<open>length offs\<close> cells of the token array hold the
  words of \<open>s\<close>, the rest was never written.
\<close>

lemma split_request_prefix:
  assumes hp: "h p = Some (KBytes (s @ NUL # e @ [NUL]))" and p: "p \<noteq> 0" "p \<noteq> t"
    and nul: "NUL \<notin> set s"
    and n: "n = length (words is_space (s @ NUL # e))"
    and t: "A h (sizeof_ptr * n) = Some t"
  shows "\<exists>m offs.
    split_request A p (length (s @ NUL # e)) h =
      Inr (Some t, n, h(p \<mapsto> KBytes m, t \<mapsto> KPtrs (map Some offs @ replicate (n - length offs) None))) \<and>
    list_all2 (\<lambda>off w. c_str (drop off m) = Some w) offs (words is_space s) \<and> n \<noteq> 0"
proof -
  let ?s = "s @ NUL # e"
  have "words is_space ?s \<noteq> []"
  proof -
    have "dropWhile is_space ?s \<noteq> []" by auto
    then show ?thesis by (subst words.simps) (simp split: list.splits)
  qed
  then have n0: "n \<noteq> 0" using n by simp
  have count: "count_ends is_space (?s @ [NUL]) (length ?s) 1 0 +
      (if is_space ((?s @ [NUL]) ! (length ?s - 1)) then 0 else 1) = n"
    using count_ends_words_nth [of ?s is_space "[NUL]"] n by blast
  have le: "0 + length (words is_space s) \<le> length (replicate n (None :: nat option))"
    using words_prefix_length [of is_space s "NUL # e"] n by simp
  from tokens_done_words [OF nul le, of "[]" "e @ [NUL]"]
  obtain m offs where m: "tokens_done n 0 (s @ NUL # e @ [NUL]) 0 (replicate n None) =
        Inr (m @ e @ [NUL], map Some offs @ drop (length offs) (replicate n None))"
      "length m = Suc (length s)"
      "list_all2 (\<lambda>off w. c_str (drop off m) = Some w) offs (words is_space s)"
    by auto
  have "list_all2 (\<lambda>off w. c_str (drop off (m @ e @ [NUL])) = Some w) offs (words is_space s)"
    using m(3)
  proof (rule list_all2_mono, goal_cases)
    case (1 off v)
    then obtain r where "drop off m = v @ NUL # r" and "NUL \<notin> set v" by (auto elim: c_str_SomeE)
    moreover from this have "off \<le> length m" by (metis drop_all nat_le_linear Nil_is_append_conv list.distinct(1))
    ultimately show ?case by (simp add: c_str_append)
  qed
  with m(1) count n0 t p show ?thesis
    by (intro exI [of _ "m @ e @ [NUL]"] exI [of _ offs])
      (auto simp: split_request_def kbytes_ok [where h = h, OF hp] kmalloc_def sizeof_ptr_def tokens_done_def
        rbind_eq_Inr Let_def)
qed

text \<open>A request without zero bytes: every cell of the token array holds its word.\<close>

lemma split_request_words:
  assumes hp: "h p = Some (KBytes (s @ [NUL]))" and p: "p \<noteq> 0" "p \<noteq> t"
    and nul: "NUL \<notin> set s" and n: "n = length (words is_space s)" "n \<noteq> 0"
    and t: "A h (sizeof_ptr * n) = Some t"
  shows "\<exists>m offs.
    split_request A p (length s) h =
      Inr (Some t, n, h(p \<mapsto> KBytes m, t \<mapsto> KPtrs (map Some offs))) \<and>
    list_all2 (\<lambda>off w. c_str (drop off m) = Some w) offs (words is_space s)"
proof -
  have s0: "s \<noteq> []" using n by auto
  have count: "count_ends is_space (s @ [NUL]) (length s) 1 0 +
      (if is_space ((s @ [NUL]) ! (length s - 1)) then 0 else 1) = n"
    using count_ends_words_nth [OF s0, of is_space "[NUL]"] n by blast
  have le: "0 + length (words is_space s) \<le> length (replicate n (None :: nat option))"
    using n by simp
  from tokens_done_words [OF nul le, of "[]" "[]"]
  obtain m offs where m: "tokens_done n 0 (s @ [NUL]) 0 (replicate n None) =
        Inr (m, map Some offs @ drop (length offs) (replicate n None))"
      "list_all2 (\<lambda>off w. c_str (drop off m) = Some w) offs (words is_space s)"
    by auto
  from m(2) have "length offs = n" using n by (simp add: list_all2_lengthD)
  with m count n s0 t p show ?thesis
    by (intro exI [of _ m] exI [of _ offs])
      (auto simp: split_request_def kbytes_ok [where h = h, OF hp] kmalloc_def sizeof_ptr_def tokens_done_def
        rbind_eq_Inr Let_def)
qed

text \<open>A request of white space only: no token, and no block is allocated.\<close>

lemma split_request_blank:
  assumes hp: "h p = Some (KBytes (s @ [NUL]))" and p: "p \<noteq> 0"
    and blank: "\<forall>c\<in>set s. is_space c" and s0: "s \<noteq> []"
  shows "split_request A p (length s) h =
    Inr (Some ZERO_SIZE_PTR, 0, h(p \<mapsto> KBytes (replicate (Suc (length s)) NUL)))"
proof -
  have count: "count_ends is_space (s @ [NUL]) (length s) 1 0 +
      (if is_space ((s @ [NUL]) ! (length s - 1)) then 0 else 1) = 0"
    using count_ends_words_nth [OF s0, of is_space "[NUL]"] blank by (simp add: words_blank)
  have "tokens_done 0 0 (s @ [NUL]) 0 [] = Inr (replicate (length s) NUL @ [NUL], [])"
    using tokens_done_blank [OF blank, of 0 0 "[]" "[]" "[]"] by simp
  with count s0 p show ?thesis
    by (auto simp: split_request_def kbytes_ok [where h = h, OF hp] kmalloc_def tokens_done_def
        rbind_eq_Inr Let_def replicate_append_same)
qed

end
