(* ===== verification/Contact_Spec.thy ===== *)
theory Contact_Spec
  imports Base "HOL-Library.Multiset"
begin

text \<open>
  What both contact storages of the repository promise (the character device of
  01-kernel_module and the system calls of 03-sys_call): a fixed number of cells, each free
  or holding one contact; adding takes the first free cell; searching and deleting take the
  first cell whose surname matches. The cells are a list of options, the operations
  functions on it, and the locale \<open>contact_store\<close> the interface each storage is proved
  to implement. The lemmas about clients are proved once, in the locale.
\<close>


section \<open>Operations on the cells\<close>

fun slot_add :: "'c \<Rightarrow> 'c option list \<Rightarrow> 'c option list" where
  "slot_add c [] = []"
| "slot_add c (None # xs) = Some c # xs"
| "slot_add c (Some d # xs) = Some d # slot_add c xs"

definition slot_match :: "('c \<Rightarrow> string) \<Rightarrow> string \<Rightarrow> 'c option \<Rightarrow> bool" where
  "slot_match key k x \<longleftrightarrow> (case x of None \<Rightarrow> False | Some c \<Rightarrow> key c = k)"

fun slot_find :: "('c \<Rightarrow> string) \<Rightarrow> string \<Rightarrow> 'c option list \<Rightarrow> 'c option" where
  "slot_find key k [] = None"
| "slot_find key k (x # xs) = (if slot_match key k x then x else slot_find key k xs)"

fun slot_del :: "('c \<Rightarrow> string) \<Rightarrow> string \<Rightarrow> 'c option list \<Rightarrow> 'c option list" where
  "slot_del key k [] = []"
| "slot_del key k (x # xs) = (if slot_match key k x then None # xs else x # slot_del key k xs)"

text \<open>The contacts held, with their multiplicity.\<close>

fun slot_entries :: "'c option list \<Rightarrow> 'c multiset" where
  "slot_entries [] = {#}"
| "slot_entries (None # xs) = slot_entries xs"
| "slot_entries (Some c # xs) = add_mset c (slot_entries xs)"

lemma slot_match_simps [simp]:
  "slot_match key k None = False"
  "slot_match key k (Some c) = (key c = k)"
  by (simp_all add: slot_match_def)

lemma length_slot_add [simp]: "length (slot_add c xs) = length xs"
  by (induction c xs rule: slot_add.induct) auto

lemma length_slot_del [simp]: "length (slot_del key k xs) = length xs"
  by (induction xs) auto

lemma slot_add_find_first:
  "slot_add c xs =
    (case find_first (\<lambda>x. x = None) xs of None \<Rightarrow> xs | Some i \<Rightarrow> xs[i := Some c])"
  by (induction c xs rule: slot_add.induct) (auto split: option.splits)

lemma slot_find_find_first:
  "slot_find key k xs = (case find_first (slot_match key k) xs of None \<Rightarrow> None | Some i \<Rightarrow> xs ! i)"
  by (induction xs) (auto split: option.splits)

lemma slot_del_find_first:
  "slot_del key k xs = (case find_first (slot_match key k) xs of None \<Rightarrow> xs | Some i \<Rightarrow> xs[i := None])"
  by (induction xs) (auto split: option.splits)

lemma entries_add: "None \<in> set xs \<Longrightarrow> slot_entries (slot_add c xs) = add_mset c (slot_entries xs)"
  by (induction c xs rule: slot_add.induct) auto

lemma slot_add_full: "None \<notin> set xs \<Longrightarrow> slot_add c xs = xs"
  by (induction c xs rule: slot_add.induct) auto

lemma slot_find_SomeD: "slot_find key k xs = Some c \<Longrightarrow> key c = k \<and> c \<in># slot_entries xs"
  by (induction xs rule: slot_entries.induct) (auto split: if_splits)

lemma slot_find_None_iff: "slot_find key k xs = None \<longleftrightarrow> (\<forall>c. c \<in># slot_entries xs \<longrightarrow> key c \<noteq> k)"
  by (induction xs rule: slot_entries.induct) auto

lemma slot_find_add_same:
  "None \<in> set xs \<Longrightarrow> slot_find key (key c) xs = None \<Longrightarrow> slot_find key (key c) (slot_add c xs) = Some c"
  by (induction c xs rule: slot_add.induct) (auto split: if_splits)

lemma slot_find_add_other:
  "key c \<noteq> k \<Longrightarrow> slot_find key k (slot_add c xs) = slot_find key k xs"
  by (induction c xs rule: slot_add.induct) auto

text \<open>A deletion removes one contact, the one a search would have returned.\<close>

lemma entries_del:
  "slot_entries (slot_del key k xs) =
    (case slot_find key k xs of None \<Rightarrow> slot_entries xs | Some c \<Rightarrow> slot_entries xs - {#c#})"
proof (induction xs rule: slot_entries.induct)
  case 1
  then show ?case by simp
next
  case (2 xs)
  then show ?case by (simp split: option.splits)
next
  case (3 c xs)
  show ?case
  proof (cases "key c = k")
    case True
    then show ?thesis by simp
  next
    case False
    with 3 show ?thesis
      by (auto split: option.splits dest: slot_find_SomeD)
  qed
qed

lemma slot_find_del_other:
  "k \<noteq> k' \<Longrightarrow> slot_find key k' (slot_del key k xs) = slot_find key k' xs"
  by (induction xs rule: slot_entries.induct) auto

lemma slot_del_absent: "slot_find key k xs = None \<Longrightarrow> slot_del key k xs = xs"
  by (induction xs rule: slot_entries.induct) (auto split: if_splits)

lemma slot_del_frees: "slot_find key k xs \<noteq> None \<Longrightarrow> None \<in> set (slot_del key k xs)"
  by (induction xs rule: slot_entries.induct) auto

lemma size_slot_entries: "size (slot_entries xs) \<le> length xs"
  by (induction xs rule: slot_entries.induct) auto

lemma size_slot_entries_full: "size (slot_entries xs) = length xs \<longleftrightarrow> None \<notin> set xs"
proof (induction xs rule: slot_entries.induct)
  case (2 xs)
  have "size (slot_entries xs) \<noteq> Suc (length xs)" using size_slot_entries [of xs] by simp
  then show ?case by simp
qed auto

text \<open>A table whose cells are all free.\<close>

lemma slot_find_replicate [simp]: "slot_find key k (replicate n None) = None"
  by (induction n) auto

lemma slot_entries_replicate [simp]: "slot_entries (replicate n None) = {#}"
  by (induction n) auto


section \<open>The interface\<close>

text \<open>
  \<open>inv\<close> is the storage's invariant, \<open>adm\<close> the contacts and \<open>kadm\<close> the surnames a client may
  pass, \<open>slots\<close> the abstraction function, \<open>view\<close> what a client gets to see of the result of
  a search. Every operation returns, keeps the invariant and acts on the cells as its
  specification.
\<close>

locale contact_store =
  fixes inv :: "'s \<Rightarrow> bool"
    and adm :: "'c \<Rightarrow> bool"
    and kadm :: "string \<Rightarrow> bool"
    and slots :: "'s \<Rightarrow> 'c option list"
    and key :: "'c \<Rightarrow> string"
    and add :: "'c \<Rightarrow> 's \<Rightarrow> stop + bool \<times> 's"
    and view :: "'c option \<Rightarrow> 'r"
    and look :: "string \<Rightarrow> 's \<Rightarrow> stop + 'r"
    and del :: "string \<Rightarrow> 's \<Rightarrow> stop + bool \<times> 's"
  assumes add_law: "inv s \<Longrightarrow> adm c \<Longrightarrow>
      \<exists>s'. add c s = Inr (None \<in> set (slots s), s') \<and> inv s' \<and> slots s' = slot_add c (slots s)"
    and look_law: "inv s \<Longrightarrow> kadm k \<Longrightarrow> look k s = Inr (view (slot_find key k (slots s)))"
    and view_absent: "view r = view None \<longleftrightarrow> r = None"
    and del_law: "inv s \<Longrightarrow> kadm k \<Longrightarrow>
      \<exists>s'. del k s = Inr (slot_find key k (slots s) \<noteq> None, s') \<and> inv s' \<and>
        slots s' = slot_del key k (slots s)"
    and key_adm: "adm c \<Longrightarrow> kadm (key c)"
begin

text \<open>A contact that was added under a new surname is found, and exactly it.\<close>

lemma look_after_add:
  assumes "inv s" and "adm c" and "look (key c) s = Inr (view None)" and "add c s = Inr (True, s')"
  shows "look (key c) s' = Inr (view (Some c))"
proof -
  from add_law [OF assms(1,2)] assms(4)
  have s': "inv s'" "slots s' = slot_add c (slots s)" and free: "None \<in> set (slots s)"
    by auto
  from look_law [OF assms(1) key_adm [OF assms(2)]] assms(3)
  have "slot_find key (key c) (slots s) = None" by (metis Inr_inject view_absent)
  with s' free show ?thesis
    by (simp add: look_law key_adm [OF assms(2)] slot_find_add_same)
qed

lemma look_after_add_other:
  assumes "inv s" and "adm c" and "kadm k" and "k \<noteq> key c" and "add c s = Inr (b, s')"
  shows "look k s' = look k s"
  using add_law [OF assms(1,2)] assms by (auto simp: look_law slot_find_add_other)

lemma look_after_del_other:
  assumes "inv s" and "kadm k" and "kadm k'" and "k \<noteq> k'" and "del k s = Inr (b, s')"
  shows "look k' s' = look k' s"
  using del_law [OF assms(1,2)] assms by (auto simp: look_law slot_find_del_other)

text \<open>A deletion removes exactly the contact a search returned before it.\<close>

lemma del_removes:
  assumes "inv s" and "kadm k" and f: "slot_find key k (slots s) = Some c" and "del k s = Inr (b, s')"
  shows "b \<and> slot_entries (slots s) = add_mset c (slot_entries (slots s'))"
proof -
  from f slot_find_SomeD have "c \<in># slot_entries (slots s)" by metis
  with f del_law [OF assms(1,2)] assms(4) show ?thesis
    by (auto simp: entries_del)
qed

lemma del_absent:
  assumes "inv s" and "kadm k" and "look k s = Inr (view None)" and "del k s = Inr (b, s')"
  shows "\<not> b \<and> slots s' = slots s"
  using del_law [OF assms(1,2)] assms by (auto simp: look_law view_absent slot_del_absent)

text \<open>An addition fails exactly when every cell is taken, and then changes no cell.\<close>

lemma add_fails_iff_full:
  assumes "inv s" and "adm c" and "add c s = Inr (b, s')"
  shows "\<not> b \<longleftrightarrow> size (slot_entries (slots s)) = length (slots s)"
    and "\<not> b \<Longrightarrow> slots s' = slots s"
  using add_law [OF assms(1,2)] assms(3) by (auto simp: size_slot_entries_full slot_add_full)

text \<open>A deletion that succeeds makes room: the addition after it succeeds.\<close>

lemma add_after_del:
  assumes "inv s" and "kadm k" and "del k s = Inr (True, s')" and "adm c"
  shows "\<exists>s''. add c s' = Inr (True, s'') \<and>
    slot_entries (slots s'') = add_mset c (slot_entries (slots s'))"
proof -
  from del_law [OF assms(1,2)] assms(3)
  have "inv s'" "slots s' = slot_del key k (slots s)" "slot_find key k (slots s) \<noteq> None"
    by auto
  with add_law [OF _ assms(4), of s'] show ?thesis
    by (auto simp: slot_del_frees entries_add)
qed

text \<open>A list of contacts added one after the other, while there is room, is held as a whole.\<close>

primrec adds :: "'c list \<Rightarrow> 's \<Rightarrow> stop + 's" where
  "adds [] s = Inr s"
| "adds (c # cs) s = rbind (add c s) (\<lambda>(b, s'). adds cs s')"

lemma adds_entries:
  assumes "inv s" and "\<forall>c\<in>set cs. adm c"
    and "size (slot_entries (slots s)) + length cs \<le> length (slots s)"
  shows "\<exists>s'. adds cs s = Inr s' \<and> inv s' \<and>
    slot_entries (slots s') = slot_entries (slots s) + mset cs"
  using assms
proof (induction cs arbitrary: s)
  case Nil
  then show ?case by simp
next
  case (Cons c cs)
  have free: "None \<in> set (slots s)"
    using Cons.prems size_slot_entries_full [of "slots s"] by force
  from add_law [of s c] Cons.prems obtain s1 where s1: "add c s = Inr (None \<in> set (slots s), s1)"
      "inv s1" "slots s1 = slot_add c (slots s)" by auto
  have e1: "slot_entries (slots s1) = add_mset c (slot_entries (slots s))"
    using s1 free by (simp add: entries_add)
  have "\<exists>s'. adds cs s1 = Inr s' \<and> inv s' \<and> slot_entries (slots s') = slot_entries (slots s1) + mset cs"
    using Cons.prems s1 e1 by (intro Cons.IH) auto
  with s1 e1 show ?case by auto
qed

end

end
