(* ===== verification/Kmod_Store.thy ===== *)
theory Kmod_Store
  imports Kmod_Split Contact_Spec
begin

text \<open>
  The contact table of the kernel module (01-kernel_module/storage.c): the array \<open>users\<close>,
  the output buffer, and the commands add, get and delete on them. The memory invariant
  says who owns every block of the heap; the table implements \<open>contact_store\<close>.
\<close>


section \<open>State\<close>

definition MAX_INP :: nat where "MAX_INP = 1023"
definition USER_COUNT_k :: nat where "USER_COUNT_k = 1024"
definition OUTPUT_SIZE :: nat where "OUTPUT_SIZE = 2048"

record User_k =
  name_k :: addr
  surname_k :: addr
  phone_k :: addr
  email_k :: addr
  age_k :: addr
  status_k :: char

text \<open>
  The module's static variables and the heap. \<open>output_ptr\<close> is NULL (\<open>None\<close>) or points into
  \<open>output_data\<close> at an offset. \<open>module_refs\<close> counts the references \<open>try_module_get\<close> and
  \<open>module_put\<close> take and drop.
\<close>

record kmod =
  users_k :: "User_k list"
  output_data :: "char list"
  output_ptr :: "nat option"
  heap_k :: kheap
  major_number :: int
  open_counter :: int
  module_refs :: int

text \<open>Static storage is zero before the module is loaded.\<close>

definition zero_User_k :: User_k where
  "zero_User_k = \<lparr>name_k = 0, surname_k = 0, phone_k = 0, email_k = 0, age_k = 0, status_k = NUL\<rparr>"

definition kmod_static :: kmod where
  "kmod_static =
     \<lparr>users_k = replicate USER_COUNT_k zero_User_k, output_data = replicate OUTPUT_SIZE NUL,
      output_ptr = None, heap_k = Map.empty, major_number = 0, open_counter = 0, module_refs = 0\<rparr>"


section \<open>Operations\<close>

text \<open>\<open>sprintf(output_data, "%s", message)\<close> into the static buffer, and the pointer reset.\<close>

definition set_message :: "string \<Rightarrow> kmod \<Rightarrow> kmod res" where
  "set_message message s =
     (if length message + 1 \<le> length (output_data s) then
        Inr (s\<lparr>output_data := message @ [NUL] @ drop (length message + 1) (output_data s),
               output_ptr := Some 0\<rparr>)
      else Inl OutOfBounds)"

text \<open>
  The command add: the arguments are the memory behind the five pointers. The first free
  cell gets five copies, then the status \<open>t\<close>.
\<close>

definition add_user_note_k ::
  "allocator \<Rightarrow> char list \<Rightarrow> char list \<Rightarrow> char list \<Rightarrow> char list \<Rightarrow> char list \<Rightarrow> kmod \<Rightarrow> kmod res" where
  "add_user_note_k A name surname age phone email s =
     (case find_first (\<lambda>u. status_k u = CHR ''f'') (users_k s) of
        Some index \<Rightarrow>
          rbind (copy_string A name (heap_k s)) (\<lambda>(name', h).
          rbind (copy_string A surname h) (\<lambda>(surname', h).
          rbind (copy_string A age h) (\<lambda>(age', h).
          rbind (copy_string A phone h) (\<lambda>(phone', h).
          rbind (copy_string A email h) (\<lambda>(email', h).
          set_message ''OK\<newline>''
            (s\<lparr>heap_k := h,
               users_k := (users_k s)[index := (users_k s ! index)
                 \<lparr>name_k := name', surname_k := surname', age_k := age', phone_k := phone',
                  email_k := email', status_k := CHR ''t''\<rparr>]\<rparr>))))))
      | None \<Rightarrow>
          set_message ''INTERNAL ERROR\<newline>No free cells to store data\<newline>'' s)"

text \<open>
  The search loop of get and of delete: the first taken cell whose surname compares equal.
\<close>

fun find_user :: "kheap \<Rightarrow> char list \<Rightarrow> User_k list \<Rightarrow> nat option res" where
  "find_user h surname [] = Inr None"
| "find_user h surname (u # us) =
     (if status_k u = CHR ''t'' then
        rbind (kbytes h (surname_k u)) (\<lambda>m.
        rbind (need OutOfBounds (strcmp0 surname m)) (\<lambda>eq.
        if eq then Inr (Some 0)
        else rbind (find_user h surname us) (\<lambda>r. Inr (map_option Suc r))))
      else rbind (find_user h surname us) (\<lambda>r. Inr (map_option Suc r)))"

text \<open>The string a \<open>%s\<close> prints for a pointer to a block.\<close>

definition kstring :: "kheap \<Rightarrow> addr \<Rightarrow> string res" where
  "kstring h p = rbind (kbytes h p) (\<lambda>m. need OutOfBounds (c_str m))"

text \<open>The format of a found contact.\<close>

definition found_text :: "string \<Rightarrow> string \<Rightarrow> string \<Rightarrow> string \<Rightarrow> string \<Rightarrow> string" where
  "found_text name surname age phone email =
     ''FOUND\<newline>Name: '' @ name @ ''\<newline>Surname: '' @ surname @ ''\<newline>Age: '' @ age @
     ''\<newline>Phone: '' @ phone @ ''\<newline>Email: '' @ email @ ''\<newline>''"

definition get_user_note_k :: "char list \<Rightarrow> kmod \<Rightarrow> kmod res" where
  "get_user_note_k surname s =
     rbind (find_user (heap_k s) surname (users_k s)) (\<lambda>result.
     case result of
       None \<Rightarrow> set_message ''NOT FOUND\<newline>'' s
     | Some i \<Rightarrow>
         let u = users_k s ! i in
         rbind (kstring (heap_k s) (name_k u)) (\<lambda>name.
         rbind (kstring (heap_k s) (surname_k u)) (\<lambda>surname.
         rbind (kstring (heap_k s) (age_k u)) (\<lambda>age.
         rbind (kstring (heap_k s) (phone_k u)) (\<lambda>phone.
         rbind (kstring (heap_k s) (email_k u)) (\<lambda>email.
         set_message (found_text name surname age phone email) s))))))"

definition free_user :: "User_k \<Rightarrow> kheap \<Rightarrow> kheap res" where
  "free_user u h =
     rbind (kfree h (name_k u)) (\<lambda>h.
     rbind (kfree h (surname_k u)) (\<lambda>h.
     rbind (kfree h (age_k u)) (\<lambda>h.
     rbind (kfree h (phone_k u)) (\<lambda>h.
     kfree h (email_k u)))))"

definition delete_user_note_k :: "char list \<Rightarrow> kmod \<Rightarrow> kmod res" where
  "delete_user_note_k surname s =
     rbind (find_user (heap_k s) surname (users_k s)) (\<lambda>result.
     case result of
       None \<Rightarrow> set_message ''NOT FOUND\<newline>'' s
     | Some i \<Rightarrow>
         rbind (free_user (users_k s ! i) (heap_k s)) (\<lambda>h.
         set_message ''OK\<newline>''
           (s\<lparr>heap_k := h, users_k := (users_k s)[i := (users_k s ! i)\<lparr>status_k := CHR ''f''\<rparr>]\<rparr>)))"

end
