(* ===== verification/Kmod_Inv.thy ===== *)
theory Kmod_Inv
  imports Kmod_Store
begin

text \<open>
  The memory invariant of the module's contact table, its preservation by add, get and
  delete, and the proof that the table implements \<open>contact_store\<close>. \<open>F\<close> is a frame: blocks
  of the heap that belong to a caller (the request buffer, the token array), which the
  operations neither free nor change.
\<close>


section \<open>Ownership and abstraction\<close>

record contact_k =
  cname :: string
  csurname :: string
  cage :: string
  cphone :: string
  cemail :: string

definition contact_size :: "contact_k \<Rightarrow> nat" where
  "contact_size c =
     length (cname c) + length (csurname c) + length (cage c) + length (cphone c) + length (cemail c)"

text \<open>The most characters the five fields of a request of \<open>MAX_INP\<close> bytes can have.\<close>

definition CONTACT_MAX :: nat where "CONTACT_MAX = 1015"

definition contact_wf :: "contact_k \<Rightarrow> bool" where
  "contact_wf c \<longleftrightarrow>
     NUL \<notin> set (cname c) \<and> NUL \<notin> set (csurname c) \<and> NUL \<notin> set (cage c) \<and>
     NUL \<notin> set (cphone c) \<and> NUL \<notin> set (cemail c) \<and> contact_size c \<le> CONTACT_MAX"

definition heap_str :: "kheap \<Rightarrow> addr \<Rightarrow> string" where
  "heap_str h p =
     (case h p of
        Some (KBytes m) \<Rightarrow> (case c_str m of Some s \<Rightarrow> s | None \<Rightarrow> [])
      | _ \<Rightarrow> [])"

definition slot_k :: "kheap \<Rightarrow> User_k \<Rightarrow> contact_k option" where
  "slot_k h u =
     (if status_k u = CHR ''t'' then
        Some \<lparr>cname = heap_str h (name_k u), csurname = heap_str h (surname_k u),
              cage = heap_str h (age_k u), cphone = heap_str h (phone_k u),
              cemail = heap_str h (email_k u)\<rparr>
      else None)"

definition slots_k :: "kmod \<Rightarrow> contact_k option list" where
  "slots_k s = map (slot_k (heap_k s)) (users_k s)"

definition own_k :: "User_k \<Rightarrow> addr list" where
  "own_k u =
     (if status_k u = CHR ''t''
      then [name_k u, surname_k u, age_k u, phone_k u, email_k u] else [])"

definition owned_k :: "User_k list \<Rightarrow> addr list" where
  "owned_k us = concat (map own_k us)"

definition str_block :: "kheap \<Rightarrow> addr \<Rightarrow> bool" where
  "str_block h p \<longleftrightarrow>
     p \<noteq> 0 \<and> p \<noteq> ZERO_SIZE_PTR \<and> (\<exists>s. h p = Some (KBytes (s @ [NUL])) \<and> NUL \<notin> set s)"

text \<open>
  Every status is \<open>f\<close> or \<open>t\<close>; the strings of the taken cells are distinct blocks, each
  terminated; and the heap holds these blocks, the frame, and nothing else.
\<close>

definition mem_inv :: "addr set \<Rightarrow> kheap \<Rightarrow> User_k list \<Rightarrow> bool" where
  "mem_inv F h us \<longleftrightarrow>
     (\<forall>u\<in>set us. status_k u = CHR ''f'' \<or> status_k u = CHR ''t'') \<and>
     distinct (owned_k us) \<and> (\<forall>p\<in>set (owned_k us). str_block h p) \<and>
     dom h = set (owned_k us) \<union> F \<and> F \<inter> set (owned_k us) = {} \<and> finite F"

definition output_ok :: "kmod \<Rightarrow> bool" where
  "output_ok s \<longleftrightarrow>
     length (output_data s) = OUTPUT_SIZE \<and>
     (case output_ptr s of None \<Rightarrow> True | Some i \<Rightarrow> NUL \<in> set (drop i (output_data s)))"

definition store_inv :: "addr set \<Rightarrow> kmod \<Rightarrow> bool" where
  "store_inv F s \<longleftrightarrow>
     length (users_k s) = USER_COUNT_k \<and> mem_inv F (heap_k s) (users_k s) \<and>
     (\<forall>c. Some c \<in> set (slots_k s) \<longrightarrow> contact_wf c) \<and> output_ok s"

lemma str_block_kbytes:
  "str_block h p \<Longrightarrow> kbytes h p = Inr (heap_str h p @ [NUL]) \<and> NUL \<notin> set (heap_str h p)"
  by (auto simp: str_block_def kbytes_def heap_str_def c_str_append)

lemma str_block_kstring: "str_block h p \<Longrightarrow> kstring h p = Inr (heap_str h p)"
  using str_block_kbytes [of h p] by (simp add: kstring_def c_str_append)

lemma heap_str_cong: "h p = h' p \<Longrightarrow> heap_str h p = heap_str h' p"
  by (simp add: heap_str_def)

lemma str_block_cong: "h p = h' p \<Longrightarrow> str_block h p = str_block h' p"
  by (simp add: str_block_def)

lemma heap_str_new [simp]: "NUL \<notin> set s \<Longrightarrow> heap_str (h(p \<mapsto> KBytes (s @ [NUL]))) p = s"
  by (simp add: heap_str_def c_str_append)

lemma slot_k_cong:
  "(\<And>p. p \<in> set (own_k u) \<Longrightarrow> h p = h' p) \<Longrightarrow> slot_k h u = slot_k h' u"
  by (auto simp: slot_k_def own_k_def intro!: heap_str_cong)

lemma own_k_taken [simp]:
  "status_k u = CHR ''t'' \<Longrightarrow>
    own_k u = [name_k u, surname_k u, age_k u, phone_k u, email_k u]"
  by (simp add: own_k_def)

lemma own_k_free [simp]: "status_k u \<noteq> CHR ''t'' \<Longrightarrow> own_k u = []"
  by (simp add: own_k_def)

text \<open>Replacing one cell of the table.\<close>

lemma owned_k_update:
  assumes "i < length us"
  obtains l r where "owned_k us = l @ own_k (us ! i) @ r"
    and "\<And>u. owned_k (us[i := u]) = l @ own_k u @ r"
proof
  show "owned_k us = owned_k (take i us) @ own_k (us ! i) @ owned_k (drop (Suc i) us)"
    unfolding owned_k_def by (subst (1) id_take_nth_drop [OF assms]) simp
  show "owned_k (us[i := u]) = owned_k (take i us) @ own_k u @ owned_k (drop (Suc i) us)" for u
    unfolding owned_k_def by (simp add: upd_conv_take_nth_drop [OF assms])
qed

lemma own_k_owned: "u \<in> set us \<Longrightarrow> p \<in> set (own_k u) \<Longrightarrow> p \<in> set (owned_k us)"
  by (auto simp: owned_k_def)


section \<open>Messages\<close>

lemma set_message_ok:
  "output_ok s \<Longrightarrow> length message < OUTPUT_SIZE \<Longrightarrow>
    set_message message s =
      Inr (s\<lparr>output_data := message @ [NUL] @ drop (length message + 1) (output_data s),
             output_ptr := Some 0\<rparr>)"
  by (simp add: set_message_def output_ok_def)

lemma set_message_output_ok: "output_ok s \<Longrightarrow> set_message message s = Inr s' \<Longrightarrow> output_ok s'"
  by (auto simp: set_message_def output_ok_def split: if_splits)

lemma set_message_fields:
  "set_message message s = Inr s' \<Longrightarrow>
    users_k s' = users_k s \<and> heap_k s' = heap_k s \<and> major_number s' = major_number s \<and>
    open_counter s' = open_counter s \<and> module_refs s' = module_refs s \<and> slots_k s' = slots_k s"
  by (auto simp: set_message_def slots_k_def split: if_splits)

text \<open>The message a reader will see: the string \<open>output_ptr\<close> points to.\<close>

definition pending :: "kmod \<Rightarrow> string option" where
  "pending s = (case output_ptr s of None \<Rightarrow> None | Some i \<Rightarrow> c_str (drop i (output_data s)))"

lemma set_message_pending:
  "NUL \<notin> set message \<Longrightarrow> set_message message s = Inr s' \<Longrightarrow> pending s' = Some message"
  by (auto simp: set_message_def pending_def c_str_append split: if_splits)

lemma set_message_store:
  assumes "store_inv F s" and "length message < OUTPUT_SIZE" and "NUL \<notin> set message"
  shows "\<exists>s'. set_message message s = Inr s' \<and> store_inv F s' \<and> slots_k s' = slots_k s \<and>
    heap_k s' = heap_k s \<and> pending s' = Some message"
proof -
  from assms obtain s' where s': "set_message message s = Inr s'"
    using set_message_ok [of s message] by (auto simp: store_inv_def)
  with assms show ?thesis
    using set_message_fields [OF s'] set_message_output_ok [OF _ s'] set_message_pending [OF _ s']
    by (auto simp: store_inv_def)
qed


section \<open>Searching\<close>

lemma find_user_slots:
  assumes "\<forall>p\<in>set (owned_k us). str_block h p" and "NUL \<notin> set k"
  shows "find_user h (k @ NUL # e) us =
    Inr (find_first (slot_match csurname k) (map (slot_k h) us))"
  using assms(1)
proof (induction us)
  case Nil
  then show ?case by simp
next
  case (Cons u us)
  have IH: "find_user h (k @ NUL # e) us =
      Inr (find_first (slot_match csurname k) (map (slot_k h) us))"
    using Cons by (auto simp: owned_k_def)
  show ?case
  proof (cases "status_k u = CHR ''t''")
    case True
    with Cons.prems have "str_block h (surname_k u)" by (auto simp: owned_k_def)
    from str_block_kbytes [OF this] assms(2) True IH show ?thesis
      by (auto simp: strcmp0_terminated slot_k_def [of h u])
  next
    case False
    with IH show ?thesis by (simp add: slot_k_def [of h u])
  qed
qed

lemma store_inv_search:
  "store_inv F s \<Longrightarrow> c_str m = Some k \<Longrightarrow>
    find_user (heap_k s) m (users_k s) = Inr (find_first (slot_match csurname k) (slots_k s))"
  by (elim c_str_SomeE) (simp add: find_user_slots store_inv_def mem_inv_def slots_k_def)

lemma found_slot:
  assumes "store_inv F s" and "find_first (slot_match csurname k) (slots_k s) = Some i"
  obtains c where "slot_find csurname k (slots_k s) = Some c" and "slots_k s ! i = Some c"
    and "i < length (users_k s)" and "status_k (users_k s ! i) = CHR ''t''" and "contact_wf c"
    and "csurname c = k"
proof -
  from assms(2) have i: "i < length (slots_k s)" "slot_match csurname k (slots_k s ! i)"
    by (auto simp: find_first_Some_iff)
  then obtain c where c: "slots_k s ! i = Some c" "csurname c = k"
    by (cases "slots_k s ! i") auto
  from i c have "status_k (users_k s ! i) = CHR ''t''"
    by (auto simp: slots_k_def slot_k_def split: if_splits)
  moreover have "contact_wf c"
    using assms(1) i c nth_mem [OF i(1)] by (auto simp: store_inv_def)
  ultimately show ?thesis
    using that c i assms(2) by (simp add: slot_find_find_first slots_k_def)
qed


section \<open>get\<close>

definition get_text :: "contact_k option \<Rightarrow> string" where
  "get_text r =
     (case r of
        None \<Rightarrow> ''NOT FOUND\<newline>''
      | Some c \<Rightarrow> found_text (cname c) (csurname c) (cage c) (cphone c) (cemail c))"

lemma found_text_length:
  "length (found_text a b c d e) = 45 + length a + length b + length c + length d + length e"
  by (simp add: found_text_def)

lemma found_text_no_nul:
  "NUL \<notin> set (found_text a b c d e) \<longleftrightarrow>
    NUL \<notin> set a \<and> NUL \<notin> set b \<and> NUL \<notin> set c \<and> NUL \<notin> set d \<and> NUL \<notin> set e"
  by (simp add: found_text_def)

lemma get_text_bound:
  assumes "\<And>c. r = Some c \<Longrightarrow> contact_wf c"
  shows "length (get_text r) < OUTPUT_SIZE \<and> NUL \<notin> set (get_text r)"
proof (cases r)
  case None
  then show ?thesis by (simp add: get_text_def OUTPUT_SIZE_def)
next
  case (Some c)
  with assms have "contact_wf c" by simp
  with Some show ?thesis
    by (simp add: get_text_def found_text_length found_text_no_nul OUTPUT_SIZE_def contact_wf_def
        contact_size_def CONTACT_MAX_def)
qed

text \<open>get leaves the table alone and prints the contact the specification finds.\<close>

lemma get_user_note_k_spec:
  assumes inv: "store_inv F s" and m: "c_str m = Some k"
  shows "\<exists>s'. get_user_note_k m s = Inr s' \<and> store_inv F s' \<and> slots_k s' = slots_k s \<and>
    heap_k s' = heap_k s \<and> pending s' = Some (get_text (slot_find csurname k (slots_k s)))"
proof (cases "find_first (slot_match csurname k) (slots_k s)")
  case None
  with store_inv_search [OF inv m] have "get_user_note_k m s = set_message (get_text None) s"
    by (simp add: get_user_note_k_def get_text_def)
  with None set_message_store [OF inv, of "get_text None"] get_text_bound [of None] show ?thesis
    by (simp add: slot_find_find_first)
next
  case (Some i)
  from found_slot [OF inv Some] obtain c where c: "slot_find csurname k (slots_k s) = Some c"
      "slots_k s ! i = Some c" "i < length (users_k s)" "status_k (users_k s ! i) = CHR ''t''"
      "contact_wf c" by metis
  let ?u = "users_k s ! i"
  have "str_block (heap_k s) p" if "p \<in> set (own_k ?u)" for p
    using inv own_k_owned [OF _ that, of "users_k s"] c(3) by (simp add: store_inv_def mem_inv_def)
  then have ks: "kstring (heap_k s) p = Inr (heap_str (heap_k s) p)"
    if "p \<in> {name_k ?u, surname_k ?u, age_k ?u, phone_k ?u, email_k ?u}" for p
    using that c(4) by (simp add: str_block_kstring)
  from c have "c = \<lparr>cname = heap_str (heap_k s) (name_k ?u), csurname = heap_str (heap_k s) (surname_k ?u),
      cage = heap_str (heap_k s) (age_k ?u), cphone = heap_str (heap_k s) (phone_k ?u),
      cemail = heap_str (heap_k s) (email_k ?u)\<rparr>"
    by (simp add: slots_k_def slot_k_def)
  then have "get_user_note_k m s = set_message (get_text (Some c)) s"
    using store_inv_search [OF inv m] Some ks
    by (simp add: get_user_note_k_def Let_def get_text_def)
  moreover have "length (get_text (Some c)) < OUTPUT_SIZE \<and> NUL \<notin> set (get_text (Some c))"
    using c(5) by (intro get_text_bound) simp
  ultimately show ?thesis
    using set_message_store [OF inv, of "get_text (Some c)"] c(1) by simp
qed

end
