(* ===== verification/Kmod_Contract.thy ===== *)
theory Kmod_Contract
  imports Kmod_Inv
begin

text \<open>
  add and delete keep the memory invariant and act on the cells as specified; together
  with get this makes the kernel module's table an instance of \<open>contact_store\<close>.
\<close>


section \<open>add\<close>

lemma copy_string_fresh:
  assumes "alloc_fresh A" and "alloc_total A" and "finite (dom h)" and "c_str m = Some s"
  obtains p where "copy_string A m h = Inr (p, h(p \<mapsto> KBytes (s @ [NUL])))"
    and "h p = None" and "p \<noteq> 0" and "p \<noteq> ZERO_SIZE_PTR"
proof -
  obtain p where "A h (length s + 1) = Some p"
    using assms(2,3) by (rule alloc_totalE)
  with assms that show ?thesis
    using alloc_freshD [OF assms(1,3)] copy_string_ok by metis
qed

text \<open>Storing five new blocks in a free cell.\<close>

lemma mem_inv_add:
  assumes inv: "mem_inv F h us" and i: "i < length us" "status_k (us ! i) \<noteq> CHR ''t''"
    and ps: "own_k u = ps" "status_k u = CHR ''t''" "distinct ps"
    and new: "\<forall>p\<in>set ps. h p = None \<and> str_block h' p"
    and old: "\<forall>p. p \<notin> set ps \<longrightarrow> h' p = h p"
  shows "mem_inv F h' (us[i := u])"
    and "map (slot_k h') (us[i := u]) = (map (slot_k h) us)[i := slot_k h' u]"
    and "\<forall>p\<in>F. h' p = h p"
proof -
  obtain l r where lr: "owned_k us = l @ own_k (us ! i) @ r"
      "\<And>u. owned_k (us[i := u]) = l @ own_k u @ r"
    using owned_k_update [OF i(1)] by metis
  have us: "owned_k us = l @ r" and us': "owned_k (us[i := u]) = l @ ps @ r"
    using lr i ps by simp_all
  have disj: "set ps \<inter> dom h = {}" using new by auto
  have keep: "h' p = h p" if "p \<in> set (owned_k us) \<union> F" for p
    using that inv disj old by (auto simp: mem_inv_def)
  have dom': "dom h' = dom h \<union> set ps"
  proof (intro set_eqI iffI)
    fix p assume "p \<in> dom h'"
    then show "p \<in> dom h \<union> set ps" using old by (cases "p \<in> set ps") auto
  next
    fix p assume "p \<in> dom h \<union> set ps"
    then show "p \<in> dom h'"
      using new old by (cases "p \<in> set ps") (auto simp: str_block_def)
  qed
  have "\<forall>p\<in>set (owned_k us). str_block h' p"
    using inv keep str_block_cong [of h' _ h] by (auto simp: mem_inv_def)
  moreover have "distinct (l @ ps @ r)"
    using inv us disj ps(3) by (auto simp: mem_inv_def)
  moreover have "F \<inter> set ps = {}"
    using inv disj by (auto simp: mem_inv_def)
  moreover have "\<forall>v\<in>set (us[i := u]). status_k v = CHR ''f'' \<or> status_k v = CHR ''t''"
    using inv ps(2) set_update_subset_insert [of us i u] by (auto simp: mem_inv_def)
  ultimately show "mem_inv F h' (us[i := u])"
    using inv us us' dom' new by (auto simp: mem_inv_def)
  have "slot_k h' v = slot_k h v" if "v \<in> set us" for v
    using keep own_k_owned [OF that] by (intro slot_k_cong) auto
  then show "map (slot_k h') (us[i := u]) = (map (slot_k h) us)[i := slot_k h' u]"
    by (simp add: map_update cong: map_cong)
  show "\<forall>p\<in>F. h' p = h p" using keep by blast
qed

lemma find_free_slot:
  assumes "mem_inv F h us"
  shows "find_first (\<lambda>u. status_k u = CHR ''f'') us =
    find_first (\<lambda>x. x = None) (map (slot_k h) us)"
proof -
  have "status_k u = CHR ''f'' \<longleftrightarrow> slot_k h u = None" if "u \<in> set us" for u
    using assms that by (auto simp: mem_inv_def slot_k_def)
  then show ?thesis by (simp add: find_first_map cong: find_first_cong)
qed

definition add_text :: "bool \<Rightarrow> string" where
  "add_text ok = (if ok then ''OK\<newline>'' else ''INTERNAL ERROR\<newline>No free cells to store data\<newline>'')"

text \<open>The five copies of add, on a heap with finitely many blocks.\<close>

lemma five_copies:
  assumes A: "alloc_fresh A" "alloc_total A" and fin: "finite (dom h)"
    and c: "c_str m1 = Some s1" "c_str m2 = Some s2" "c_str m3 = Some s3" "c_str m4 = Some s4"
      "c_str m5 = Some s5"
  obtains p1 p2 p3 p4 p5 h1 h2 h3 h4 h5 where
    "copy_string A m1 h = Inr (p1, h1)" "copy_string A m2 h1 = Inr (p2, h2)"
    "copy_string A m3 h2 = Inr (p3, h3)" "copy_string A m4 h3 = Inr (p4, h4)"
    "copy_string A m5 h4 = Inr (p5, h5)" "distinct [p1, p2, p3, p4, p5]"
    "\<forall>p\<in>set [p1, p2, p3, p4, p5]. h p = None \<and> p \<noteq> 0 \<and> p \<noteq> ZERO_SIZE_PTR"
    "h5 = h(p1 \<mapsto> KBytes (s1 @ [NUL]), p2 \<mapsto> KBytes (s2 @ [NUL]), p3 \<mapsto> KBytes (s3 @ [NUL]),
        p4 \<mapsto> KBytes (s4 @ [NUL]), p5 \<mapsto> KBytes (s5 @ [NUL]))"
proof -
  obtain p1 where 1: "copy_string A m1 h = Inr (p1, h(p1 \<mapsto> KBytes (s1 @ [NUL])))"
      "h p1 = None" "p1 \<noteq> 0" "p1 \<noteq> ZERO_SIZE_PTR"
    by (rule copy_string_fresh [OF A fin c(1)])
  let ?h1 = "h(p1 \<mapsto> KBytes (s1 @ [NUL]))"
  have "finite (dom ?h1)" using fin by simp
  then obtain p2 where 2: "copy_string A m2 ?h1 = Inr (p2, ?h1(p2 \<mapsto> KBytes (s2 @ [NUL])))"
      "?h1 p2 = None" "p2 \<noteq> 0" "p2 \<noteq> ZERO_SIZE_PTR"
    by (rule copy_string_fresh [OF A _ c(2)])
  let ?h2 = "?h1(p2 \<mapsto> KBytes (s2 @ [NUL]))"
  have "finite (dom ?h2)" using fin by simp
  then obtain p3 where 3: "copy_string A m3 ?h2 = Inr (p3, ?h2(p3 \<mapsto> KBytes (s3 @ [NUL])))"
      "?h2 p3 = None" "p3 \<noteq> 0" "p3 \<noteq> ZERO_SIZE_PTR"
    by (rule copy_string_fresh [OF A _ c(3)])
  let ?h3 = "?h2(p3 \<mapsto> KBytes (s3 @ [NUL]))"
  have "finite (dom ?h3)" using fin by simp
  then obtain p4 where 4: "copy_string A m4 ?h3 = Inr (p4, ?h3(p4 \<mapsto> KBytes (s4 @ [NUL])))"
      "?h3 p4 = None" "p4 \<noteq> 0" "p4 \<noteq> ZERO_SIZE_PTR"
    by (rule copy_string_fresh [OF A _ c(4)])
  let ?h4 = "?h3(p4 \<mapsto> KBytes (s4 @ [NUL]))"
  have "finite (dom ?h4)" using fin by simp
  then obtain p5 where 5: "copy_string A m5 ?h4 = Inr (p5, ?h4(p5 \<mapsto> KBytes (s5 @ [NUL])))"
      "?h4 p5 = None" "p5 \<noteq> 0" "p5 \<noteq> ZERO_SIZE_PTR"
    by (rule copy_string_fresh [OF A _ c(5)])
  show ?thesis
  proof (rule that [OF 1(1) 2(1) 3(1) 4(1) 5(1)])
    have n2: "p2 \<noteq> p1 \<and> h p2 = None" using 2(2) by (simp split: if_splits)
    have n3: "p3 \<noteq> p1 \<and> p3 \<noteq> p2 \<and> h p3 = None" using 3(2) by (simp split: if_splits)
    have n4: "p4 \<noteq> p1 \<and> p4 \<noteq> p2 \<and> p4 \<noteq> p3 \<and> h p4 = None" using 4(2) by (simp split: if_splits)
    have n5: "p5 \<noteq> p1 \<and> p5 \<noteq> p2 \<and> p5 \<noteq> p3 \<and> p5 \<noteq> p4 \<and> h p5 = None"
      using 5(2) by (simp split: if_splits)
    show "distinct [p1, p2, p3, p4, p5]"
      using n2 n3 n4 n5 by (metis distinct_length_2_or_more distinct_singleton)
    show "\<forall>p\<in>set [p1, p2, p3, p4, p5]. h p = None \<and> p \<noteq> 0 \<and> p \<noteq> ZERO_SIZE_PTR"
      using 1 2 3 4 5 n2 n3 n4 n5 by simp
  qed simp
qed

lemma add_user_note_k_spec:
  assumes A: "alloc_fresh A" "alloc_total A" and inv: "store_inv F s" and wf: "contact_wf c"
    and args: "c_str m1 = Some (cname c)" "c_str m2 = Some (csurname c)" "c_str m3 = Some (cage c)"
      "c_str m4 = Some (cphone c)" "c_str m5 = Some (cemail c)"
  shows "\<exists>s'. add_user_note_k A m1 m2 m3 m4 m5 s = Inr s' \<and> store_inv F s' \<and>
    slots_k s' = slot_add c (slots_k s) \<and> (\<forall>p\<in>F. heap_k s' p = heap_k s p) \<and>
    pending s' = Some (add_text (None \<in> set (slots_k s)))"
proof (cases "find_first (\<lambda>x. x = None) (slots_k s)")
  case None
  then have full: "None \<notin> set (slots_k s)" by (auto simp: find_first_None_iff)
  from None inv have "find_first (\<lambda>u. status_k u = CHR ''f'') (users_k s) = None"
    using find_free_slot [of F "heap_k s" "users_k s"] by (simp add: store_inv_def slots_k_def)
  then have "add_user_note_k A m1 m2 m3 m4 m5 s = set_message (add_text False) s"
    by (simp add: add_user_note_k_def add_text_def)
  with full set_message_store [OF inv, of "add_text False"] show ?thesis
    by (auto simp: add_text_def OUTPUT_SIZE_def slot_add_full)
next
  case (Some i)
  let ?h = "heap_k s" and ?us = "users_k s"
  have mem: "mem_inv F ?h ?us" and len: "length ?us = USER_COUNT_k"
    using inv by (auto simp: store_inv_def)
  from Some have i: "i < length ?us" and none: "slots_k s ! i = None"
    by (auto simp: find_first_Some_iff slots_k_def)
  have free: "None \<in> set (slots_k s)"
    using i none nth_mem [of i "slots_k s"] by (simp add: slots_k_def)
  have st: "status_k (?us ! i) \<noteq> CHR ''t''"
    using i none by (auto simp: slots_k_def slot_k_def)
  have found: "find_first (\<lambda>u. status_k u = CHR ''f'') ?us = Some i"
    using Some find_free_slot [OF mem] by (simp add: slots_k_def)
  have "finite (dom ?h)" using mem by (simp add: mem_inv_def)
  then obtain p1 p2 p3 p4 p5 h1 h2 h3 h4 h5 where cp:
      "copy_string A m1 ?h = Inr (p1, h1)" "copy_string A m2 h1 = Inr (p2, h2)"
      "copy_string A m3 h2 = Inr (p3, h3)" "copy_string A m4 h3 = Inr (p4, h4)"
      "copy_string A m5 h4 = Inr (p5, h5)" and ps: "distinct [p1, p2, p3, p4, p5]"
      "\<forall>p\<in>set [p1, p2, p3, p4, p5]. ?h p = None \<and> p \<noteq> 0 \<and> p \<noteq> ZERO_SIZE_PTR"
      and h5: "h5 = ?h(p1 \<mapsto> KBytes (cname c @ [NUL]), p2 \<mapsto> KBytes (csurname c @ [NUL]),
        p3 \<mapsto> KBytes (cage c @ [NUL]), p4 \<mapsto> KBytes (cphone c @ [NUL]), p5 \<mapsto> KBytes (cemail c @ [NUL]))"
    by (rule five_copies [OF A _ args])
  let ?u = "(?us ! i)\<lparr>name_k := p1, surname_k := p2, age_k := p3, phone_k := p4, email_k := p5,
      status_k := CHR ''t''\<rparr>"
  let ?s = "s\<lparr>heap_k := h5, users_k := ?us[i := ?u]\<rparr>"
  have run: "add_user_note_k A m1 m2 m3 m4 m5 s = set_message (add_text True) ?s"
    using found cp by (simp add: add_user_note_k_def add_text_def)
  have su: "slot_k h5 ?u = Some c"
    using ps wf h5 by (simp add: slot_k_def heap_str_def c_str_append contact_wf_def)
  have new: "\<forall>p\<in>set [p1, p2, p3, p4, p5]. ?h p = None \<and> str_block h5 p"
    using ps wf h5 by (auto simp: str_block_def contact_wf_def)
  have old: "\<forall>p. p \<notin> set [p1, p2, p3, p4, p5] \<longrightarrow> h5 p = ?h p" using h5 by auto
  note add = mem_inv_add [OF mem i st _ _ ps(1) new old, of ?u]
  have slots: "slots_k ?s = slot_add c (slots_k s)"
    using add(2) su Some by (simp add: slots_k_def slot_add_find_first)
  have "contact_wf d" if "Some d \<in> set (slots_k ?s)" for d
    using that inv wf set_update_subset_insert [of "slots_k s" i "Some c"] Some
    by (auto simp: slots slot_add_find_first store_inv_def)
  then have inv': "store_inv F ?s"
    using add(1) inv len by (auto simp: store_inv_def output_ok_def split: option.split)
  from run slots free add(3) set_message_store [OF inv', of "add_text True"] show ?thesis
    by (auto simp: add_text_def OUTPUT_SIZE_def)
qed


section \<open>delete\<close>

text \<open>Freeing a list of distinct blocks frees exactly them.\<close>

primrec kfree_list :: "kheap \<Rightarrow> addr list \<Rightarrow> kheap res" where
  "kfree_list h [] = Inr h"
| "kfree_list h (p # ps) = rbind (kfree h p) (\<lambda>h. kfree_list h ps)"

lemma kfree_list_blocks:
  "distinct ps \<Longrightarrow> \<forall>p\<in>set ps. str_block h p \<Longrightarrow>
    kfree_list h ps = Inr (\<lambda>p. if p \<in> set ps then None else h p)"
proof (induction ps arbitrary: h)
  case Nil
  then show ?case by simp
next
  case (Cons p ps)
  let ?h = "h(p := None)"
  have "kfree h p = Inr ?h"
    using Cons.prems by (auto simp: str_block_def kfree_def)
  moreover have blocks: "\<forall>q\<in>set ps. str_block ?h q"
    using Cons.prems by (auto simp: str_block_def)
  have "distinct ps" using Cons.prems by simp
  then have "kfree_list ?h ps = Inr (\<lambda>q. if q \<in> set ps then None else ?h q)"
    using blocks by (rule Cons.IH)
  ultimately show ?case by (auto simp: fun_eq_iff)
qed

lemma rbind_Inr_right [simp]: "rbind m Inr = m"
  by (cases m) auto

lemma free_user_list: "status_k u = CHR ''t'' \<Longrightarrow> free_user u h = kfree_list h (own_k u)"
  by (simp add: free_user_def)

lemma free_user_blocks:
  "status_k u = CHR ''t'' \<Longrightarrow> distinct (own_k u) \<Longrightarrow> \<forall>p\<in>set (own_k u). str_block h p \<Longrightarrow>
    free_user u h = Inr (\<lambda>p. if p \<in> set (own_k u) then None else h p)"
  by (simp add: free_user_list kfree_list_blocks del: own_k_taken)

lemma mem_inv_delete:
  assumes inv: "mem_inv F h us" and i: "i < length us" "status_k (us ! i) = CHR ''t''"
  shows "\<exists>h'. free_user (us ! i) h = Inr h' \<and>
    mem_inv F h' (us[i := (us ! i)\<lparr>status_k := CHR ''f''\<rparr>]) \<and>
    map (slot_k h') (us[i := (us ! i)\<lparr>status_k := CHR ''f''\<rparr>]) = (map (slot_k h) us)[i := None] \<and>
    (\<forall>p\<in>F. h' p = h p)"
proof -
  let ?u = "us ! i" and ?v = "(us ! i)\<lparr>status_k := CHR ''f''\<rparr>"
  define ps where "ps = own_k ?u"
  obtain l r where lr: "owned_k us = l @ own_k ?u @ r" "\<And>u. owned_k (us[i := u]) = l @ own_k u @ r"
    using owned_k_update [OF i(1)] by metis
  have us: "owned_k us = l @ ps @ r" and us': "owned_k (us[i := ?v]) = l @ r"
    using lr by (simp_all add: ps_def)
  have blk: "str_block h p" if "p \<in> set ps" for p
    using that inv us by (simp add: mem_inv_def)
  define h' where "h' = (\<lambda>p. if p \<in> set ps then None else h p)"
  have dist: "distinct ps" using inv us by (simp add: mem_inv_def)
  have "free_user ?u h = Inr h'"
    using free_user_blocks [OF i(2)] blk dist by (simp add: ps_def h'_def)
  moreover have keep: "h' p = h p" if "p \<in> set (l @ r) \<union> F" for p
    using that inv us by (auto simp: h'_def mem_inv_def)
  moreover have "mem_inv F h' (us[i := ?v])"
  proof -
    have "dom h' = dom h - set ps" by (auto simp: h'_def split: if_splits)
    then have "dom h' = set (l @ r) \<union> F" using inv us by (auto simp: mem_inv_def)
    moreover have "\<forall>p\<in>set (l @ r). str_block h' p"
      using keep inv us str_block_cong [of h' _ h] by (auto simp: mem_inv_def)
    moreover have "\<forall>v\<in>set (us[i := ?v]). status_k v = CHR ''f'' \<or> status_k v = CHR ''t''"
      using inv set_update_subset_insert [of us i ?v] by (auto simp: mem_inv_def)
    ultimately show ?thesis using inv us us' by (auto simp: mem_inv_def)
  qed
  moreover have "map (slot_k h') (us[i := ?v]) = (map (slot_k h) us)[i := None]"
  proof (rule nth_equalityI)
    fix j assume j: "j < length (map (slot_k h') (us[i := ?v]))"
    show "map (slot_k h') (us[i := ?v]) ! j = (map (slot_k h) us)[i := None] ! j"
    proof (cases "j = i")
      case True
      then show ?thesis using i by (simp add: slot_k_def)
    next
      case False
      have "set (own_k (us ! j)) \<subseteq> set (owned_k (us[i := ?v]))"
        using own_k_owned [of "us ! j" "us[i := ?v]"] j False
        by (metis nth_list_update_neq nth_mem length_map length_list_update subsetI)
      then have "slot_k h' (us ! j) = slot_k h (us ! j)"
        using keep us' by (intro slot_k_cong) auto
      with False j i show ?thesis by simp
    qed
  qed simp
  ultimately show ?thesis by blast
qed

definition delete_text :: "bool \<Rightarrow> string" where
  "delete_text ok = (if ok then ''OK\<newline>'' else ''NOT FOUND\<newline>'')"

lemma delete_user_note_k_spec:
  assumes inv: "store_inv F s" and m: "c_str m = Some k"
  shows "\<exists>s'. delete_user_note_k m s = Inr s' \<and> store_inv F s' \<and>
    slots_k s' = slot_del csurname k (slots_k s) \<and> (\<forall>p\<in>F. heap_k s' p = heap_k s p) \<and>
    pending s' = Some (delete_text (slot_find csurname k (slots_k s) \<noteq> None))"
proof (cases "find_first (slot_match csurname k) (slots_k s)")
  case None
  with store_inv_search [OF inv m] have "delete_user_note_k m s = set_message (delete_text False) s"
    by (simp add: delete_user_note_k_def delete_text_def)
  with None set_message_store [OF inv, of "delete_text False"] show ?thesis
    by (auto simp: slot_find_find_first slot_del_find_first delete_text_def OUTPUT_SIZE_def)
next
  case (Some i)
  let ?h = "heap_k s" and ?us = "users_k s"
  from found_slot [OF inv Some] obtain c where c: "slot_find csurname k (slots_k s) = Some c"
      "i < length ?us" "status_k (?us ! i) = CHR ''t''" by metis
  have mem: "mem_inv F ?h ?us" and len: "length ?us = USER_COUNT_k"
    using inv by (auto simp: store_inv_def)
  let ?v = "(?us ! i)\<lparr>status_k := CHR ''f''\<rparr>"
  from mem_inv_delete [OF mem c(2,3)] obtain h' where h': "free_user (?us ! i) ?h = Inr h'"
      "mem_inv F h' (?us[i := ?v])" "map (slot_k h') (?us[i := ?v]) = (map (slot_k ?h) ?us)[i := None]"
      "\<forall>p\<in>F. h' p = ?h p" by blast
  let ?s = "s\<lparr>heap_k := h', users_k := ?us[i := ?v]\<rparr>"
  have run: "delete_user_note_k m s = set_message (delete_text True) ?s"
    using store_inv_search [OF inv m] Some h'(1) by (simp add: delete_user_note_k_def delete_text_def)
  have slots: "slots_k ?s = slot_del csurname k (slots_k s)"
    using h'(3) Some by (simp add: slots_k_def slot_del_find_first)
  have "contact_wf d" if "Some d \<in> set (slots_k ?s)" for d
    using that inv set_update_subset_insert [of "slots_k s" i None] Some
    by (auto simp: slots slot_del_find_first store_inv_def)
  then have inv': "store_inv F ?s"
    using h'(2) inv len by (auto simp: store_inv_def output_ok_def split: option.split)
  with run slots c(1) h'(4) set_message_store [OF inv', of "delete_text True"] show ?thesis
    by (auto simp: delete_text_def OUTPUT_SIZE_def)
qed


section \<open>The table implements the contract\<close>

definition kadd :: "allocator \<Rightarrow> contact_k \<Rightarrow> kmod \<Rightarrow> (bool \<times> kmod) res" where
  "kadd A c s =
     rbind (add_user_note_k A (cname c @ [NUL]) (csurname c @ [NUL]) (cage c @ [NUL])
        (cphone c @ [NUL]) (cemail c @ [NUL]) s)
       (\<lambda>s'. Inr (pending s' = Some ''OK\<newline>'', s'))"

definition klook :: "string \<Rightarrow> kmod \<Rightarrow> string res" where
  "klook k s = rbind (get_user_note_k (k @ [NUL]) s) (\<lambda>s'. need OutOfBounds (pending s'))"

definition kdel :: "string \<Rightarrow> kmod \<Rightarrow> (bool \<times> kmod) res" where
  "kdel k s = rbind (delete_user_note_k (k @ [NUL]) s) (\<lambda>s'. Inr (pending s' = Some ''OK\<newline>'', s'))"

lemma c_str_literal: "NUL \<notin> set s \<Longrightarrow> c_str (s @ [NUL]) = Some s"
  by (simp add: c_str_append)

lemma get_text_absent: "get_text r = get_text None \<longleftrightarrow> r = None"
  by (cases r) (auto simp: get_text_def found_text_def)

interpretation kst: contact_store
  "\<lambda>s. alloc_fresh A \<and> alloc_total A \<and> store_inv {} s" contact_wf "\<lambda>k. NUL \<notin> set k" slots_k csurname
  "kadd A" get_text klook kdel for A
proof (unfold_locales, goal_cases)
  case (1 s c)
  then obtain s' where "add_user_note_k A (cname c @ [NUL]) (csurname c @ [NUL]) (cage c @ [NUL])
        (cphone c @ [NUL]) (cemail c @ [NUL]) s = Inr s'" "store_inv {} s'"
      "slots_k s' = slot_add c (slots_k s)" "pending s' = Some (add_text (None \<in> set (slots_k s)))"
    using add_user_note_k_spec [of A "{}" s c "cname c @ [NUL]" "csurname c @ [NUL]" "cage c @ [NUL]"
        "cphone c @ [NUL]" "cemail c @ [NUL]"] by (auto simp: c_str_literal contact_wf_def)
  with 1 show ?case by (simp add: kadd_def add_text_def)
next
  case (2 s k)
  then obtain s' where "get_user_note_k (k @ [NUL]) s = Inr s'"
      "pending s' = Some (get_text (slot_find csurname k (slots_k s)))"
    using get_user_note_k_spec [of "{}" s "k @ [NUL]" k] by (auto simp: c_str_literal)
  then show ?case by (simp add: klook_def)
next
  case (3 r)
  show ?case by (rule get_text_absent)
next
  case (4 s k)
  then obtain s' where "delete_user_note_k (k @ [NUL]) s = Inr s'" "store_inv {} s'"
      "slots_k s' = slot_del csurname k (slots_k s)"
      "pending s' = Some (delete_text (slot_find csurname k (slots_k s) \<noteq> None))"
    using delete_user_note_k_spec [of "{}" s "k @ [NUL]" k] by (auto simp: c_str_literal)
  with 4 show ?case by (simp add: kdel_def delete_text_def)
next
  case (5 c)
  then show ?case by (simp add: contact_wf_def)
qed

end
