(* ===== verification/Kmod_Device.thy ===== *)
theory Kmod_Device
  imports Kmod_Contract
begin

text \<open>
  The character device of the kernel module (01-kernel_module/storage.c): load and unload,
  open and release, the chunked read of the answer, and the write that parses and executes
  a request. \<open>get_user\<close>, \<open>kmalloc\<close>, \<open>register_chrdev\<close> and \<open>try_module_get\<close> are kernel
  services: the character fetched from user address \<open>buffer + i\<close> is \<open>ubuf i\<close>, the allocator
  is \<open>A\<close>, the other two are the values they return.
\<close>


section \<open>Operations\<close>

definition EBUSY :: int where "EBUSY = 16"
definition EINVAL :: int where "EINVAL = 22"

definition storage_init :: "int \<Rightarrow> kmod \<Rightarrow> int \<times> kmod" where
  "storage_init reg s =
     (let s = s\<lparr>major_number := reg\<rparr> in
      if major_number s < 0 then (major_number s, s)
      else (0, s\<lparr>users_k := map (\<lambda>u. u\<lparr>status_k := CHR ''f''\<rparr>) (users_k s)\<rparr>))"

text \<open>The loop of \<open>storage_exit\<close>: the strings of every taken cell are freed.\<close>

fun exit_loop :: "User_k list \<Rightarrow> kheap \<Rightarrow> (User_k list \<times> kheap) res" where
  "exit_loop [] h = Inr ([], h)"
| "exit_loop (u # us) h =
     (if status_k u = CHR ''t'' then
        rbind (free_user u h) (\<lambda>h.
        rbind (exit_loop us h) (\<lambda>(us, h). Inr (u\<lparr>status_k := CHR ''f''\<rparr> # us, h)))
      else rbind (exit_loop us h) (\<lambda>(us, h). Inr (u # us, h)))"

definition storage_exit :: "kmod \<Rightarrow> kmod res" where
  "storage_exit s =
     rbind (exit_loop (users_k s) (heap_k s)) (\<lambda>(us, h). Inr (s\<lparr>users_k := us, heap_k := h\<rparr>))"

definition device_open :: "bool \<Rightarrow> kmod \<Rightarrow> int \<times> kmod" where
  "device_open got s =
     (if open_counter s > 0 then (- EBUSY, s)
      else (0, s\<lparr>module_refs := module_refs s + (if got then 1 else 0),
                 open_counter := open_counter s + 1\<rparr>))"

definition device_release :: "kmod \<Rightarrow> int \<times> kmod" where
  "device_release s =
     (0, s\<lparr>module_refs := module_refs s - 1, open_counter := open_counter s - 1\<rparr>)"

text \<open>
  The loop of \<open>device_read\<close>: \<open>put\<close> collects the characters given to \<open>put_user\<close>, in order.
\<close>

function read_loop :: "char list \<Rightarrow> nat \<Rightarrow> nat \<Rightarrow> string \<Rightarrow> (string \<times> nat) res" where
  "read_loop data ptr len put =
     (if len > 0 then
        if ptr < length data then
          if data ! ptr \<noteq> NUL then read_loop data (Suc ptr) (len - 1) (put @ [data ! ptr])
          else Inr (put, ptr)
        else Inl OutOfBounds
      else Inr (put, ptr))"
  by pat_completeness auto
termination
  by (relation "measure (\<lambda>(data, ptr, len, put). len)") auto

declare read_loop.simps [simp del]

definition device_read :: "nat \<Rightarrow> kmod \<Rightarrow> (int \<times> string \<times> kmod) res" where
  "device_read len s =
     (case output_ptr s of
        None \<Rightarrow> Inl NullDeref
      | Some ptr \<Rightarrow>
          if ptr < length (output_data s) then
            if output_data s ! ptr = NUL then Inr (0, [], s)
            else rbind (read_loop (output_data s) ptr len []) (\<lambda>(put, ptr).
              Inr (int (length put), put, s\<lparr>output_ptr := Some ptr\<rparr>))
          else Inl OutOfBounds)"

text \<open>
  The loop that logs every token reads each as a string; the result is the memory behind
  each token pointer.
\<close>

fun log_tokens :: "char list \<Rightarrow> nat option list \<Rightarrow> char list list res" where
  "log_tokens data [] = Inr []"
| "log_tokens data (None # cells) = Inl Uninit"
| "log_tokens data (Some off # cells) =
     rbind (need OutOfBounds (c_str (drop off data))) (\<lambda>_.
     rbind (log_tokens data cells) (\<lambda>toks. Inr (drop off data # toks)))"

definition token_array :: "kheap \<Rightarrow> addr \<Rightarrow> nat option list res" where
  "token_array h t = (case h t of Some (KPtrs cells) \<Rightarrow> Inr cells | _ \<Rightarrow> Inl OutOfBounds)"

definition bad_get :: string where
  "bad_get = ''BAD REQUEST\<newline>format: get <username>\<newline>''"
definition bad_add :: string where
  "bad_add = ''BAD REQUEST\<newline>format: add <name> <surname> <age> <phone> <email>\<newline>''"
definition bad_delete :: string where
  "bad_delete = ''BAD REQUEST\<newline>format: delete <surname>\<newline>''"
definition bad_command :: string where
  "bad_command = ''BAD REQUEST\<newline>Use one of the following commands: [add, get, delete]\<newline>''"

text \<open>The chain of comparisons of the first token with the names of the commands.\<close>

definition dispatch :: "allocator \<Rightarrow> char list list \<Rightarrow> kmod \<Rightarrow> kmod res" where
  "dispatch A toks s =
     rbind (need OutOfBounds (strcmp0 (toks ! 0) (''get'' @ [NUL]))) (\<lambda>is_get.
     if is_get then
       if length toks \<noteq> 2 then set_message bad_get s else get_user_note_k (toks ! 1) s
     else
       rbind (need OutOfBounds (strcmp0 (toks ! 0) (''add'' @ [NUL]))) (\<lambda>is_add.
       if is_add then
         if length toks \<noteq> 6 then set_message bad_add s
         else add_user_note_k A (toks ! 1) (toks ! 2) (toks ! 3) (toks ! 4) (toks ! 5) s
       else
         rbind (need OutOfBounds (strcmp0 (toks ! 0) (''delete'' @ [NUL]))) (\<lambda>is_delete.
         if is_delete then
           if length toks \<noteq> 2 then set_message bad_delete s else delete_user_note_k (toks ! 1) s
         else set_message bad_command s)))"

definition device_write :: "allocator \<Rightarrow> (nat \<Rightarrow> char) \<Rightarrow> nat \<Rightarrow> kmod \<Rightarrow> (int \<times> kmod) res" where
  "device_write A ubuf len s =
     (if len > MAX_INP then Inr (- EINVAL, s)
      else
        rbind (need NullDeref (kmalloc A (heap_k s) (MAX_INP + 1))) (\<lambda>local_data.
        let h = (heap_k s)(local_data \<mapsto> KBytes (map ubuf [0..<len] @ [NUL])) in
        rbind (split_request A local_data len h) (\<lambda>(tokens, token_count, h).
        case tokens of
          None \<Rightarrow> rbind (kfree h local_data) (\<lambda>h. Inr (- EINVAL, s\<lparr>heap_k := h\<rparr>))
        | Some t \<Rightarrow>
            if token_count = 0 then
              rbind (kfree h local_data) (\<lambda>h. Inr (- EINVAL, s\<lparr>heap_k := h\<rparr>))
            else
              rbind (kbytes h local_data) (\<lambda>data.
              rbind (token_array h t) (\<lambda>cells.
              rbind (log_tokens data cells) (\<lambda>toks.
              rbind (dispatch A toks (s\<lparr>heap_k := h\<rparr>)) (\<lambda>s.
              rbind (kfree (heap_k s) t) (\<lambda>h.
              rbind (kfree h local_data) (\<lambda>h.
              Inr (int len, s\<lparr>heap_k := h\<rparr>))))))))))"

end
