(* ===== verification/Kmod_Proofs.thy ===== *)
theory Kmod_Proofs
  imports Kmod_Device
begin

text \<open>
  The device implements its requests: an abstract step on words and cells, and the proof
  that \<open>device_write\<close> refines it, keeps the memory invariant and leaks nothing.
\<close>

section \<open>What a request means\<close>

text \<open>
  The answer to the words of a request and the cells after it.
\<close>

definition request_spec ::
  "string list \<Rightarrow> contact_k option list \<Rightarrow> contact_k option list \<times> string" where
  "request_spec ws xs =
     (if ws ! 0 = ''get'' then
        if length ws \<noteq> 2 then (xs, bad_get) else (xs, get_text (slot_find csurname (ws ! 1) xs))
      else if ws ! 0 = ''add'' then
        if length ws \<noteq> 6 then (xs, bad_add)
        else (slot_add \<lparr>cname = ws ! 1, csurname = ws ! 2, cage = ws ! 3, cphone = ws ! 4,
                        cemail = ws ! 5\<rparr> xs, add_text (None \<in> set xs))
      else if ws ! 0 = ''delete'' then
        if length ws \<noteq> 2 then (xs, bad_delete)
        else (slot_del csurname (ws ! 1) xs, delete_text (slot_find csurname (ws ! 1) xs \<noteq> None))
      else (xs, bad_command))"

lemma log_tokens_words:
  "list_all2 (\<lambda>off w. c_str (drop off m) = Some w) offs ws \<Longrightarrow>
    \<exists>toks. log_tokens m (map Some offs) = Inr toks \<and>
      list_all2 (\<lambda>tok w. c_str tok = Some w) toks ws"
  by (induction rule: list_all2_induct) auto

lemma log_tokens_uninit:
  "list_all2 (\<lambda>off w. c_str (drop off m) = Some w) offs ws \<Longrightarrow>
    log_tokens m (map Some offs @ None # cells) = Inl Uninit"
  by (induction rule: list_all2_induct) auto

lemma set_message_frame:
  assumes "store_inv F s" and "length message < OUTPUT_SIZE" and "NUL \<notin> set message"
  shows "\<exists>s'. set_message message s = Inr s' \<and> store_inv F s' \<and> slots_k s' = slots_k s \<and>
    (\<forall>p\<in>F. heap_k s' p = heap_k s p) \<and> pending s' = Some message"
  using set_message_store [OF assms] by auto

lemma bad_texts:
  "length bad_get < OUTPUT_SIZE" "NUL \<notin> set bad_get"
  "length bad_add < OUTPUT_SIZE" "NUL \<notin> set bad_add"
  "length bad_delete < OUTPUT_SIZE" "NUL \<notin> set bad_delete"
  "length bad_command < OUTPUT_SIZE" "NUL \<notin> set bad_command"
  by (simp_all add: bad_get_def bad_add_def bad_delete_def bad_command_def OUTPUT_SIZE_def)

lemma strcmp0_token:
  "c_str tok = Some w \<Longrightarrow> NUL \<notin> set t \<Longrightarrow> strcmp0 tok (t @ [NUL]) = Some (w = t)"
  by (rule strcmp0_c_str) (simp_all add: c_str_literal)

text \<open>Executing the tokens of a request refines its meaning.\<close>

lemma dispatch_spec:
  assumes A: "alloc_fresh A" "alloc_total A" and inv: "store_inv F s"
    and toks: "list_all2 (\<lambda>tok w. c_str tok = Some w) toks ws" and ws: "ws \<noteq> []"
    and size: "sum_list (map length ws) + length ws \<le> Suc MAX_INP"
  shows "\<exists>s'. dispatch A toks s = Inr s' \<and> store_inv F s' \<and>
    slots_k s' = fst (request_spec ws (slots_k s)) \<and> (\<forall>p\<in>F. heap_k s' p = heap_k s p) \<and>
    pending s' = Some (snd (request_spec ws (slots_k s)))"
proof -
  have len: "length toks = length ws" using toks by (rule list_all2_lengthD)
  have tok: "c_str (toks ! i) = Some (ws ! i)" if "i < length ws" for i
    using toks that by (simp add: list_all2_conv_all_nth)
  have cmp: "strcmp0 (toks ! 0) (t @ [NUL]) = Some (ws ! 0 = t)" if "NUL \<notin> set t" for t
    using strcmp0_token [OF tok that] ws by simp
  note cmps = cmp [of "''get''"] cmp [of "''add''"] cmp [of "''delete''"]
  consider (get) "ws ! 0 = ''get''" | (add) "ws ! 0 = ''add''" | (delete) "ws ! 0 = ''delete''"
    | (other) "ws ! 0 \<noteq> ''get''" "ws ! 0 \<noteq> ''add''" "ws ! 0 \<noteq> ''delete''" by blast
  then show ?thesis
  proof cases
    case get
    show ?thesis
    proof (cases "length ws = 2")
      case True
      with get_user_note_k_spec [OF inv tok [of 1]] get cmps len show ?thesis
        by (force simp: dispatch_def request_spec_def)
    next
      case False
      with set_message_frame [OF inv bad_texts(1,2)] get cmps len show ?thesis
        by (force simp: dispatch_def request_spec_def)
    qed
  next
    case add
    show ?thesis
    proof (cases "length ws = 6")
      case True
      let ?c = "\<lparr>cname = ws ! 1, csurname = ws ! 2, cage = ws ! 3, cphone = ws ! 4, cemail = ws ! 5\<rparr>"
      obtain a b c d e f where abc: "ws = [a, b, c, d, e, f]"
        using True by (auto simp: numeral_eq_Suc length_Suc_conv)
      have nul: "NUL \<notin> set (ws ! i)" if "i < length ws" for i
        using c_str_no_nul [OF tok [OF that]] .
      have "contact_wf ?c"
        using nul [of 1] nul [of 2] nul [of 3] nul [of 4] nul [of 5] size add abc
        by (simp add: contact_wf_def contact_size_def CONTACT_MAX_def MAX_INP_def)
      from add_user_note_k_spec [OF A inv this, of "toks ! 1" "toks ! 2" "toks ! 3" "toks ! 4" "toks ! 5"]
        tok [of 1] tok [of 2] tok [of 3] tok [of 4] tok [of 5] True
      have "\<exists>s'. add_user_note_k A (toks ! 1) (toks ! 2) (toks ! 3) (toks ! 4) (toks ! 5) s = Inr s' \<and>
          store_inv F s' \<and> slots_k s' = slot_add ?c (slots_k s) \<and>
          (\<forall>p\<in>F. heap_k s' p = heap_k s p) \<and> pending s' = Some (add_text (None \<in> set (slots_k s)))"
        by simp
      with add cmps len True show ?thesis
        by (simp add: dispatch_def request_spec_def)
    next
      case False
      with set_message_frame [OF inv bad_texts(3,4)] add cmps len show ?thesis
        by (force simp: dispatch_def request_spec_def)
    qed
  next
    case delete
    show ?thesis
    proof (cases "length ws = 2")
      case True
      with delete_user_note_k_spec [OF inv tok [of 1]] delete cmps len show ?thesis
        by (force simp: dispatch_def request_spec_def)
    next
      case False
      with set_message_frame [OF inv bad_texts(5,6)] delete cmps len show ?thesis
        by (force simp: dispatch_def request_spec_def)
    qed
  next
    case other
    with set_message_frame [OF inv bad_texts(7,8)] cmps show ?thesis
      by (force simp: dispatch_def request_spec_def)
  qed
qed


section \<open>The frame of a request\<close>

text \<open>
  Blocks of the device (request buffer, token array) enter and leave the frame: a change of
  the heap outside the blocks of the table changes neither the table nor its invariant.
\<close>

lemma store_inv_heap:
  assumes "store_inv F s" and same: "\<And>q. q \<in> set (owned_k (users_k s)) \<Longrightarrow> h q = heap_k s q"
    and "mem_inv G h (users_k s)"
  shows "store_inv G (s\<lparr>heap_k := h\<rparr>) \<and> slots_k (s\<lparr>heap_k := h\<rparr>) = slots_k s"
proof -
  have "slot_k h u = slot_k (heap_k s) u" if "u \<in> set (users_k s)" for u
    using same own_k_owned [OF that] by (intro slot_k_cong) auto
  then have slots: "slots_k (s\<lparr>heap_k := h\<rparr>) = slots_k s" by (simp add: slots_k_def)
  with assms show ?thesis
    by (auto simp: store_inv_def output_ok_def split: option.split)
qed

lemma mem_inv_frame:
  assumes "mem_inv F h us" and "\<And>q. q \<in> set (owned_k us) \<Longrightarrow> h' q = h q"
    and "dom h' = set (owned_k us) \<union> G" and "G \<inter> set (owned_k us) = {}" and "finite G"
  shows "mem_inv G h' us"
  using assms str_block_cong [of h' _ h] by (auto simp: mem_inv_def)

lemma store_inv_frame_add:
  assumes "store_inv F s" and "heap_k s p = None"
  shows "store_inv (insert p F) (s\<lparr>heap_k := (heap_k s)(p \<mapsto> b)\<rparr>) \<and>
    slots_k (s\<lparr>heap_k := (heap_k s)(p \<mapsto> b)\<rparr>) = slots_k s"
proof -
  have mem: "mem_inv F (heap_k s) (users_k s)" using assms by (simp add: store_inv_def)
  then have p: "p \<notin> set (owned_k (users_k s))" using assms(2) by (auto simp: mem_inv_def)
  have "mem_inv (insert p F) ((heap_k s)(p \<mapsto> b)) (users_k s)"
    by (rule mem_inv_frame [OF mem]) (use mem p in \<open>auto simp: mem_inv_def\<close>)
  with p show ?thesis by (intro store_inv_heap [OF assms(1)]) auto
qed

lemma store_inv_frame_free:
  assumes "store_inv (insert p F) s" and "p \<notin> F"
  shows "store_inv F (s\<lparr>heap_k := (heap_k s)(p := None)\<rparr>) \<and>
    slots_k (s\<lparr>heap_k := (heap_k s)(p := None)\<rparr>) = slots_k s"
proof -
  have mem: "mem_inv (insert p F) (heap_k s) (users_k s)" using assms by (simp add: store_inv_def)
  then have p: "p \<notin> set (owned_k (users_k s))" by (auto simp: mem_inv_def)
  have "dom ((heap_k s)(p := None)) = dom (heap_k s) - {p}" by auto
  then have "mem_inv F ((heap_k s)(p := None)) (users_k s)"
    by (intro mem_inv_frame [OF mem]) (use mem p assms(2) in \<open>auto simp: mem_inv_def\<close>)
  with p show ?thesis by (intro store_inv_heap [OF assms(1)]) auto
qed

lemma pending_heap [simp]: "pending (s\<lparr>heap_k := h\<rparr>) = pending s"
  by (simp add: pending_def cong: option.case_cong)

lemma store_inv_finite: "store_inv F s \<Longrightarrow> finite (dom (heap_k s))"
  by (auto simp: store_inv_def mem_inv_def)


section \<open>device_write\<close>

text \<open>The characters the caller passed.\<close>

definition request :: "(nat \<Rightarrow> char) \<Rightarrow> nat \<Rightarrow> string" where
  "request ubuf len = map ubuf [0..<len]"

lemma request_length [simp]: "length (request ubuf len) = len"
  by (simp add: request_def)

text \<open>Entering \<open>device_write\<close>: the request buffer is a new block of the frame.\<close>

lemma write_enter:
  assumes A: "alloc_fresh A" "alloc_total A" and inv: "store_inv {} s"
  obtains pl where "kmalloc A (heap_k s) (MAX_INP + 1) = Some pl" and "heap_k s pl = None"
    and "pl \<noteq> 0" and "pl \<noteq> ZERO_SIZE_PTR"
    and "store_inv {pl} (s\<lparr>heap_k := (heap_k s)(pl \<mapsto> b)\<rparr>)"
    and "slots_k (s\<lparr>heap_k := (heap_k s)(pl \<mapsto> b)\<rparr>) = slots_k s"
proof -
  have fin: "finite (dom (heap_k s))" using inv by (rule store_inv_finite)
  obtain pl where pl: "A (heap_k s) (MAX_INP + 1) = Some pl"
    using A(2) fin by (rule alloc_totalE)
  from alloc_freshD [OF A(1) fin pl] have "heap_k s pl = None" "pl \<noteq> 0" "pl \<noteq> ZERO_SIZE_PTR"
    by auto
  with pl inv show ?thesis
    using store_inv_frame_add [OF inv, of pl b] that by (simp add: kmalloc_def)
qed

lemma device_write_words:
  assumes A: "alloc_fresh A" "alloc_total A" and inv: "store_inv {} s" and len: "len \<le> MAX_INP"
    and nul: "NUL \<notin> set (request ubuf len)" and ws: "words is_space (request ubuf len) \<noteq> []"
  shows "\<exists>s'. device_write A ubuf len s = Inr (int len, s') \<and> store_inv {} s' \<and>
    slots_k s' = fst (request_spec (words is_space (request ubuf len)) (slots_k s)) \<and>
    pending s' = Some (snd (request_spec (words is_space (request ubuf len)) (slots_k s)))"
proof -
  let ?req = "request ubuf len" and ?ws = "words is_space (request ubuf len)"
  obtain pl where pl: "kmalloc A (heap_k s) (MAX_INP + 1) = Some pl" "heap_k s pl = None"
      "pl \<noteq> 0" "pl \<noteq> ZERO_SIZE_PTR"
    by (rule write_enter [OF A inv])
  define h1 where "h1 = (heap_k s)(pl \<mapsto> KBytes (?req @ [NUL]))"
  have fin: "finite (dom h1)" using store_inv_finite [OF inv] by (simp add: h1_def)
  obtain t where t: "A h1 (sizeof_ptr * length ?ws) = Some t"
    using A(2) fin by (rule alloc_totalE)
  from alloc_freshD [OF A(1) fin t] have t': "h1 t = None" "t \<noteq> 0" "t \<noteq> ZERO_SIZE_PTR" by auto
  then have tp: "pl \<noteq> t" by (auto simp: h1_def)
  from split_request_words [where h = h1 and s = ?req and A = A, OF _ pl(3) tp nul refl _ t] ws
  obtain m offs where sp: "split_request A pl len h1 =
        Inr (Some t, length ?ws, h1(pl \<mapsto> KBytes m, t \<mapsto> KPtrs (map Some offs)))"
      "list_all2 (\<lambda>off w. c_str (drop off m) = Some w) offs ?ws"
    by (auto simp: h1_def)
  from log_tokens_words [OF sp(2)] obtain toks where toks: "log_tokens m (map Some offs) = Inr toks"
      "list_all2 (\<lambda>tok w. c_str tok = Some w) toks ?ws" by blast
  define h2 where "h2 = (heap_k s)(pl \<mapsto> KBytes m, t \<mapsto> KPtrs (map Some offs))"
  have h2: "h1(pl \<mapsto> KBytes m, t \<mapsto> KPtrs (map Some offs)) = h2" by (simp add: h1_def h2_def)
  let ?s1 = "s\<lparr>heap_k := (heap_k s)(pl \<mapsto> KBytes m)\<rparr>" and ?s2 = "s\<lparr>heap_k := h2\<rparr>"
  have f1: "store_inv {pl} ?s1" "slots_k ?s1 = slots_k s"
    using store_inv_frame_add [OF inv pl(2)] by auto
  have "heap_k ?s1 t = None" using t' tp by (simp add: h1_def)
  from store_inv_frame_add [OF f1(1) this, of "KPtrs (map Some offs)"] f1(2)
  have f2: "store_inv {t, pl} ?s2" "slots_k ?s2 = slots_k s"
    by (simp_all add: h2_def)
  have size: "sum_list (map length ?ws) + length ?ws \<le> Suc MAX_INP"
    using words_total_length_sep [OF ws] len by simp
  from dispatch_spec [OF A f2(1) toks(2) ws size] obtain s3 where s3: "dispatch A toks ?s2 = Inr s3"
      "store_inv {t, pl} s3" "slots_k s3 = fst (request_spec ?ws (slots_k s))"
      "heap_k s3 t = h2 t" "heap_k s3 pl = h2 pl"
      "pending s3 = Some (snd (request_spec ?ws (slots_k s)))"
    using f2(2) by auto
  let ?s4 = "s3\<lparr>heap_k := (heap_k s3)(t := None)\<rparr>"
  let ?s5 = "?s4\<lparr>heap_k := (heap_k ?s4)(pl := None)\<rparr>"
  have f4: "store_inv {pl} ?s4" "slots_k ?s4 = slots_k s3"
    using store_inv_frame_free [OF s3(2)] tp by auto
  have f5: "store_inv {} ?s5" "slots_k ?s5 = slots_k s3"
    using store_inv_frame_free [OF f4(1)] f4(2) by auto
  have free: "kfree (heap_k s3) t = Inr ((heap_k s3)(t := None))"
      "kfree ((heap_k s3)(t := None)) pl = Inr ((heap_k s3)(t := None, pl := None))"
    using s3(4,5) t'(2,3) pl(3,4) tp by (simp_all add: h2_def kfree_def)
  have "device_write A ubuf len s = Inr (int len, ?s5)"
    using len pl(1,3) sp(1) toks(1) s3(1) free ws tp
    by (simp add: device_write_def Let_def request_def [symmetric] h1_def [symmetric] h2
        kbytes_def token_array_def) (simp add: h2_def)
  with f5 s3 show ?thesis by auto
qed

text \<open>A request of white space only, or an empty one, is refused and changes nothing.\<close>

lemma device_write_blank:
  assumes A: "alloc_fresh A" "alloc_total A" and inv: "store_inv {} s" and len: "len \<le> MAX_INP"
    and blank: "\<forall>c\<in>set (request ubuf len). is_space c"
  shows "device_write A ubuf len s = Inr (- EINVAL, s)"
proof -
  let ?req = "request ubuf len"
  obtain pl where pl: "kmalloc A (heap_k s) (MAX_INP + 1) = Some pl" "heap_k s pl = None"
      "pl \<noteq> 0" "pl \<noteq> ZERO_SIZE_PTR"
    by (rule write_enter [OF A inv])
  have undo: "(heap_k s)(pl := None) = heap_k s" using pl(2) by (simp add: fun_upd_idem)
  show ?thesis
  proof (cases "len = 0")
    case True
    with pl undo show ?thesis
      by (simp add: device_write_def split_request_def kfree_def Let_def MAX_INP_def)
  next
    case False
    then have "?req \<noteq> []" by (simp add: request_def)
    from split_request_blank [where h = "(heap_k s)(pl \<mapsto> KBytes (?req @ [NUL]))" and p = pl and A = A,
        OF _ pl(3) blank this]
    have "split_request A pl len ((heap_k s)(pl \<mapsto> KBytes (?req @ [NUL]))) =
        Inr (Some ZERO_SIZE_PTR, 0, (heap_k s)(pl \<mapsto> KBytes (replicate (Suc len) NUL)))" by simp
    with pl undo len show ?thesis
      by (simp add: device_write_def Let_def request_def [symmetric] kfree_def)
  qed
qed

text \<open>
  A request with a zero byte that is followed by what counts as a further word: the token
  array has a cell that was never written, and the log loop dereferences it.
\<close>

lemma device_write_zero_byte:
  assumes A: "alloc_fresh A" "alloc_total A" and inv: "store_inv {} s" and len: "len \<le> MAX_INP"
    and req: "request ubuf len = a @ NUL # b" and nul: "NUL \<notin> set a"
    and more: "length (words is_space a) < length (words is_space (a @ NUL # b))"
  shows "device_write A ubuf len s = Inl Uninit"
proof -
  let ?req = "request ubuf len" and ?n = "length (words is_space (a @ NUL # b))"
  obtain pl where pl: "kmalloc A (heap_k s) (MAX_INP + 1) = Some pl" "heap_k s pl = None"
      "pl \<noteq> 0" "pl \<noteq> ZERO_SIZE_PTR"
    by (rule write_enter [OF A inv])
  define h1 where "h1 = (heap_k s)(pl \<mapsto> KBytes (?req @ [NUL]))"
  have fin: "finite (dom h1)" using store_inv_finite [OF inv] by (simp add: h1_def)
  obtain t where t: "A h1 (sizeof_ptr * ?n) = Some t"
    using A(2) fin by (rule alloc_totalE)
  from alloc_freshD [OF A(1) fin t] have t': "h1 t = None" "t \<noteq> 0" by auto
  then have tp: "pl \<noteq> t" by (auto simp: h1_def)
  have hp: "h1 pl = Some (KBytes (a @ NUL # b @ [NUL]))" by (simp add: h1_def req)
  have lenreq: "length (a @ NUL # b) = len" using req by (metis request_length)
  from split_request_prefix [where h = h1 and A = A, OF hp pl(3) tp nul refl t]
  obtain m offs where sp: "split_request A pl len h1 =
        Inr (Some t, ?n, h1(pl \<mapsto> KBytes m, t \<mapsto> KPtrs (map Some offs @ replicate (?n - length offs) None)))"
      "list_all2 (\<lambda>off w. c_str (drop off m) = Some w) offs (words is_space a)" "?n \<noteq> 0"
    unfolding lenreq by blast
  have "length offs < ?n" using sp(2) more by (simp add: list_all2_lengthD)
  then obtain k where "?n - length offs = Suc k" by (metis Suc_diff_Suc)
  with log_tokens_uninit [OF sp(2)]
  have log: "log_tokens m (map Some offs @ replicate (?n - length offs) None) = Inl Uninit" by simp
  show ?thesis
    using len pl(1,3) sp(1,3) log tp
    by (simp add: device_write_def Let_def request_def [symmetric] h1_def [symmetric]
        kbytes_def token_array_def)
qed

end
