(* ===== verification/Kmod_Props.thy ===== *)
theory Kmod_Props
  imports Kmod_Proofs
begin

text \<open>
  The device as a whole: loading, the life of an open device as a state machine, chunked
  reads, unloading; and the properties of the kernel module.
\<close>


section \<open>Loading\<close>

definition loaded :: "int \<Rightarrow> kmod" where
  "loaded reg = snd (storage_init reg kmod_static)"

lemma owned_k_free: "\<forall>u\<in>set us. status_k u \<noteq> CHR ''t'' \<Longrightarrow> owned_k us = []"
  by (induction us) (auto simp: owned_k_def)

lemma loaded_fields:
  assumes "0 \<le> reg"
  shows "users_k (loaded reg) = replicate USER_COUNT_k (zero_User_k\<lparr>status_k := CHR ''f''\<rparr>)"
    and "heap_k (loaded reg) = Map.empty" and "output_ptr (loaded reg) = None"
    and "output_data (loaded reg) = replicate OUTPUT_SIZE NUL" and "open_counter (loaded reg) = 0"
    and "module_refs (loaded reg) = 0" and "slots_k (loaded reg) = replicate USER_COUNT_k None"
  using assms
  by (simp_all add: loaded_def storage_init_def kmod_static_def Let_def slots_k_def slot_k_def)

lemma loaded_inv: "0 \<le> reg \<Longrightarrow> store_inv {} (loaded reg)"
proof -
  assume reg: "0 \<le> reg"
  note f = loaded_fields [OF reg]
  have "owned_k (users_k (loaded reg)) = []"
    unfolding f(1) by (rule owned_k_free) auto
  with f show ?thesis
    by (auto simp: store_inv_def mem_inv_def output_ok_def)
qed


section \<open>Reading\<close>

lemma read_loop_run:
  "drop ptr data = m @ NUL # r \<Longrightarrow> NUL \<notin> set m \<Longrightarrow>
    read_loop data ptr len put = Inr (put @ take len m, ptr + min len (length m))"
proof (induction len arbitrary: ptr m put)
  case 0
  then show ?case by (subst read_loop.simps) simp
next
  case (Suc len)
  have ptr: "ptr < length data" using Suc.prems(1) by (cases "ptr < length data") auto
  then have at: "drop ptr data = data ! ptr # drop (Suc ptr) data" by (simp add: Cons_nth_drop_Suc)
  show ?case
  proof (cases m)
    case Nil
    with Suc.prems at ptr show ?thesis by (subst read_loop.simps) simp
  next
    case (Cons c cs)
    with Suc.prems(1) at have "data ! ptr = c" "drop (Suc ptr) data = cs @ NUL # r" by auto
    with Suc.IH [of "Suc ptr" cs "put @ [c]"] Suc.prems(2) Cons ptr show ?thesis
      by (subst read_loop.simps) auto
  qed
qed

lemma device_read_pending:
  assumes "pending s = Some m"
  shows "\<exists>s'. device_read len s = Inr (int (min len (length m)), take len m, s') \<and>
    pending s' = Some (drop len m) \<and> (store_inv F s \<longrightarrow> store_inv F s') \<and> slots_k s' = slots_k s \<and>
    heap_k s' = heap_k s"
proof -
  from assms obtain ptr where ptr: "output_ptr s = Some ptr" "c_str (drop ptr (output_data s)) = Some m"
    by (auto simp: pending_def split: option.splits)
  then obtain r where r: "drop ptr (output_data s) = m @ NUL # r" and nul: "NUL \<notin> set m"
    by (auto elim: c_str_SomeE)
  then have len: "ptr < length (output_data s)"
    by (cases "ptr < length (output_data s)") auto
  then have at: "output_data s ! ptr = hd (m @ NUL # r)"
    using r by (metis hd_drop_conv_nth)
  show ?thesis
  proof (cases m)
    case Nil
    with ptr len at show ?thesis
      by (intro exI [of _ s]) (auto simp: device_read_def pending_def)
  next
    case (Cons c cs)
    let ?s = "s\<lparr>output_ptr := Some (ptr + min len (length m))\<rparr>"
    have "device_read len s = Inr (int (min len (length m)), take len m, ?s)"
      using Cons ptr len at nul read_loop_run [OF r nul, of len "[]"]
      by (auto simp: device_read_def)
    moreover have "drop (ptr + min len (length m)) (output_data s) = drop len m @ NUL # r"
    proof -
      have "drop (ptr + min len (length m)) (output_data s) = drop (min len (length m)) (m @ NUL # r)"
        using r by (metis drop_drop add.commute)
      then show ?thesis by (simp add: min_def)
    qed
    moreover have "NUL \<notin> set (drop len m)" using nul by (meson in_set_dropD)
    ultimately show ?thesis
      by (intro exI [of _ ?s])
        (auto simp: pending_def c_str_append store_inv_def output_ok_def slots_k_def)
  qed
qed

lemma device_read_used_up: "pending s = Some [] \<Longrightarrow> device_read len s = Inr (0, [], s)"
proof -
  assume "pending s = Some []"
  then obtain ptr where ptr: "output_ptr s = Some ptr" "c_str (drop ptr (output_data s)) = Some []"
    by (auto simp: pending_def split: option.splits)
  then obtain r where r: "drop ptr (output_data s) = NUL # r" by (auto elim: c_str_SomeE)
  then have "ptr < length (output_data s)" by (cases "ptr < length (output_data s)") auto
  moreover from this r have "output_data s ! ptr = NUL" by (metis hd_drop_conv_nth list.sel(1))
  ultimately show ?thesis using ptr(1) by (simp add: device_read_def)
qed

text \<open>Reads of given sizes, one after the other: what each returns and the characters it delivers.\<close>

primrec reads :: "nat list \<Rightarrow> kmod \<Rightarrow> ((int \<times> string) list \<times> kmod) res" where
  "reads [] s = Inr ([], s)"
| "reads (n # ns) s =
     rbind (device_read n s) (\<lambda>(k, bytes, s). rbind (reads ns s) (\<lambda>(rest, s). Inr ((k, bytes) # rest, s)))"


section \<open>Unloading\<close>

lemma exit_loop_frees:
  "distinct (owned_k us) \<Longrightarrow> \<forall>p\<in>set (owned_k us). str_block h p \<Longrightarrow>
    exit_loop us h = Inr (map (\<lambda>u. if status_k u = CHR ''t'' then u\<lparr>status_k := CHR ''f''\<rparr> else u) us,
      \<lambda>p. if p \<in> set (owned_k us) then None else h p)"
proof (induction us arbitrary: h)
  case Nil
  then show ?case by (simp add: owned_k_def)
next
  case (Cons u us)
  have own: "owned_k (u # us) = own_k u @ owned_k us" by (simp add: owned_k_def)
  show ?case
  proof (cases "status_k u = CHR ''t''")
    case True
    let ?h = "\<lambda>p. if p \<in> set (own_k u) then None else h p"
    have "free_user u h = Inr ?h"
      using Cons.prems own by (intro free_user_blocks [OF True]) auto
    moreover have blocks: "\<forall>p\<in>set (owned_k us). str_block ?h p"
    proof
      fix p assume p: "p \<in> set (owned_k us)"
      then have "p \<notin> set (own_k u)" using Cons.prems(1) own by auto
      then have "?h p = h p" by simp
      then have "str_block ?h p = str_block h p" by (rule str_block_cong)
      moreover have "str_block h p" using Cons.prems(2) own p by auto
      ultimately show "str_block ?h p" by blast
    qed
    have "distinct (owned_k us)" using Cons.prems(1) own by simp
    then have "exit_loop us ?h = Inr (map (\<lambda>u. if status_k u = CHR ''t'' then u\<lparr>status_k := CHR ''f''\<rparr> else u) us,
        \<lambda>p. if p \<in> set (owned_k us) then None else ?h p)"
      using blocks by (rule Cons.IH)
    moreover have "(\<lambda>p. if p \<in> set (owned_k us) then None else ?h p) =
        (\<lambda>p. if p \<in> set (owned_k (u # us)) then None else h p)"
      by (intro ext) (simp add: own del: own_k_taken)
    ultimately show ?thesis using True by simp
  next
    case False
    with Cons own show ?thesis by simp
  qed
qed

lemma storage_exit_frees:
  assumes "store_inv {} s"
  shows "\<exists>s'. storage_exit s = Inr s' \<and> heap_k s' = Map.empty \<and>
    (\<forall>u\<in>set (users_k s'). status_k u = CHR ''f'')"
proof -
  have mem: "mem_inv {} (heap_k s) (users_k s)" using assms by (simp add: store_inv_def)
  then have "\<And>p. p \<notin> set (owned_k (users_k s)) \<Longrightarrow> heap_k s p = None"
    by (auto simp: mem_inv_def)
  with mem exit_loop_frees [of "users_k s" "heap_k s"] show ?thesis
    by (auto simp: storage_exit_def mem_inv_def fun_eq_iff)
qed


section \<open>The life of the device\<close>

text \<open>
  Everything the kernel can call between load and unload, one call at a time: \<open>open\<close>,
  \<open>release\<close> by a holder of the device, a read of any size, a write of any request without
  zero bytes. \<open>holders\<close> counts the file descriptors for which \<open>open\<close> returned 0.
\<close>

inductive reach_k :: "allocator \<Rightarrow> kmod \<Rightarrow> int \<Rightarrow> bool" for A where
  load: "0 \<le> reg \<Longrightarrow> reach_k A (loaded reg) 0"
| open_ok: "reach_k A s n \<Longrightarrow> device_open got s = (0, s') \<Longrightarrow> reach_k A s' (n + 1)"
| open_busy: "reach_k A s n \<Longrightarrow> device_open got s = (r, s') \<Longrightarrow> r \<noteq> 0 \<Longrightarrow> reach_k A s' n"
| release: "reach_k A s n \<Longrightarrow> 0 < n \<Longrightarrow> device_release s = (r, s') \<Longrightarrow> reach_k A s' (n - 1)"
| read: "reach_k A s n \<Longrightarrow> device_read len s = Inr (r, bytes, s') \<Longrightarrow> reach_k A s' n"
| store: "reach_k A s n \<Longrightarrow> NUL \<notin> set (request ubuf len) \<Longrightarrow> device_write A ubuf len s = Inr (r, s') \<Longrightarrow>
    reach_k A s' n"

lemma store_inv_counters:
  "store_inv F (s\<lparr>module_refs := a, open_counter := b\<rparr>) = store_inv F s"
  "store_inv F (s\<lparr>open_counter := b\<rparr>) = store_inv F s"
  "store_inv F (s\<lparr>module_refs := a\<rparr>) = store_inv F s"
  by (simp_all add: store_inv_def slots_k_def output_ok_def cong: option.case_cong)

text \<open>A read only moves \<open>output_ptr\<close>.\<close>

lemma device_read_inv: "device_read len s = Inr (r, bytes, s') \<Longrightarrow> store_inv F s \<Longrightarrow>
    store_inv F s' \<and> open_counter s' = open_counter s"
proof -
  assume rd: "device_read len s = Inr (r, bytes, s')" and inv: "store_inv F s"
  from rd obtain ptr where ptr: "output_ptr s = Some ptr"
    by (auto simp: device_read_def split: option.splits)
  with inv obtain m where m: "pending s = Some m"
    by (cases "pending s") (auto simp: pending_def store_inv_def output_ok_def c_str_None_iff)
  from rd have "open_counter s' = open_counter s"
    by (auto simp: device_read_def rbind_eq_Inr split: option.splits if_splits)
  with device_read_pending [OF m, of len F] rd inv show ?thesis by auto
qed

lemma set_message_counter: "set_message m s = Inr s' \<Longrightarrow> open_counter s' = open_counter s"
  using set_message_fields by blast

lemma dispatch_counter: "dispatch A toks s = Inr s' \<Longrightarrow> open_counter s' = open_counter s"
  by (auto simp: dispatch_def get_user_note_k_def add_user_note_k_def delete_user_note_k_def
      rbind_eq_Inr Let_def dest!: set_message_counter split: if_splits option.splits)

lemma device_write_counter: "device_write A ubuf len s = Inr (r, s') \<Longrightarrow> open_counter s' = open_counter s"
  by (auto simp: device_write_def rbind_eq_Inr Let_def dest!: dispatch_counter
      split: if_splits option.splits)

lemma device_write_inv:
  assumes A: "alloc_fresh A" "alloc_total A" and inv: "store_inv {} s"
    and nul: "NUL \<notin> set (request ubuf len)"
  shows "\<exists>r s'. device_write A ubuf len s = Inr (r, s') \<and> store_inv {} s'"
proof (cases "len \<le> MAX_INP")
  case False
  with inv show ?thesis by (simp add: device_write_def)
next
  case len: True
  show ?thesis
  proof (cases "words is_space (request ubuf len) = []")
    case False
    with device_write_words [OF A inv len nul] show ?thesis by blast
  next
    case True
    have "\<forall>c\<in>set (request ubuf len). is_space c"
    proof (cases "request ubuf len" rule: line_cases [where sp = is_space])
      case (word b w r)
      with True words_split [of b is_space w r] show ?thesis by simp
    qed
    with device_write_blank [OF A inv len] inv show ?thesis by blast
  qed
qed

lemma reach_k_inv:
  assumes "reach_k A s n" and A: "alloc_fresh A" "alloc_total A"
  shows "store_inv {} s \<and> open_counter s = n \<and> 0 \<le> n \<and> n \<le> 1"
  using assms(1)
proof (induction rule: reach_k.induct)
  case (load reg)
  then show ?case by (simp add: loaded_inv loaded_fields)
next
  case (open_ok s n got s')
  then show ?case by (auto simp: device_open_def EBUSY_def store_inv_counters split: if_splits)
next
  case (open_busy s n got r s')
  then show ?case by (auto simp: device_open_def split: if_splits)
next
  case (release s n r s')
  then show ?case by (auto simp: device_release_def store_inv_counters)
next
  case (read s n len r bytes s')
  then show ?case using device_read_inv [of len s r bytes s' "{}"] by auto
next
  case (store s n ubuf len r s')
  then show ?case
    using device_write_inv [OF A, of s ubuf len] device_write_counter [of A ubuf len s r s'] by auto
qed

end
