(* ===== verification/Kmod_Race.thy ===== *)
theory Kmod_Race
  imports Kmod_Props
begin

text \<open>
  Processes that open and close the device at the same time. \<open>device_open\<close> tests
  \<open>open_counter\<close> and increments it later, \<open>device_release\<close> decrements it, with no lock: each is a load
  and a store of a plain \<open>int\<close>. A process is where it stands in these functions; a step is one process
  doing its next access to the counter. (Accesses are not reordered, and there are fewer
  processes than an \<open>int\<close> counts.)
\<close>


section \<open>Steps\<close>

datatype opener = Outside | Tested | Loaded int | Holding | Closing int

inductive open_step :: "int \<times> (nat \<Rightarrow> opener) \<Rightarrow> int \<times> (nat \<Rightarrow> opener) \<Rightarrow> bool" where
  test: "pc i = Outside \<Longrightarrow> \<not> 0 < counter \<Longrightarrow> open_step (counter, pc) (counter, pc(i := Tested))"
| load: "pc i = Tested \<Longrightarrow> open_step (counter, pc) (counter, pc(i := Loaded counter))"
| store: "pc i = Loaded v \<Longrightarrow> open_step (counter, pc) (v + 1, pc(i := Holding))"

inductive release_step :: "int \<times> (nat \<Rightarrow> opener) \<Rightarrow> int \<times> (nat \<Rightarrow> opener) \<Rightarrow> bool" where
  load: "pc i = Holding \<Longrightarrow> release_step (counter, pc) (counter, pc(i := Closing counter))"
| store: "pc i = Closing v \<Longrightarrow> release_step (counter, pc) (v - 1, pc(i := Outside))"

definition race_step :: "int \<times> (nat \<Rightarrow> opener) \<Rightarrow> int \<times> (nat \<Rightarrow> opener) \<Rightarrow> bool" where
  "race_step s t \<longleftrightarrow> open_step s t \<or> release_step s t"

definition race_start :: "int \<times> (nat \<Rightarrow> opener)" where
  "race_start = (0, \<lambda>_. Outside)"

text \<open>A process that is not disturbed does what the two functions do.\<close>

lemma open_alone:
  assumes "pc i = Outside" and "fst (device_open got s) = 0"
  shows "open_step\<^sup>*\<^sup>* (open_counter s, pc) (open_counter (snd (device_open got s)), pc(i := Holding))"
proof -
  let ?c = "open_counter s"
  have c: "\<not> 0 < ?c" "open_counter (snd (device_open got s)) = ?c + 1"
    using assms(2) by (auto simp: device_open_def EBUSY_def split: if_splits)
  have "open_step (?c, pc) (?c, pc(i := Tested))" using assms(1) c(1) by (rule open_step.test)
  moreover have "open_step (?c, pc(i := Tested)) (?c, pc(i := Loaded ?c))"
    using open_step.load [of "pc(i := Tested)" i ?c] by simp
  moreover have "open_step (?c, pc(i := Loaded ?c)) (?c + 1, pc(i := Holding))"
    using open_step.store [of "pc(i := Loaded ?c)" i ?c ?c] by simp
  ultimately show ?thesis unfolding c(2) by (meson converse_rtranclp_into_rtranclp rtranclp.rtrancl_refl)
qed

lemma release_alone:
  assumes "pc i = Holding"
  shows "release_step\<^sup>*\<^sup>* (open_counter s, pc) (open_counter (snd (device_release s)), pc(i := Outside))"
proof -
  let ?c = "open_counter s"
  have "release_step (?c, pc) (?c, pc(i := Closing ?c))" using assms by (rule release_step.load)
  moreover have "release_step (?c, pc(i := Closing ?c)) (?c - 1, pc(i := Outside))"
    using release_step.store [of "pc(i := Closing ?c)" i ?c ?c] by simp
  ultimately show ?thesis by (simp add: device_release_def)
qed


section \<open>One process at a time between a load and a store\<close>

text \<open>A process is busy from its test to the store, and from the load of its release to the store.\<close>

definition busy :: "opener \<Rightarrow> bool" where
  "busy p \<longleftrightarrow> p \<noteq> Outside \<and> p \<noteq> Holding"

definition calm :: "int \<times> (nat \<Rightarrow> opener) \<Rightarrow> bool" where
  "calm s \<longleftrightarrow> (\<forall>i j. busy (snd s i) \<longrightarrow> busy (snd s j) \<longrightarrow> i = j)"

definition calm_step :: "int \<times> (nat \<Rightarrow> opener) \<Rightarrow> int \<times> (nat \<Rightarrow> opener) \<Rightarrow> bool" where
  "calm_step s t \<longleftrightarrow> race_step s t \<and> calm t"

text \<open>Then one process at most is inside, and the counter says whether it has been counted.\<close>

definition counted :: "int \<times> (nat \<Rightarrow> opener) \<Rightarrow> bool" where
  "counted s \<longleftrightarrow> (case s of (counter, pc) \<Rightarrow>
     (counter = 0 \<and> (\<forall>i. pc i = Outside)) \<or>
     (\<exists>i. (\<forall>j. j \<noteq> i \<longrightarrow> pc j = Outside) \<and>
        (case pc i of
           Outside \<Rightarrow> counter = 0
         | Tested \<Rightarrow> counter = 0
         | Loaded v \<Rightarrow> counter = 0 \<and> v = 0
         | Holding \<Rightarrow> counter = 1
         | Closing v \<Rightarrow> counter = 1 \<and> v = 1)))"

lemma calm_counted:
  assumes "calm_step\<^sup>*\<^sup>* race_start s"
  shows "counted s"
  using assms
proof (induction rule: rtranclp_induct)
  case base
  show ?case by (simp add: race_start_def counted_def)
next
  case (step s t)
  obtain c pc where s: "s = (c, pc)" by (cases s)
  from step.IH obtain i where i: "\<forall>j. j \<noteq> i \<longrightarrow> pc j = Outside"
    and p: "case pc i of Outside \<Rightarrow> c = 0 | Tested \<Rightarrow> c = 0 | Loaded v \<Rightarrow> c = 0 \<and> v = 0 | Holding \<Rightarrow> c = 1
      | Closing v \<Rightarrow> c = 1 \<and> v = 1"
    unfolding s counted_def by auto
  have at: "k = i" if "pc k \<noteq> Outside" for k using i that by blast
  from step.hyps(2) have r: "race_step (c, pc) t" and calm: "calm t" by (simp_all add: calm_step_def s)
  from r consider "open_step (c, pc) t" | "release_step (c, pc) t" by (auto simp: race_step_def)
  then show ?case
  proof cases
    case 1
    then show ?thesis
    proof cases
      case (test k)
      have "k = i" if "pc i \<noteq> Outside"
      proof (rule ccontr)
        assume ne: "k \<noteq> i"
        have "pc i \<noteq> Holding" using p test(3) by (auto split: opener.splits)
        then have "busy (snd t i)" "busy (snd t k)" using test(1) ne that by (simp_all add: busy_def)
        with calm ne show False unfolding calm_def by blast
      qed
      then have "c = 0" "\<forall>j. j \<noteq> k \<longrightarrow> pc j = Outside" using i p test(2) by (auto split: opener.splits)
      then show ?thesis unfolding test(1) counted_def by (auto intro!: exI [of _ k])
    next
      case (load k)
      with at [of k] p i show ?thesis unfolding load(1) counted_def by (auto intro!: exI [of _ k])
    next
      case (store k v)
      with at [of k] p i show ?thesis unfolding store(1) counted_def by (auto intro!: exI [of _ k])
    qed
  next
    case 2
    then show ?thesis
    proof cases
      case (load k)
      with at [of k] p i show ?thesis unfolding load(1) counted_def by (auto intro!: exI [of _ k])
    next
      case (store k v)
      with at [of k] p i show ?thesis unfolding store(1) counted_def by (auto intro!: exI [of _ k])
    qed
  qed
qed

lemma countedD:
  assumes "counted (counter, pc)"
  shows "pc i \<noteq> Outside \<Longrightarrow> pc j \<noteq> Outside \<Longrightarrow> i = j"
    and "counter = (if \<exists>i. pc i = Holding \<or> (\<exists>v. pc i = Closing v) then 1 else 0)"
proof -
  from assms obtain k where k: "\<forall>j. j \<noteq> k \<longrightarrow> pc j = Outside"
    and p: "case pc k of Outside \<Rightarrow> counter = 0 | Tested \<Rightarrow> counter = 0 | Loaded v \<Rightarrow> counter = 0 \<and> v = 0
      | Holding \<Rightarrow> counter = 1 | Closing v \<Rightarrow> counter = 1 \<and> v = 1"
    unfolding counted_def by auto
  show "i = j" if "pc i \<noteq> Outside" "pc j \<noteq> Outside" using k that by metis
  have "(\<exists>i. pc i = Holding \<or> (\<exists>v. pc i = Closing v)) \<longleftrightarrow> pc k = Holding \<or> (\<exists>v. pc k = Closing v)"
    using k by (metis opener.distinct(5) opener.distinct(7))
  with p show "counter = (if \<exists>i. pc i = Holding \<or> (\<exists>v. pc i = Closing v) then 1 else 0)"
    by (auto split: opener.splits)
qed


section \<open>Processes in step\<close>

text \<open>The first \<open>k\<close> of \<open>n\<close> processes have come to \<open>b\<close>, the others are at \<open>a\<close>.\<close>

definition row :: "nat \<Rightarrow> opener \<Rightarrow> nat \<Rightarrow> opener \<Rightarrow> nat \<Rightarrow> opener" where
  "row k b n a i = (if i < k then b else if i < n then a else Outside)"

lemma row_at [simp]: "k < n \<Longrightarrow> row k b n a k = a"
  by (simp add: row_def)

lemma row_upd [simp]: "k < n \<Longrightarrow> (row k b n a)(k := b) = row (Suc k) b n a"
  by (rule ext) (auto simp: row_def)

lemma row_end: "row n b n a = row 0 c n b"
  by (rule ext) (simp add: row_def)

lemma row_out: "row 0 b n Outside = (\<lambda>_. Outside)" "row n Outside n a = (\<lambda>_. Outside)"
  by (simp_all add: row_def fun_eq_iff)

lemma batch:
  assumes "\<And>k. k < n \<Longrightarrow> R\<^sup>*\<^sup>* (f k, row k b n a) (f (Suc k), row (Suc k) b n a)"
  shows "R\<^sup>*\<^sup>* (f 0, row 0 b n a) (f n, row n b n a)"
proof -
  have "k \<le> n \<Longrightarrow> R\<^sup>*\<^sup>* (f 0, row 0 b n a) (f k, row k b n a)" for k
  proof (induction k)
    case (Suc k)
    then show ?case using assms [of k] by (meson Suc_leD Suc_le_lessD rtranclp_trans)
  qed simp
  then show ?thesis by simp
qed

text \<open>One batch for each access: what becomes of the counter.\<close>

lemma batch1:
  assumes "\<And>k. k < n \<Longrightarrow> race_step (f k, row k b n a) (f (Suc k), (row k b n a)(k := b))"
  shows "race_step\<^sup>*\<^sup>* (f 0, row 0 b n a) (f n, row n b n a)"
  using assms by (intro batch) (simp add: r_into_rtranclp)

lemma batch_test: "race_step\<^sup>*\<^sup>* (0, row 0 Tested n Outside) (0, row n Tested n Outside)"
  by (rule batch1 [where f = "\<lambda>k. 0"]) (simp add: race_step_def open_step.test del: row_upd)

lemma batch_load: "race_step\<^sup>*\<^sup>* (0, row 0 (Loaded 0) n Tested) (0, row n (Loaded 0) n Tested)"
  by (rule batch1 [where f = "\<lambda>k. 0"]) (simp add: race_step_def open_step.load del: row_upd)

lemma batch_store:
  "race_step\<^sup>*\<^sup>* (0, row 0 Holding n (Loaded 0)) (if n = 0 then 0 else 1, row n Holding n (Loaded 0))"
proof -
  have "race_step (c, row k Holding n (Loaded 0)) (1, (row k Holding n (Loaded 0))(k := Holding))" if "k < n" for c k
    using open_step.store [of "row k Holding n (Loaded 0)" k 0 c] that by (simp add: race_step_def del: row_upd)
  then show ?thesis
    using batch1 [where f = "\<lambda>k. if k = 0 then 0 else 1" and n = n and b = Holding and a = "Loaded 0"]
    by (simp del: row_upd)
qed

lemma two_steps: "R x y \<Longrightarrow> R y z \<Longrightarrow> R\<^sup>*\<^sup>* x z"
  by simp

lemma batch_increment: "race_step\<^sup>*\<^sup>* (0, row 0 Holding n Tested) (int n, row n Holding n Tested)"
proof -
  have "race_step\<^sup>*\<^sup>* (int k, row k Holding n Tested) (int (Suc k), row (Suc k) Holding n Tested)" if k: "k < n" for k
  proof (rule two_steps)
    show "race_step (int k, row k Holding n Tested) (int k, (row k Holding n Tested)(k := Loaded (int k)))"
      using k by (simp add: race_step_def open_step.load)
    show "race_step (int k, (row k Holding n Tested)(k := Loaded (int k))) (int (Suc k), row (Suc k) Holding n Tested)"
      using k open_step.store [of "(row k Holding n Tested)(k := Loaded (int k))" k "int k" "int k"]
      by (simp add: race_step_def add.commute)
  qed
  from batch [where f = int, OF this] show ?thesis by simp
qed

lemma batch_close_load: "race_step\<^sup>*\<^sup>* (c, row 0 (Closing c) n Holding) (c, row n (Closing c) n Holding)"
  by (rule batch1 [where f = "\<lambda>k. c"]) (simp add: race_step_def release_step.load del: row_upd)

lemma batch_close_store:
  "race_step\<^sup>*\<^sup>* (c, row 0 Outside n (Closing c)) (if n = 0 then c else c - 1, row n Outside n (Closing c))"
proof -
  have "race_step (d, row k Outside n (Closing c)) (c - 1, (row k Outside n (Closing c))(k := Outside))" if "k < n" for d k
    using release_step.store [of "row k Outside n (Closing c)" k c d] that by (simp add: race_step_def del: row_upd)
  then show ?thesis
    using batch1 [where f = "\<lambda>k. if k = 0 then c else c - 1" and n = n and b = Outside and a = "Closing c"]
    by (simp del: row_upd)
qed

lemma batch_decrement: "race_step\<^sup>*\<^sup>* (c, row 0 Outside n Holding) (c - int n, row n Outside n Holding)"
proof -
  have "race_step\<^sup>*\<^sup>* (c - int k, row k Outside n Holding) (c - int (Suc k), row (Suc k) Outside n Holding)"
    if k: "k < n" for k
  proof (rule two_steps)
    show "race_step (c - int k, row k Outside n Holding) (c - int k, (row k Outside n Holding)(k := Closing (c - int k)))"
      using k by (simp add: race_step_def release_step.load)
    show "race_step (c - int k, (row k Outside n Holding)(k := Closing (c - int k))) (c - int (Suc k), row (Suc k) Outside n Holding)"
      using k release_step.store [of "(row k Outside n Holding)(k := Closing (c - int k))" k "c - int k" "c - int k"]
      by (simp add: race_step_def algebra_simps)
  qed
  from batch [where f = "\<lambda>k. c - int k", OF this] show ?thesis by simp
qed


section \<open>What the races can come to\<close>

text \<open>Any number of processes can be let in, with the counter at that number or at 1.\<close>

lemma race_tested: "race_step\<^sup>*\<^sup>* race_start (0, row 0 x n Tested)"
  using batch_test [of n] unfolding race_start_def row_out(1) row_end [of n Tested Outside x] .

lemma race_all_in: "race_step\<^sup>*\<^sup>* race_start (int n, row 0 x n Holding)"
  using rtranclp_trans [OF race_tested [of Holding n] batch_increment]
  unfolding row_end [of n Holding Tested x] .

lemma race_all_lost: "0 < n \<Longrightarrow> race_step\<^sup>*\<^sup>* race_start (1, row 0 x n Holding)"
proof -
  assume n: "0 < n"
  have "race_step\<^sup>*\<^sup>* race_start (0, row 0 Holding n (Loaded 0))"
    using rtranclp_trans [OF race_tested [of "Loaded 0" n] batch_load]
    unfolding row_end [of n "Loaded 0" Tested Holding] .
  from rtranclp_trans [OF this batch_store] n show ?thesis
    unfolding row_end [of n Holding "Loaded 0" x] by simp
qed

text \<open>Any value can be left in the counter when all have closed the device.\<close>

lemma race_any_counter: "race_step\<^sup>*\<^sup>* race_start (c, \<lambda>_. Outside)"
proof (cases "0 \<le> c")
  case True
  let ?n = "Suc (nat c)"
  have "race_step\<^sup>*\<^sup>* race_start (int ?n, row 0 Outside ?n (Closing (int ?n)))"
    using rtranclp_trans [OF race_all_in batch_close_load, of ?n]
    unfolding row_end [of ?n "Closing (int ?n)" Holding Outside] .
  from rtranclp_trans [OF this batch_close_store] True show ?thesis by (simp add: row_out(2))
next
  case False
  let ?n = "nat (1 - c)"
  have "race_step\<^sup>*\<^sup>* race_start (1, row 0 Outside ?n Holding)" using False by (intro race_all_lost) simp
  from rtranclp_trans [OF this batch_decrement] False show ?thesis by (simp add: row_out(2))
qed

lemma race_stuck: "0 < c \<Longrightarrow> \<not> race_step (c, \<lambda>_. Outside) t"
  by (auto simp: race_step_def elim!: open_step.cases release_step.cases)

text \<open>From a negative counter, \<open>open\<close> lets in several processes that do not even overlap.\<close>

lemma calm_row: "k < n \<Longrightarrow> calm (c, (row k Holding n Outside)(k := x))"
  by (auto simp: calm_def busy_def row_def)

lemma race_sequential:
  "calm_step\<^sup>*\<^sup>* (- int n, \<lambda>_. Outside) (1, \<lambda>i. if i \<le> n then Holding else Outside)"
proof -
  let ?r = "\<lambda>k. row k Holding (Suc n) Outside"
  have "calm_step\<^sup>*\<^sup>* (int k - int n, ?r k) (int (Suc k) - int n, ?r (Suc k))" if k: "k < Suc n" for k
  proof -
    let ?c = "int k - int n"
    note calm = calm_row [OF k]
    have "calm_step (?c, ?r k) (?c, (?r k)(k := Tested))"
      using k calm by (auto simp: calm_step_def race_step_def intro: open_step.test)
    moreover have "calm_step (?c, (?r k)(k := Tested)) (?c, (?r k)(k := Loaded ?c))"
      using calm open_step.load [of "(?r k)(k := Tested)" k ?c] by (simp add: calm_step_def race_step_def)
    moreover have "calm_step (?c, (?r k)(k := Loaded ?c)) (int (Suc k) - int n, ?r (Suc k))"
      using k calm [of _ Holding] open_step.store [of "(?r k)(k := Loaded ?c)" k ?c ?c]
      by (simp add: calm_step_def race_step_def algebra_simps)
    ultimately show ?thesis by (meson converse_rtranclp_into_rtranclp rtranclp.rtrancl_refl)
  qed
  from batch [where f = "\<lambda>k. int k - int n" and R = calm_step, OF this]
  have "calm_step\<^sup>*\<^sup>* (- int n, \<lambda>_. Outside) (1, ?r (Suc n))" by (simp add: row_out(1))
  moreover have "?r (Suc n) = (\<lambda>i. if i \<le> n then Holding else Outside)" by (auto simp: row_def)
  ultimately show ?thesis by simp
qed

end
