(* ===== verification/Kmod_Claims.thy ===== *)
theory Kmod_Claims
  imports Kmod_Race
begin

text \<open>
  The properties of the kernel module of 01-kernel_module/storage.c, from the lemmas of
  the \<open>Kmod\<close> theories.
\<close>


section \<open>Facts for concrete instances\<close>

lemma request_nth: "n = length xs \<Longrightarrow> request ((!) xs) n = xs"
  by (simp add: request_def map_nth)

lemma loaded_free [simp]: "0 \<le> reg \<Longrightarrow> None \<in> set (slots_k (loaded reg))"
  by (simp add: loaded_fields USER_COUNT_k_def)

definition word_ok :: "string \<Rightarrow> bool" where
  "word_ok w \<longleftrightarrow> w \<noteq> [] \<and> (\<forall>c\<in>set w. \<not> is_space c \<and> c \<noteq> NUL)"

lemma word_ok_nul: "word_ok w \<Longrightarrow> NUL \<notin> set w"
  by (auto simp: word_ok_def)

lemma words_sep: "word_ok w \<Longrightarrow> is_space c \<Longrightarrow> words is_space (w @ c # r) = w # words is_space r"
  using words_word [of w is_space "c # r"] by (simp add: word_ok_def)

text \<open>The requests as the README writes them with \<open>echo\<close>.\<close>

definition add_request :: "string \<Rightarrow> string \<Rightarrow> string \<Rightarrow> string \<Rightarrow> string \<Rightarrow> string" where
  "add_request name surname age phone email =
     ''add '' @ name @ '' '' @ surname @ '' '' @ age @ '' '' @ phone @ '' '' @ email @ ''\<newline>''"

definition get_request :: "string \<Rightarrow> string" where
  "get_request surname = ''get '' @ surname @ ''\<newline>''"

definition delete_request :: "string \<Rightarrow> string" where
  "delete_request surname = ''delete '' @ surname @ ''\<newline>''"

lemma is_space_lit [simp]: "is_space CHR '' ''" "is_space CHR 0x0A"
  by (simp_all add: is_space_def)

lemma words_add_request:
  assumes "word_ok n" "word_ok su" "word_ok a" "word_ok p" "word_ok e"
  shows "words is_space (add_request n su a p e) = [''add'', n, su, a, p, e]"
proof -
  have "word_ok ''add''" by (simp add: word_ok_def is_space_def)
  then have "words is_space (''add'' @ CHR '' '' # n @ CHR '' '' # su @ CHR '' '' # a @ CHR '' '' # p @
      CHR '' '' # e @ CHR 0x0A # []) = [''add'', n, su, a, p, e]"
    using assms by (simp only: words_sep is_space_lit words_Nil)
  then show ?thesis by (simp add: add_request_def)
qed

lemma words_get_request: "word_ok su \<Longrightarrow> words is_space (get_request su) = [''get'', su]"
proof -
  assume su: "word_ok su"
  have "word_ok ''get''" by (simp add: word_ok_def is_space_def)
  then have "words is_space (''get'' @ CHR '' '' # su @ CHR 0x0A # []) = [''get'', su]"
    using su by (simp only: words_sep is_space_lit words_Nil)
  then show ?thesis by (simp add: get_request_def)
qed

text \<open>One request, sent as a string.\<close>

definition send :: "allocator \<Rightarrow> string \<Rightarrow> kmod \<Rightarrow> (int \<times> kmod) res" where
  "send A req s = device_write A ((!) req) (length req) s"

lemma send_words:
  assumes "alloc_fresh A" and "alloc_total A" and "store_inv {} s" and "length req \<le> MAX_INP"
    and "NUL \<notin> set req" and "words is_space req \<noteq> []"
  obtains s' where "send A req s = Inr (int (length req), s')" and "store_inv {} s'"
    and "slots_k s' = fst (request_spec (words is_space req) (slots_k s))"
    and "pending s' = Some (snd (request_spec (words is_space req) (slots_k s)))"
  using device_write_words [of A s "length req" "(!) req"] assms that
  by (auto simp: send_def request_nth)


section \<open>Properties\<close>

text \<open>
  C1. Every request of at most 1023 bytes without a zero byte is answered: \<open>device_write\<close>
  returns, keeps the memory invariant (every block of the heap is a string of a taken cell
  or nothing, so no block is leaked, freed twice or used after being freed, and the answer
  fits the output buffer), and the cells and the answer are what the words of the request
  mean; a request of white space only is refused with \<open>-EINVAL\<close> and changes nothing.
\<close>

theorem kmod_request_refines:
  assumes "alloc_fresh A" and "alloc_total A" and "store_inv {} s" and "len \<le> MAX_INP"
    and "NUL \<notin> set (request ubuf len)"
  shows "\<exists>r s'. device_write A ubuf len s = Inr (r, s') \<and> store_inv {} s' \<and>
    (let ws = words is_space (request ubuf len) in
     if ws = [] then r = - EINVAL \<and> s' = s
     else r = int len \<and> slots_k s' = fst (request_spec ws (slots_k s)) \<and>
          pending s' = Some (snd (request_spec ws (slots_k s))))"
proof (cases "words is_space (request ubuf len) = []")
  case True
  have "\<forall>c\<in>set (request ubuf len). is_space c"
  proof (cases "request ubuf len" rule: line_cases [where sp = is_space])
    case (word b w r)
    with True words_split [of b is_space w r] show ?thesis by simp
  qed
  with device_write_blank [OF assms(1-4)] True assms(3) show ?thesis by simp
next
  case False
  with device_write_words [OF assms False] show ?thesis by (auto simp: Let_def)
qed

theorem kmod_request_refines_witness:
  "\<exists>r s'. device_write top_alloc ((!) ''get x'') 5 (loaded 0) = Inr (r, s') \<and> store_inv {} s' \<and>
    r = 5 \<and> pending s' = Some ''NOT FOUND\<newline>''"
proof -
  have req: "request ((!) ''get x'') 5 = ''get x''" by (rule request_nth) simp
  have ws: "words is_space ''get x'' = [''get'', ''x'']"
    using words_sep [of "''get''" "CHR '' ''" "''x''"] words_word [of "''x''" is_space "[]"]
    by (simp add: word_ok_def is_space_def)
  from kmod_request_refines [OF top_alloc_fresh top_alloc_total loaded_inv [of 0], of 5 "(!) ''get x''"]
  show ?thesis
    by (auto simp: req ws Let_def request_spec_def loaded_fields get_text_def MAX_INP_def)
qed

text \<open>
  C25. A request that holds a zero byte, followed by characters the counting loop takes for
  a further word, makes \<open>device_write\<close> use a token pointer that was never written: the
  counting loop runs over the whole request, the splitting loop stops at the zero byte.
\<close>

theorem kmod_zero_byte_stops:
  assumes "alloc_fresh A" and "alloc_total A" and "store_inv {} s" and "len \<le> MAX_INP"
    and "request ubuf len = a @ NUL # b" and "NUL \<notin> set a"
    and "length (words is_space a) < length (words is_space (a @ NUL # b))"
  shows "device_write A ubuf len s = Inl Uninit"
  using assms by (rule device_write_zero_byte)

theorem kmod_zero_byte_stops_witness:
  "device_write top_alloc ((!) (''get'' @ NUL # '' x'')) 6 (loaded 0) = Inl Uninit"
proof -
  have w: "words is_space ''get'' = [''get'']"
    using words_word [of "''get''" is_space "[]"] by (simp add: is_space_def)
  have w2: "words is_space (''get'' @ NUL # '' x'') = [''get'' @ [NUL], ''x'']"
    using words_word [of "''get'' @ [NUL]" is_space "'' x''"] words_word [of "''x''" is_space "[]"]
    by (simp add: is_space_def)
  have req: "request ((!) (''get'' @ NUL # '' x'')) 6 = ''get'' @ NUL # '' x''"
    by (rule request_nth) simp
  show ?thesis
    using kmod_zero_byte_stops [OF top_alloc_fresh top_alloc_total loaded_inv [of 0], of 6
        "(!) (''get'' @ NUL # '' x'')" "''get''" "'' x''"]
      req w w2
    by (simp add: MAX_INP_def)
qed

text \<open>
  C10. A contact added through the device is what a get request for its surname prints: for
  any five words that fit one request, if the surname is new and a cell is free, then add,
  get and one read of the whole buffer return exactly the five fields in the answer's format.
\<close>

theorem kmod_add_get_read:
  assumes A: "alloc_fresh A" "alloc_total A" and inv: "store_inv {} s"
    and w: "word_ok n" "word_ok su" "word_ok a" "word_ok p" "word_ok e"
    and len: "length (add_request n su a p e) \<le> MAX_INP"
    and new: "slot_find csurname su (slots_k s) = None" and free: "None \<in> set (slots_k s)"
  shows "\<exists>s1 s2 s3.
    send A (add_request n su a p e) s = Inr (int (length (add_request n su a p e)), s1) \<and>
    pending s1 = Some ''OK\<newline>'' \<and>
    send A (get_request su) s1 = Inr (int (length (get_request su)), s2) \<and>
    device_read OUTPUT_SIZE s2 =
      Inr (int (length (found_text n su a p e)), found_text n su a p e, s3)"
proof -
  let ?c = "\<lparr>cname = n, csurname = su, cage = a, cphone = p, cemail = e\<rparr>"
  have nul: "NUL \<notin> set (add_request n su a p e)" "NUL \<notin> set (get_request su)"
    using w [THEN word_ok_nul] by (simp_all add: add_request_def get_request_def)
  obtain s1 where s1: "send A (add_request n su a p e) s = Inr (int (length (add_request n su a p e)), s1)"
      "store_inv {} s1" "slots_k s1 = slot_add ?c (slots_k s)" "pending s1 = Some ''OK\<newline>''"
    by (rule send_words [OF A inv len nul(1)])
      (use free in \<open>auto simp: words_add_request [OF w] request_spec_def add_text_def\<close>)
  have found: "slot_find csurname su (slots_k s1) = Some ?c"
    using slot_find_add_same [OF free, of csurname ?c] new s1(3) by simp
  have len2: "length (get_request su) \<le> MAX_INP"
    using len by (simp add: add_request_def get_request_def)
  obtain s2 where s2: "send A (get_request su) s1 = Inr (int (length (get_request su)), s2)"
      "pending s2 = Some (found_text n su a p e)"
    by (rule send_words [OF A s1(2) len2 nul(2)])
      (use found in \<open>auto simp: words_get_request [OF w(2)] request_spec_def get_text_def\<close>)
  have "length (found_text n su a p e) \<le> OUTPUT_SIZE"
    using len by (simp add: found_text_length add_request_def MAX_INP_def OUTPUT_SIZE_def)
  with device_read_pending [OF s2(2), of OUTPUT_SIZE "{}"] s1 s2(1) show ?thesis
    by (auto simp: min_absorb2)
qed

theorem kmod_add_get_read_witness:
  "\<exists>s1 s2 s3.
    send top_alloc (add_request ''Ann'' ''Lee'' ''42'' ''+1'' ''a@b'') (loaded 0) = Inr (22, s1) \<and>
    pending s1 = Some ''OK\<newline>'' \<and> send top_alloc (get_request ''Lee'') s1 = Inr (8, s2) \<and>
    device_read OUTPUT_SIZE s2 = Inr (58, found_text ''Ann'' ''Lee'' ''42'' ''+1'' ''a@b'', s3)"
  using kmod_add_get_read [OF top_alloc_fresh top_alloc_total loaded_inv [of 0],
      of "''Ann''" "''Lee''" "''42''" "''+1''" "''a@b''"]
  by (simp add: word_ok_def is_space_def loaded_fields USER_COUNT_k_def MAX_INP_def add_request_def
      get_request_def found_text_length)

text \<open>
  C36. Reads deliver the pending answer in order, whatever their sizes: the \<open>i\<close>-th read, after reads
  of \<open>o\<close> bytes in total, delivers the next characters from position \<open>o\<close>, as many as it asks for or as are
  left, and returns their number; what the reads together did not ask for stays pending; and
  once the answer is used up, a further read of any size returns 0 and changes nothing.
\<close>

theorem kmod_reads_deliver:
  assumes "pending s = Some m"
  shows "\<exists>results s'. reads ns s = Inr (results, s') \<and> length results = length ns \<and>
    (\<forall>i<length ns. let o' = sum_list (take i ns) in
      results ! i = (int (min (ns ! i) (length m - o')), take (ns ! i) (drop o' m))) \<and>
    concat (map snd results) = take (sum_list ns) m \<and> pending s' = Some (drop (sum_list ns) m) \<and>
    (length m \<le> sum_list ns \<longrightarrow> device_read len s' = Inr (0, [], s'))"
  using assms
proof (induction ns arbitrary: s m)
  case Nil
  then show ?case by (auto simp: device_read_used_up)
next
  case (Cons n ns)
  from device_read_pending [OF Cons.prems, of n] obtain s1 where
    s1: "device_read n s = Inr (int (min n (length m)), take n m, s1)" "pending s1 = Some (drop n m)"
    by blast
  from Cons.IH [OF s1(2)] obtain results s' where
    r: "reads ns s1 = Inr (results, s')" "length results = length ns"
      "\<forall>i<length ns. let o' = sum_list (take i ns) in
        results ! i = (int (min (ns ! i) (length (drop n m) - o')), take (ns ! i) (drop o' (drop n m)))"
      "concat (map snd results) = take (sum_list ns) (drop n m)"
      "pending s' = Some (drop (sum_list ns) (drop n m))"
      "length (drop n m) \<le> sum_list ns \<longrightarrow> device_read len s' = Inr (0, [], s')" by blast
  have "\<forall>i<length (n # ns). let o' = sum_list (take i (n # ns)) in
      ((int (min n (length m)), take n m) # results) ! i =
        (int (min ((n # ns) ! i) (length m - o')), take ((n # ns) ! i) (drop o' m))"
    using r(3) by (auto simp: less_Suc_eq_0_disj Let_def diff_diff_left add.commute)
  moreover have "length m \<le> sum_list (n # ns) \<longrightarrow> device_read len s' = Inr (0, [], s')"
    using r(6) by auto
  ultimately show ?case
    using s1(1) r(1,2,4,5)
    by (intro exI [of _ "(int (min n (length m)), take n m) # results"] exI [of _ s'])
      (simp add: take_add add.commute)
qed

theorem kmod_reads_deliver_witness:
  "\<exists>s'. reads [2, 1, 5] ((loaded 0)\<lparr>output_data := ''OK\<newline>'' @ [NUL], output_ptr := Some 0\<rparr>) =
      Inr ([(2, ''OK''), (1, ''\<newline>''), (0, [])], s') \<and> pending s' = Some []"
proof -
  have three: "rs = [rs ! 0, rs ! 1, rs ! 2]" if "length rs = 3" for rs :: "(int \<times> string) list"
    using that by (auto simp: eval_nat_numeral length_Suc_conv)
  from kmod_reads_deliver [of "(loaded 0)\<lparr>output_data := ''OK\<newline>'' @ [NUL], output_ptr := Some 0\<rparr>"
      "''OK\<newline>''" "[2, 1, 5]" 0]
  obtain rs s' where r: "reads [2, 1, 5] ((loaded 0)\<lparr>output_data := ''OK\<newline>'' @ [NUL], output_ptr := Some 0\<rparr>) = Inr (rs, s')"
      "length rs = 3" "\<forall>i<3. let o' = sum_list (take i [2, 1, 5]) in
        rs ! i = (int (min ([2, 1, 5] ! i) (3 - o')), take ([2, 1, 5] ! i) (drop o' ''OK\<newline>''))"
      "pending s' = Some []"
    by (auto simp: pending_def eval_nat_numeral)
  have "rs ! 0 = (2, ''OK'')" "rs ! 1 = (1, ''\<newline>'')" "rs ! 2 = (0, [])"
    using r(3) [rule_format, of 0] r(3) [rule_format, of 1] r(3) [rule_format, of 2]
    by (simp_all add: Let_def eval_nat_numeral)
  then show ?thesis using three [OF r(2)] r(1,4) by metis
qed

text \<open>
  C11. From load to unload, over every sequence of open, release, reads and requests without
  zero bytes, the memory invariant holds, a further request is answered, and unloading the
  module frees every block that was ever allocated: the heap is empty afterwards.
\<close>

theorem kmod_session_leaks_nothing:
  assumes "alloc_fresh A" and "alloc_total A" and "reach_k A s n"
  shows "store_inv {} s \<and>
    (\<exists>s'. storage_exit s = Inr s' \<and> heap_k s' = Map.empty \<and>
      (\<forall>u\<in>set (users_k s'). status_k u = CHR ''f'')) \<and>
    (\<forall>ubuf len. NUL \<notin> set (request ubuf len) \<longrightarrow> (\<exists>r s'. device_write A ubuf len s = Inr (r, s')))"
proof -
  have inv: "store_inv {} s" using reach_k_inv [OF assms(3,1,2)] by simp
  with storage_exit_frees [OF inv] device_write_inv [OF assms(1,2) inv] show ?thesis by blast
qed

theorem kmod_session_leaks_nothing_witness:
  "\<exists>s s'. reach_k top_alloc s 1 \<and> storage_exit s = Inr s' \<and> heap_k s' = Map.empty"
proof -
  have "device_open True (loaded 0) =
      (0, (loaded 0)\<lparr>module_refs := 1, open_counter := 1\<rparr>)"
    by (simp add: device_open_def loaded_fields)
  from reach_k.open_ok [OF reach_k.load [of 0 top_alloc] this]
  have r: "reach_k top_alloc ((loaded 0)\<lparr>module_refs := 1, open_counter := 1\<rparr>) 1" by simp
  with kmod_session_leaks_nothing [OF top_alloc_fresh top_alloc_total r] show ?thesis by blast
qed

text \<open>
  C26. The tokenizer: on a block that holds a request \<open>s\<close> without zero bytes and its
  terminator, \<open>split_request\<close> returns as many tokens as \<open>s\<close> has words, every cell of the
  token array is written, and the string at the \<open>i\<close>-th token is the \<open>i\<close>-th word.
\<close>

theorem kmod_split_request_words:
  assumes "h p = Some (KBytes (s @ [NUL]))" and "p \<noteq> 0" and "p \<noteq> t" and "NUL \<notin> set s"
    and "words is_space s \<noteq> []" and "A h (sizeof_ptr * length (words is_space s)) = Some t"
  shows "\<exists>m offs.
    split_request A p (length s) h =
      Inr (Some t, length (words is_space s), h(p \<mapsto> KBytes m, t \<mapsto> KPtrs (map Some offs))) \<and>
    length offs = length (words is_space s) \<and>
    (\<forall>i<length offs. c_str (drop (offs ! i) m) = Some (words is_space s ! i))"
proof -
  have "length (words is_space s) \<noteq> 0" using assms(5) by simp
  from split_request_words [where h = h and p = p and t = t and s = s and A = A,
      OF assms(1,2,3,4) refl this assms(6)]
  obtain m offs where sp: "split_request A p (length s) h =
        Inr (Some t, length (words is_space s), h(p \<mapsto> KBytes m, t \<mapsto> KPtrs (map Some offs)))"
      "list_all2 (\<lambda>off w. c_str (drop off m) = Some w) offs (words is_space s)" by blast
  then show ?thesis
    by (intro exI [of _ m] exI [of _ offs]) (simp add: list_all2_conv_all_nth)
qed

theorem kmod_split_request_words_witness:
  "\<exists>m offs. split_request (\<lambda>_ _. Some 2) 1 5 [1 \<mapsto> KBytes (''get x'' @ [NUL])] =
      Inr (Some 2, 2, [1 \<mapsto> KBytes m, 2 \<mapsto> KPtrs (map Some offs)]) \<and> length offs = 2 \<and>
    c_str (drop (offs ! 0) m) = Some ''get'' \<and> c_str (drop (offs ! 1) m) = Some ''x''"
proof -
  have ws: "words is_space ''get x'' = [''get'', ''x'']"
    using words_sep [of "''get''" "CHR '' ''" "''x''"] words_word [of "''x''" is_space "[]"]
    by (simp add: word_ok_def is_space_def)
  from kmod_split_request_words [of "[1 \<mapsto> KBytes (''get x'' @ [NUL])]" 1 "''get x''" 2 "\<lambda>_ _. Some 2"]
  obtain m offs where sp: "split_request (\<lambda>_ _. Some 2) 1 5 [1 \<mapsto> KBytes (''get x'' @ [NUL])] =
        Inr (Some 2, 2, [1 \<mapsto> KBytes m, 2 \<mapsto> KPtrs (map Some offs)])" and offs: "length offs = 2"
      and str: "\<forall>i<2. c_str (drop (offs ! i) m) = Some ([''get'', ''x''] ! i)"
    by (auto simp: ws eval_nat_numeral)
  from str have "c_str (drop (offs ! 0) m) = Some ''get''" "c_str (drop (offs ! 1) m) = Some ''x''"
    using str [rule_format, of 0] str [rule_format, of 1] by simp_all
  with sp offs show ?thesis by blast
qed

text \<open>
  Reading the device before anything was written to it dereferences the null pointer
  \<open>output_ptr\<close>.
\<close>

theorem kmod_read_before_write: "device_read len (loaded reg) = Inl NullDeref"
  by (simp add: device_read_def loaded_def storage_init_def kmod_static_def Let_def)

text \<open>
  Calls that do not overlap: in every reachable state \<open>open\<close> succeeds exactly when
  nobody holds the device, and otherwise returns \<open>-EBUSY\<close> and changes nothing; at most one
  descriptor is open at a time.
\<close>

theorem kmod_exclusive_open:
  assumes "alloc_fresh A" and "alloc_total A" and "reach_k A s n"
  shows "(n = 0 \<or> n = 1) \<and> (fst (device_open got s) = 0 \<longleftrightarrow> n = 0) \<and>
    (n = 1 \<longrightarrow> device_open got s = (- EBUSY, s))"
  using reach_k_inv [OF assms(3,1,2)] by (auto simp: device_open_def EBUSY_def)

theorem kmod_exclusive_open_witness:
  "device_open True ((loaded 0)\<lparr>module_refs := 1, open_counter := 1\<rparr>) =
    (- EBUSY, (loaded 0)\<lparr>module_refs := 1, open_counter := 1\<rparr>)"
proof -
  have "device_open True (loaded 0) = (0, (loaded 0)\<lparr>module_refs := 1, open_counter := 1\<rparr>)"
    by (simp add: device_open_def loaded_fields)
  from reach_k.open_ok [OF reach_k.load [of 0 top_alloc] this]
  have r: "reach_k top_alloc ((loaded 0)\<lparr>module_refs := 1, open_counter := 1\<rparr>) 1" by simp
  from kmod_exclusive_open [OF top_alloc_fresh top_alloc_total r, of True] show ?thesis by simp
qed

text \<open>
  C39. Calls that overlap: the test of \<open>open_counter\<close> and the loads and stores of \<open>++\<close> and \<open>--\<close> are
  separate steps of several processes. As long as no two processes are between these steps at the same
  time, at most one has the device open and the counter is 1 while one holds it, 0 otherwise. But
  without that, any number of processes can come to hold it together; after all have closed it the counter
  can be left at any value; a positive one is there for ever, and no \<open>open\<close> succeeds again; and
  a negative one lets in several processes that do not overlap at all.
\<close>

theorem kmod_open_race:
  "(calm_step\<^sup>*\<^sup>* race_start (counter, pc) \<longrightarrow>
      (pc i \<noteq> Outside \<longrightarrow> pc j \<noteq> Outside \<longrightarrow> i = j) \<and>
      counter = (if \<exists>p. pc p = Holding \<or> (\<exists>v. pc p = Closing v) then 1 else 0)) \<and>
    (\<exists>pc'. race_step\<^sup>*\<^sup>* race_start (int n, pc') \<and> (\<forall>p<n. pc' p = Holding)) \<and>
    race_step\<^sup>*\<^sup>* race_start (c, \<lambda>_. Outside) \<and>
    (0 < c \<longrightarrow> \<not> race_step (c, \<lambda>_. Outside) t) \<and>
    calm_step\<^sup>*\<^sup>* (- int n, \<lambda>_. Outside) (1, \<lambda>p. if p \<le> n then Holding else Outside)"
proof (intro conjI)
  show "calm_step\<^sup>*\<^sup>* race_start (counter, pc) \<longrightarrow>
      (pc i \<noteq> Outside \<longrightarrow> pc j \<noteq> Outside \<longrightarrow> i = j) \<and>
      counter = (if \<exists>p. pc p = Holding \<or> (\<exists>v. pc p = Closing v) then 1 else 0)"
    using calm_counted [THEN countedD(1)] calm_counted [THEN countedD(2)] by blast
  show "\<exists>pc'. race_step\<^sup>*\<^sup>* race_start (int n, pc') \<and> (\<forall>p<n. pc' p = Holding)"
    using race_all_in [of n Outside] by (intro exI conjI) (auto simp: row_def)
  show "race_step\<^sup>*\<^sup>* race_start (c, \<lambda>_. Outside)" by (rule race_any_counter)
  show "0 < c \<longrightarrow> \<not> race_step (c, \<lambda>_. Outside) t" by (blast dest: race_stuck)
  show "calm_step\<^sup>*\<^sup>* (- int n, \<lambda>_. Outside) (1, \<lambda>p. if p \<le> n then Holding else Outside)" by (rule race_sequential)
qed

theorem kmod_open_race_witness:
  "(\<forall>t. \<not> race_step (1, \<lambda>_. Outside) t) \<and> race_step\<^sup>*\<^sup>* race_start (1, \<lambda>_. Outside) \<and>
    (\<exists>pc. race_step\<^sup>*\<^sup>* race_start (2, pc) \<and> pc 0 = Holding \<and> pc 1 = Holding)"
proof -
  note r = kmod_open_race [of 0 "\<lambda>_. Outside" 0 0 2 1]
  from r obtain pc where "race_step\<^sup>*\<^sup>* race_start (int 2, pc)" "\<forall>p<2. pc p = Holding" by blast
  with r show ?thesis by auto
qed

text \<open>
  C37. The table holds 1024 contacts, no more: after loading, any 1024 contacts can be added
  and are all held, and the next addition answers with the error and changes no cell.
\<close>

theorem kmod_capacity:
  assumes A: "alloc_fresh A" "alloc_total A" and reg: "0 \<le> reg"
    and cs: "length cs = USER_COUNT_k" "\<forall>c\<in>set cs. contact_wf c" and d: "contact_wf d"
  shows "\<exists>s s'. contact_store.adds (kadd A) cs (loaded reg) = Inr s \<and>
    slot_entries (slots_k s) = mset cs \<and> kadd A d s = Inr (False, s') \<and> slots_k s' = slots_k s"
proof -
  have inv: "alloc_fresh A \<and> alloc_total A \<and> store_inv {} (loaded reg)"
    using A loaded_inv [OF reg] by simp
  have "size (slot_entries (slots_k (loaded reg))) + length cs \<le> length (slots_k (loaded reg))"
    using cs by (simp add: loaded_fields [OF reg])
  from kst.adds_entries [OF inv cs(2) this] obtain s where
    s: "contact_store.adds (kadd A) cs (loaded reg) = Inr s"
      "alloc_fresh A \<and> alloc_total A \<and> store_inv {} s" "slot_entries (slots_k s) = mset cs"
    by (auto simp: loaded_fields [OF reg])
  have "length (slots_k s) = USER_COUNT_k" using s(2) by (simp add: slots_k_def store_inv_def)
  then have full: "size (slot_entries (slots_k s)) = length (slots_k s)" using s(3) cs(1) by simp
  from kst.add_law [OF s(2) d] obtain b s' where add: "kadd A d s = Inr (b, s')" by blast
  with kst.add_fails_iff_full [OF s(2) d add] full have "\<not> b" "slots_k s' = slots_k s" by auto
  with s add show ?thesis by auto
qed

definition sample_contact :: contact_k where
  "sample_contact = \<lparr>cname = ''n'', csurname = ''s'', cage = ''1'', cphone = ''2'', cemail = ''e''\<rparr>"

lemma sample_contact_wf: "contact_wf sample_contact"
  by (simp add: sample_contact_def contact_wf_def contact_size_def CONTACT_MAX_def)

theorem kmod_capacity_witness:
  "\<exists>s s'. contact_store.adds (kadd top_alloc) (replicate USER_COUNT_k sample_contact) (loaded 0) = Inr s \<and>
    slot_entries (slots_k s) = mset (replicate USER_COUNT_k sample_contact) \<and>
    kadd top_alloc sample_contact s = Inr (False, s') \<and> slots_k s' = slots_k s"
  using kmod_capacity [OF top_alloc_fresh top_alloc_total, of 0 "replicate USER_COUNT_k sample_contact"
      sample_contact] sample_contact_wf by simp

text \<open>
  C24. delete removes one contact, the one get prints for the surname, and no other: the answer is
  OK exactly when the surname is known, the contacts before are those left and that one, an
  unknown surname leaves every cell as it was, and a get for another surname prints the same as
  before.
\<close>

theorem kmod_delete_removes_one:
  assumes A: "alloc_fresh A" "alloc_total A" and inv: "store_inv {} s"
    and k: "NUL \<notin> set k" "NUL \<notin> set k'" "k' \<noteq> k"
  shows "\<exists>s'. kdel k s = Inr (slot_find csurname k (slots_k s) \<noteq> None, s') \<and> store_inv {} s' \<and>
    (case slot_find csurname k (slots_k s) of
       Some c \<Rightarrow> pending s' = Some ''OK\<newline>'' \<and> klook k s = Inr (get_text (Some c)) \<and>
         slot_entries (slots_k s) = add_mset c (slot_entries (slots_k s'))
     | None \<Rightarrow> pending s' \<noteq> Some ''OK\<newline>'' \<and> klook k s = Inr (get_text None) \<and> slots_k s' = slots_k s) \<and>
    klook k' s' = klook k' s"
proof -
  have i: "alloc_fresh A \<and> alloc_total A \<and> store_inv {} s" using A inv by simp
  from kst.del_law [OF i k(1)] obtain s' where
    d: "kdel k s = Inr (slot_find csurname k (slots_k s) \<noteq> None, s')" "store_inv {} s'"
      "slots_k s' = slot_del csurname k (slots_k s)" by auto
  from d(1) have ok: "pending s' = Some ''OK\<newline>'' \<longleftrightarrow> slot_find csurname k (slots_k s) \<noteq> None"
    by (auto simp: kdel_def rbind_eq_Inr)
  note look = kst.look_law [OF i k(1)] and other = kst.look_after_del_other [OF i k(1,2) k(3) [symmetric] d(1)]
  show ?thesis
  proof (cases "slot_find csurname k (slots_k s)")
    case None
    with d ok look other slot_del_absent [OF None] show ?thesis by simp
  next
    case (Some c)
    with d ok look other kst.del_removes [OF i k(1) Some d(1)] show ?thesis by simp
  qed
qed

theorem kmod_delete_removes_one_witness:
  "\<exists>s s'. kdel ''s'' s = Inr (True, s') \<and> slot_entries (slots_k s) = {#sample_contact#} \<and>
    slot_entries (slots_k s') = {#} \<and> klook ''t'' s' = klook ''t'' s"
proof -
  have i: "alloc_fresh top_alloc \<and> alloc_total top_alloc \<and> store_inv {} (loaded 0)"
    using top_alloc_fresh top_alloc_total loaded_inv [of 0] by simp
  from kst.add_law [OF i sample_contact_wf] obtain s where s: "store_inv {} s"
      "slots_k s = slot_add sample_contact (slots_k (loaded 0))" by auto
  have "None \<in> set (slots_k (loaded 0))" by simp
  with s(2) have "slot_entries (slots_k s) = {#sample_contact#}"
      "slot_find csurname ''s'' (slots_k s) = Some sample_contact"
    using slot_find_add_same [of "slots_k (loaded 0)" csurname sample_contact]
    by (simp_all add: entries_add loaded_fields sample_contact_def)
  with kmod_delete_removes_one [OF top_alloc_fresh top_alloc_total s(1), of "''s''" "''t''"]
  show ?thesis by auto
qed

end
