(* ===== verification/Sys_Store.thy ===== *)
theory Sys_Store
  imports Contact_Spec
begin

text \<open>
  The contact storage as system calls (03-sys_call/contact_storage/storage.c): the table of
  fixed-size records, its three local functions and the system calls add, get and delete.

  Kernel services are parameters: \<open>got\<close> says whether \<open>kmalloc\<close> returned a block, \<open>ubuf n\<close>
  is what \<open>copy_from_user\<close> delivers for \<open>n\<close> bytes of the caller's pointer (\<open>None\<close> when it
  reports bytes it could not copy), \<open>ctu old bytes\<close> what \<open>copy_to_user\<close> returns and leaves
  in a buffer of the caller that held \<open>old\<close>. \<open>live\<close> counts the blocks that are allocated
  and not yet freed.
\<close>


section \<open>State\<close>

definition USER_DATA_INPUT_MAX :: nat where "USER_DATA_INPUT_MAX = 1024"
definition MAX_INPUT_SIZE :: nat where "MAX_INPUT_SIZE = 1023"
definition USER_COUNT_s :: nat where "USER_COUNT_s = 1024"

text \<open>The structure of include/linux/user_data.h, four arrays that lie one after the other.\<close>

record user_data =
  ud_name :: "char list"
  ud_surname :: "char list"
  ud_phone :: "char list"
  ud_email :: "char list"

definition ud_bytes :: "user_data \<Rightarrow> char list" where
  "ud_bytes d = ud_name d @ ud_surname d @ ud_phone d @ ud_email d"

definition sizeof_user_data :: nat where
  "sizeof_user_data = 4 * USER_DATA_INPUT_MAX"

record User_s =
  name_s :: "char list"
  surname_s :: "char list"
  phone_s :: "char list"
  email_s :: "char list"
  status_s :: char

record sysmod =
  users_s :: "User_s list"
  initialized :: int
  live :: int

definition zero_array :: "char list" where
  "zero_array = replicate USER_DATA_INPUT_MAX NUL"

definition zero_User_s :: User_s where
  "zero_User_s = \<lparr>name_s = zero_array, surname_s = zero_array, phone_s = zero_array,
     email_s = zero_array, status_s = NUL\<rparr>"

definition sys_static :: sysmod where
  "sys_static = \<lparr>users_s = replicate USER_COUNT_s zero_User_s, initialized = 0, live = 0\<rparr>"

text \<open>The block at the start of every system call.\<close>

definition init_users :: "sysmod \<Rightarrow> sysmod" where
  "init_users s =
     (if initialized s = 0 then
        s\<lparr>users_s := map (\<lambda>u. u\<lparr>status_s := CHR ''f''\<rparr>) (users_s s), initialized := 1\<rparr>
      else s)"


section \<open>Local functions\<close>

text \<open>
  \<open>copy_string(result, data)\<close>: \<open>data\<close> is the memory from the pointer to the end of the
  object it points into; \<open>strlen\<close> runs over all of it, the loop then copies 1024 characters
  whatever the length is, and a terminator is stored.
\<close>

definition copy_string_s :: "char list \<Rightarrow> char list \<Rightarrow> (int \<times> char list) res" where
  "copy_string_s result data =
     rbind (need OutOfBounds (c_str data)) (\<lambda>str.
     let size = length str in
     if size > MAX_INPUT_SIZE then Inr (-1, result)
     else if length data < USER_DATA_INPUT_MAX then Inl OutOfBounds
     else Inr (0, (take USER_DATA_INPUT_MAX data)[size := NUL]))"

text \<open>\<open>current_user\<close> is a block of 4096 bytes; the fields are pointers into it.\<close>

definition add_user_note_s :: "char list \<Rightarrow> sysmod \<Rightarrow> (int \<times> sysmod) res" where
  "add_user_note_s current_user s =
     (case find_first (\<lambda>u. status_s u = CHR ''f'') (users_s s) of
        None \<Rightarrow> Inr (-1, s)
      | Some index \<Rightarrow>
          let put = (\<lambda>u. s\<lparr>users_s := (users_s s)[index := u]\<rparr>); u = users_s s ! index in
          rbind (copy_string_s (name_s u) current_user) (\<lambda>(r, a).
          let u = u\<lparr>name_s := a\<rparr> in
          if r \<noteq> 0 then Inr (-1, put u)
          else rbind (copy_string_s (surname_s u) (drop USER_DATA_INPUT_MAX current_user)) (\<lambda>(r, a).
          let u = u\<lparr>surname_s := a\<rparr> in
          if r \<noteq> 0 then Inr (-1, put u)
          else rbind (copy_string_s (phone_s u) (drop (2 * USER_DATA_INPUT_MAX) current_user)) (\<lambda>(r, a).
          let u = u\<lparr>phone_s := a\<rparr> in
          if r \<noteq> 0 then Inr (-1, put u)
          else rbind (copy_string_s (email_s u) (drop (3 * USER_DATA_INPUT_MAX) current_user)) (\<lambda>(r, a).
          let u = u\<lparr>email_s := a\<rparr> in
          if r \<noteq> 0 then Inr (-1, put u)
          else Inr (0, put (u\<lparr>status_s := CHR ''t''\<rparr>)))))))"

text \<open>The search loop, over the cells from a given one on.\<close>

fun find_user_s :: "char list \<Rightarrow> User_s list \<Rightarrow> nat option res" where
  "find_user_s surname [] = Inr None"
| "find_user_s surname (u # us) =
     (if status_s u = CHR ''t'' then
        rbind (need OutOfBounds (strcmp0 surname (surname_s u))) (\<lambda>eq.
        if eq then Inr (Some 0)
        else rbind (find_user_s surname us) (\<lambda>r. Inr (map_option Suc r)))
      else rbind (find_user_s surname us) (\<lambda>r. Inr (map_option Suc r)))"

definition get_user_note_s :: "char list \<Rightarrow> sysmod \<Rightarrow> int res" where
  "get_user_note_s surname s =
     rbind (find_user_s surname (users_s s)) (\<lambda>r.
     Inr (case r of None \<Rightarrow> -1 | Some index \<Rightarrow> int index))"

definition delete_user_note_s :: "char list \<Rightarrow> sysmod \<Rightarrow> (int \<times> sysmod) res" where
  "delete_user_note_s surname s =
     rbind (find_user_s surname (users_s s)) (\<lambda>r.
     Inr (case r of
            None \<Rightarrow> (-1, s)
          | Some index \<Rightarrow>
              (int index, s\<lparr>users_s := (users_s s)[index := (users_s s ! index)\<lparr>status_s := CHR ''f''\<rparr>]\<rparr>)))"


section \<open>System calls\<close>

type_synonym user_reader = "nat \<Rightarrow> char list option"
type_synonym user_writer = "char list \<Rightarrow> char list \<Rightarrow> int \<times> char list"

definition kmalloc_s :: "bool \<Rightarrow> sysmod \<Rightarrow> sysmod res" where
  "kmalloc_s got s = (if got then Inr (s\<lparr>live := live s + 1\<rparr>) else Inl NullDeref)"

definition kfree_s :: "sysmod \<Rightarrow> sysmod" where
  "kfree_s s = s\<lparr>live := live s - 1\<rparr>"

text \<open>The chain of four \<open>copy_to_user\<close> calls; the first that fails ends it.\<close>

definition copy_out :: "user_writer \<Rightarrow> User_s \<Rightarrow> user_data \<Rightarrow> int \<times> user_data" where
  "copy_out ctu u out =
     (let (r, b) = ctu (ud_name out) (name_s u); out = out\<lparr>ud_name := b\<rparr> in
      if r \<noteq> 0 then (-1, out)
      else let (r, b) = ctu (ud_surname out) (surname_s u); out = out\<lparr>ud_surname := b\<rparr> in
      if r \<noteq> 0 then (-1, out)
      else let (r, b) = ctu (ud_email out) (email_s u); out = out\<lparr>ud_email := b\<rparr> in
      if r \<noteq> 0 then (-1, out)
      else let (r, b) = ctu (ud_phone out) (phone_s u); out = out\<lparr>ud_phone := b\<rparr> in
      if r \<noteq> 0 then (-1, out) else (0, out))"

definition sys_get_user ::
  "bool \<Rightarrow> user_reader \<Rightarrow> nat \<Rightarrow> user_writer \<Rightarrow> user_data \<Rightarrow> sysmod \<Rightarrow> (int \<times> user_data \<times> sysmod) res"
  where
  "sys_get_user got ubuf len ctu out s =
     (let s = init_users s in
      if len > MAX_INPUT_SIZE then Inr (-1, out, s)
      else
        rbind (kmalloc_s got s) (\<lambda>s.
        case ubuf len of
          None \<Rightarrow> Inr (-1, out, kfree_s s)
        | Some bytes \<Rightarrow>
            rbind (get_user_note_s (bytes @ [NUL]) s) (\<lambda>result_index.
            let s = kfree_s s in
            if result_index = -1 then Inr (-1, out, s)
            else
              let (r, out) = copy_out ctu (users_s s ! nat result_index) out in
              Inr (r, out, s))))"

definition sys_add_user :: "bool \<Rightarrow> user_reader \<Rightarrow> sysmod \<Rightarrow> (int \<times> sysmod) res" where
  "sys_add_user got ubuf s =
     (let s = init_users s in
      rbind (kmalloc_s got s) (\<lambda>s.
      case ubuf sizeof_user_data of
        None \<Rightarrow> Inr (-1, kfree_s s)
      | Some bytes \<Rightarrow>
          rbind (add_user_note_s bytes s) (\<lambda>(r, s).
          if r \<noteq> 0 then Inr (-1, kfree_s s) else Inr (0, kfree_s s))))"

definition sys_del_user :: "bool \<Rightarrow> user_reader \<Rightarrow> nat \<Rightarrow> sysmod \<Rightarrow> (int \<times> sysmod) res" where
  "sys_del_user got ubuf len s =
     (let s = init_users s in
      if len > MAX_INPUT_SIZE then Inr (-1, s)
      else
        rbind (kmalloc_s got s) (\<lambda>s.
        case ubuf len of
          None \<Rightarrow> Inr (-1, kfree_s s)
        | Some bytes \<Rightarrow>
            rbind (delete_user_note_s (bytes @ [NUL]) s) (\<lambda>(r, s).
            if r = -1 then Inr (-1, kfree_s s) else Inr (0, kfree_s s))))"

end
