(* ===== verification/Sys_Proofs.thy ===== *)
theory Sys_Proofs
  imports Sys_Store
begin

text \<open>
  The invariant of the system-call storage, what each call does to the cells, and the proof
  that it implements \<open>contact_store\<close>.
\<close>

section \<open>Arrays\<close>

definition array_ok :: "char list \<Rightarrow> bool" where
  "array_ok a \<longleftrightarrow> length a = USER_DATA_INPUT_MAX \<and> NUL \<in> set a"

definition ud_wf :: "user_data \<Rightarrow> bool" where
  "ud_wf d \<longleftrightarrow> array_ok (ud_name d) \<and> array_ok (ud_surname d) \<and> array_ok (ud_phone d) \<and>
     array_ok (ud_email d)"

text \<open>The surname, as \<open>strcmp\<close> reads it.\<close>

definition ud_key :: "user_data \<Rightarrow> string" where
  "ud_key d = (case c_str (ud_surname d) of None \<Rightarrow> [] | Some k \<Rightarrow> k)"

lemma array_okE:
  assumes "array_ok a"
  obtains str where "c_str a = Some str" and "length str \<le> MAX_INPUT_SIZE" and "NUL \<notin> set str"
    and "length a = USER_DATA_INPUT_MAX"
proof -
  from assms have "c_str a \<noteq> None" by (simp add: array_ok_def c_str_None_iff)
  then obtain str where str: "c_str a = Some str" by blast
  with assms c_str_length [OF str] c_str_no_nul [OF str] that show ?thesis
    by (simp add: array_ok_def USER_DATA_INPUT_MAX_def MAX_INPUT_SIZE_def)
qed

lemma c_str_more: "c_str a = Some str \<Longrightarrow> c_str (a @ r) = Some str"
  by (elim c_str_SomeE) (simp add: c_str_append)

lemma c_str_update: "c_str a = Some str \<Longrightarrow> a[length str := NUL] = a"
  by (elim c_str_SomeE) simp

text \<open>A terminated array is copied unchanged, whatever follows it.\<close>

lemma copy_string_s_ok: "array_ok a \<Longrightarrow> copy_string_s old (a @ rest) = Inr (0, a)"
  by (erule array_okE) (simp add: copy_string_s_def c_str_more c_str_update Let_def)

text \<open>
  An array without terminator makes \<open>strlen\<close> run on: with a terminator later in the object
  the length is above the limit and the copy is refused, without one the read leaves the
  object.
\<close>

lemma copy_string_s_long:
  assumes "length a = USER_DATA_INPUT_MAX" and "NUL \<notin> set a" and "NUL \<in> set rest"
  shows "copy_string_s old (a @ rest) = Inr (-1, old)"
proof -
  from assms(2,3) have "c_str (a @ rest) \<noteq> None" by (simp add: c_str_None_iff)
  then obtain str where str: "c_str (a @ rest) = Some str" by blast
  then obtain r where r: "a @ rest = str @ NUL # r" by (auto elim: c_str_SomeE)
  have "\<not> length str < length a"
  proof
    assume "length str < length a"
    then have "(a @ rest) ! length str = a ! length str" by (simp add: nth_append)
    with r have "a ! length str = NUL" by simp
    with \<open>length str < length a\<close> assms(2) show False by (metis nth_mem)
  qed
  with str assms(1) show ?thesis
    by (simp add: copy_string_s_def Let_def USER_DATA_INPUT_MAX_def MAX_INPUT_SIZE_def)
qed

lemma copy_string_s_outside: "NUL \<notin> set data \<Longrightarrow> copy_string_s old data = Inl OutOfBounds"
  using c_str_None_iff [of data] by (simp add: copy_string_s_def)


section \<open>The invariant\<close>

definition slot_s :: "User_s \<Rightarrow> user_data option" where
  "slot_s u =
     (if status_s u = CHR ''t'' then
        Some \<lparr>ud_name = name_s u, ud_surname = surname_s u, ud_phone = phone_s u, ud_email = email_s u\<rparr>
      else None)"

definition slots_s :: "sysmod \<Rightarrow> user_data option list" where
  "slots_s s = map slot_s (users_s s)"

text \<open>The arrays of a cell have the length the structure declares, whatever its status.\<close>

definition cell_shape :: "User_s \<Rightarrow> bool" where
  "cell_shape u \<longleftrightarrow> length (name_s u) = USER_DATA_INPUT_MAX \<and> length (surname_s u) = USER_DATA_INPUT_MAX \<and>
     length (phone_s u) = USER_DATA_INPUT_MAX \<and> length (email_s u) = USER_DATA_INPUT_MAX"

lemma cell_shape_status [simp]: "cell_shape (u\<lparr>status_s := c\<rparr>) = cell_shape u"
  by (simp add: cell_shape_def)

definition sys_inv :: "sysmod \<Rightarrow> bool" where
  "sys_inv s \<longleftrightarrow>
     length (users_s s) = USER_COUNT_s \<and> (\<forall>u\<in>set (users_s s). cell_shape u) \<and>
     (\<forall>d. Some d \<in> set (slots_s s) \<longrightarrow> ud_wf d) \<and>
     (if initialized s = 0 then \<forall>u\<in>set (users_s s). status_s u \<noteq> CHR ''t''
      else \<forall>u\<in>set (users_s s). status_s u = CHR ''f'' \<or> status_s u = CHR ''t'')"

definition ready :: "sysmod \<Rightarrow> bool" where
  "ready s \<longleftrightarrow> sys_inv s \<and> initialized s \<noteq> 0"

lemma sys_static_inv: "sys_inv sys_static"
  by (auto simp: sys_inv_def sys_static_def slots_s_def slot_s_def zero_User_s_def cell_shape_def zero_array_def)

lemma slots_static: "slots_s sys_static = replicate USER_COUNT_s None"
  by (simp add: slots_s_def sys_static_def slot_s_def zero_User_s_def)

text \<open>The initialisation at the start of a call makes the table ready and changes no cell.\<close>

lemma init_users_ready:
  assumes "sys_inv s"
  shows "ready (init_users s) \<and> slots_s (init_users s) = slots_s s \<and> live (init_users s) = live s"
proof (cases "initialized s = 0")
  case True
  with assms have "slots_s s = map (\<lambda>u. None) (users_s s)"
      "slots_s (init_users s) = map (\<lambda>u. None) (users_s s)"
    by (simp_all add: sys_inv_def slots_s_def slot_s_def init_users_def)
  with assms True show ?thesis
    by (auto simp: ready_def sys_inv_def init_users_def)
next
  case False
  with assms show ?thesis by (simp add: init_users_def ready_def)
qed

lemma ready_live [simp]: "ready (s\<lparr>live := n\<rparr>) = ready s"
  by (simp add: ready_def sys_inv_def slots_s_def)

lemma slots_s_live [simp]: "slots_s (s\<lparr>live := n\<rparr>) = slots_s s"
  by (simp add: slots_s_def)

lemma ready_inv: "ready s \<Longrightarrow> sys_inv s"
  by (simp add: ready_def)

lemma ready_shape: "ready s \<Longrightarrow> i < length (users_s s) \<Longrightarrow> cell_shape (users_s s ! i)"
  by (simp add: ready_def sys_inv_def)

lemma ready_free:
  assumes "ready s"
  shows "find_first (\<lambda>u. status_s u = CHR ''f'') (users_s s) =
    find_first (\<lambda>x. x = None) (slots_s s)"
proof -
  have "status_s u = CHR ''f'' \<longleftrightarrow> slot_s u = None" if "u \<in> set (users_s s)" for u
    using assms that by (auto simp: ready_def sys_inv_def slot_s_def)
  then show ?thesis unfolding slots_s_def find_first_map by (rule find_first_cong)
qed

text \<open>Writing a cell that is free stays within the invariant.\<close>

lemma ready_update:
  assumes "ready s" and "i < length (users_s s)"
    and "status_s u = CHR ''f'' \<or> status_s u = CHR ''t''" and "\<And>d. slot_s u = Some d \<Longrightarrow> ud_wf d"
    and "cell_shape u"
  shows "ready (s\<lparr>users_s := (users_s s)[i := u]\<rparr>) \<and>
    slots_s (s\<lparr>users_s := (users_s s)[i := u]\<rparr>) = (slots_s s)[i := slot_s u]"
proof -
  let ?s = "s\<lparr>users_s := (users_s s)[i := u]\<rparr>"
  have slots: "slots_s ?s = (slots_s s)[i := slot_s u]"
    by (simp add: slots_s_def map_update)
  have "ud_wf d" if "Some d \<in> set (slots_s ?s)" for d
    using that assms set_update_subset_insert [of "slots_s s" i "slot_s u"] slots
    by (auto simp: ready_def sys_inv_def)
  moreover have "cell_shape v \<and> (status_s v = CHR ''f'' \<or> status_s v = CHR ''t'')" if "v \<in> set (users_s ?s)" for v
  proof -
    from that set_update_subset_insert [of "users_s s" i u] have "v = u \<or> v \<in> set (users_s s)" by auto
    with assms show ?thesis by (auto simp: ready_def sys_inv_def)
  qed
  ultimately show ?thesis
    using assms slots by (auto simp: ready_def sys_inv_def)
qed


section \<open>add\<close>

lemma drop_fields:
  assumes "ud_wf d"
  shows "drop USER_DATA_INPUT_MAX (ud_bytes d) = ud_surname d @ ud_phone d @ ud_email d"
    and "drop (2 * USER_DATA_INPUT_MAX) (ud_bytes d) = ud_phone d @ ud_email d"
    and "drop (3 * USER_DATA_INPUT_MAX) (ud_bytes d) = ud_email d"
  using assms by (simp_all add: ud_wf_def array_ok_def ud_bytes_def)

lemma add_user_note_s_spec:
  assumes "ready s" and wf: "ud_wf d"
  shows "\<exists>s'. add_user_note_s (ud_bytes d) s =
      Inr (if None \<in> set (slots_s s) then 0 else -1, s') \<and>
    ready s' \<and> slots_s s' = slot_add d (slots_s s) \<and> live s' = live s"
proof (cases "find_first (\<lambda>x. x = None) (slots_s s)")
  case None
  then have "None \<notin> set (slots_s s)" by (auto simp: find_first_None_iff)
  with None assms show ?thesis
    by (simp add: add_user_note_s_def ready_free slot_add_full)
next
  case (Some i)
  then have i: "i < length (users_s s)" "slots_s s ! i = None"
    by (auto simp: find_first_Some_iff slots_s_def)
  then have free: "None \<in> set (slots_s s)"
    by (metis length_map nth_mem slots_s_def)
  let ?u = "(users_s s ! i)\<lparr>name_s := ud_name d, surname_s := ud_surname d, phone_s := ud_phone d,
      email_s := ud_email d, status_s := CHR ''t''\<rparr>"
  have su: "slot_s ?u = Some d" by (simp add: slot_s_def)
  have copies: "copy_string_s old (ud_bytes d) = Inr (0, ud_name d)"
      "copy_string_s old (drop USER_DATA_INPUT_MAX (ud_bytes d)) = Inr (0, ud_surname d)"
      "copy_string_s old (drop (2 * USER_DATA_INPUT_MAX) (ud_bytes d)) = Inr (0, ud_phone d)"
      "copy_string_s old (drop (3 * USER_DATA_INPUT_MAX) (ud_bytes d)) = Inr (0, ud_email d)" for old
    using wf copy_string_s_ok [of "ud_email d" old "[]"] unfolding drop_fields [OF wf]
    by (simp_all add: copy_string_s_ok ud_wf_def ud_bytes_def)
  have "add_user_note_s (ud_bytes d) s = Inr (0, s\<lparr>users_s := (users_s s)[i := ?u]\<rparr>)"
    using Some assms(1) by (simp add: add_user_note_s_def ready_free copies Let_def)
  moreover have "cell_shape ?u" using wf by (simp add: cell_shape_def ud_wf_def array_ok_def)
  ultimately show ?thesis
    using ready_update [OF assms(1) i(1), of ?u] su wf Some free by (simp add: slot_add_find_first)
qed

section \<open>get and delete\<close>

lemma find_user_s_slots:
  assumes "\<forall>d. Some d \<in> set (map slot_s us) \<longrightarrow> ud_wf d" and "NUL \<notin> set k"
  shows "find_user_s (k @ NUL # e) us = Inr (find_first (slot_match ud_key k) (map slot_s us))"
  using assms(1)
proof (induction us)
  case Nil
  then show ?case by simp
next
  case (Cons u us)
  have IH: "find_user_s (k @ NUL # e) us = Inr (find_first (slot_match ud_key k) (map slot_s us))"
    using Cons by auto
  show ?case
  proof (cases "status_s u = CHR ''t''")
    case True
    let ?d = "\<lparr>ud_name = name_s u, ud_surname = surname_s u, ud_phone = phone_s u, ud_email = email_s u\<rparr>"
    have su: "slot_s u = Some ?d" using True by (simp add: slot_s_def)
    with Cons.prems have "array_ok (surname_s u)" by (auto simp: ud_wf_def)
    then obtain str where str: "c_str (surname_s u) = Some str" by (rule array_okE)
    have "strcmp0 (k @ NUL # e) (surname_s u) = Some (k = str)"
      using strcmp0_c_str [OF c_str_append [OF assms(2)] str] .
    moreover have "ud_key ?d = str" using str by (simp add: ud_key_def)
    ultimately show ?thesis using True su IH by auto
  next
    case False
    then have "slot_s u = None" by (simp add: slot_s_def)
    with False IH show ?thesis by simp
  qed
qed

lemma ready_search:
  "ready s \<Longrightarrow> NUL \<notin> set k \<Longrightarrow>
    find_user_s (k @ NUL # e) (users_s s) = Inr (find_first (slot_match ud_key k) (slots_s s))"
  by (simp add: find_user_s_slots ready_def sys_inv_def slots_s_def)

lemma delete_user_note_s_bytes:
  assumes "ready s" and "NUL \<notin> set k"
  shows "\<exists>r s'. delete_user_note_s (k @ NUL # e) s = Inr (r, s') \<and>
    (r = -1 \<longrightarrow> slots_s s' = slots_s s) \<and>
    (r = -1 \<longleftrightarrow> slot_find ud_key k (slots_s s) = None) \<and> ready s' \<and>
    slots_s s' = slot_del ud_key k (slots_s s) \<and> live s' = live s"
proof (cases "find_first (slot_match ud_key k) (slots_s s)")
  case None
  with ready_search [OF assms] assms(1) show ?thesis
    by (simp add: delete_user_note_s_def slot_find_find_first slot_del_find_first)
next
  case (Some i)
  then have i: "i < length (users_s s)" "slot_match ud_key k (slots_s s ! i)"
    by (auto simp: find_first_Some_iff slots_s_def)
  let ?u = "(users_s s ! i)\<lparr>status_s := CHR ''f''\<rparr>"
  have "slot_s ?u = None" by (simp add: slot_s_def)
  with ready_update [OF assms(1) i(1), of ?u] ready_shape [OF assms(1) i(1)] ready_search [OF assms] Some i(2)
  show ?thesis
    by (cases "slots_s s ! i")
      (auto simp: delete_user_note_s_def slot_find_find_first slot_del_find_first)
qed

text \<open>The four arrays reach the caller when \<open>copy_to_user\<close> copies everything.\<close>

definition writes_all :: "user_writer \<Rightarrow> bool" where
  "writes_all ctu \<longleftrightarrow> (\<forall>old bytes. ctu old bytes = (0, bytes))"

lemma copy_out_all:
  "writes_all ctu \<Longrightarrow> slot_s u = Some d \<Longrightarrow> copy_out ctu u out = (0, d)"
  by (auto simp: writes_all_def copy_out_def slot_s_def split: if_splits)

definition get_view :: "user_data \<Rightarrow> user_data option \<Rightarrow> int \<times> user_data" where
  "get_view out r = (case r of None \<Rightarrow> (-1, out) | Some d \<Rightarrow> (0, d))"

text \<open>What the caller's memory holds: \<open>copy_from_user\<close> delivers any prefix of \<open>bytes\<close>.\<close>

definition holds :: "char list \<Rightarrow> user_reader" where
  "holds bytes n = (if n \<le> length bytes then Some (take n bytes) else None)"

lemma sys_get_user_spec:
  assumes "sys_inv s" and k: "NUL \<notin> set k" "length k \<le> MAX_INPUT_SIZE" and "writes_all ctu"
  shows "\<exists>r out' s'. sys_get_user True (holds k) (length k) ctu out s = Inr (r, out', s') \<and>
    (r, out') = get_view out (slot_find ud_key k (slots_s s)) \<and> sys_inv s' \<and> slots_s s' = slots_s s \<and>
    live s' = live s"
proof -
  let ?s = "init_users s" and ?f = "find_first (slot_match ud_key k) (slots_s s)"
  from init_users_ready [OF assms(1)] have rdy: "ready ?s" "slots_s ?s = slots_s s" "live ?s = live s"
    by auto
  have search: "find_user_s (k @ [NUL]) (users_s ?s) = Inr ?f"
    using ready_search [OF rdy(1) k(1)] rdy(2) by simp
  show ?thesis
  proof (cases ?f)
    case None
    with search rdy k show ?thesis
      by (simp add: sys_get_user_def Let_def kmalloc_s_def holds_def get_user_note_s_def kfree_s_def
          slot_find_find_first get_view_def ready_inv)
  next
    case (Some i)
    then have i: "i < length (slots_s s)" "slot_match ud_key k (slots_s s ! i)"
      by (auto simp: find_first_Some_iff)
    then obtain d where d: "slots_s s ! i = Some d" by (cases "slots_s s ! i") auto
    have "slot_s (users_s ?s ! i) = Some d"
      using d i(1) rdy(2) by (metis length_map nth_map slots_s_def)
    with Some d search rdy k copy_out_all [OF assms(4)] show ?thesis
      by (simp add: sys_get_user_def Let_def kmalloc_s_def holds_def get_user_note_s_def kfree_s_def
          slot_find_find_first get_view_def ready_inv)
  qed
qed

lemma sys_del_user_spec:
  assumes "sys_inv s" and k: "NUL \<notin> set k" "length k \<le> MAX_INPUT_SIZE"
  shows "\<exists>s'. sys_del_user True (holds k) (length k) s =
      Inr (if slot_find ud_key k (slots_s s) = None then -1 else 0, s') \<and>
    sys_inv s' \<and> slots_s s' = slot_del ud_key k (slots_s s) \<and> live s' = live s"
proof -
  let ?s = "(init_users s)\<lparr>live := live (init_users s) + 1\<rparr>"
  from init_users_ready [OF assms(1)] have rdy: "ready ?s" "slots_s ?s = slots_s s" "live ?s = live s + 1"
    by auto
  from delete_user_note_s_bytes [OF rdy(1) k(1), of "[]"] obtain r s' where
    d: "delete_user_note_s (k @ [NUL]) ?s = Inr (r, s')"
      "r = -1 \<longleftrightarrow> slot_find ud_key k (slots_s s) = None" "ready s'"
      "slots_s s' = slot_del ud_key k (slots_s s)" "live s' = live s + 1"
    using rdy by auto
  with k show ?thesis
    by (auto simp: sys_del_user_def Let_def kmalloc_s_def holds_def kfree_s_def ready_inv)
qed

lemma sys_add_user_spec:
  assumes "sys_inv s" and wf: "ud_wf d"
  shows "\<exists>s'. sys_add_user True (holds (ud_bytes d)) s =
      Inr (if None \<in> set (slots_s s) then 0 else -1, s') \<and>
    sys_inv s' \<and> slots_s s' = slot_add d (slots_s s) \<and> live s' = live s"
proof -
  let ?s = "(init_users s)\<lparr>live := live (init_users s) + 1\<rparr>"
  from init_users_ready [OF assms(1)] have rdy: "ready ?s" "slots_s ?s = slots_s s" "live ?s = live s + 1"
    by auto
  have "length (ud_bytes d) = sizeof_user_data"
    using wf by (simp add: ud_wf_def array_ok_def ud_bytes_def sizeof_user_data_def)
  then have "holds (ud_bytes d) sizeof_user_data = Some (ud_bytes d)" by (simp add: holds_def)
  moreover from add_user_note_s_spec [OF rdy(1) wf] obtain s' where
    "add_user_note_s (ud_bytes d) ?s = Inr (if None \<in> set (slots_s s) then 0 else -1, s')" "ready s'"
      "slots_s s' = slot_add d (slots_s s)" "live s' = live s + 1"
    using rdy by auto
  ultimately show ?thesis
    by (auto simp: sys_add_user_def Let_def kmalloc_s_def kfree_s_def ready_inv)
qed


section \<open>The contract\<close>

definition blank_out :: user_data where
  "blank_out = \<lparr>ud_name = [], ud_surname = [], ud_phone = [], ud_email = []\<rparr>"

definition sadd :: "user_data \<Rightarrow> sysmod \<Rightarrow> (bool \<times> sysmod) res" where
  "sadd d s = rbind (sys_add_user True (holds (ud_bytes d)) s) (\<lambda>(r, s'). Inr (r = 0, s'))"

definition slook :: "string \<Rightarrow> sysmod \<Rightarrow> (int \<times> user_data) res" where
  "slook k s = rbind (sys_get_user True (holds k) (length k) (\<lambda>old bytes. (0, bytes)) blank_out s)
     (\<lambda>(r, out, s'). Inr (r, out))"

definition sdel :: "string \<Rightarrow> sysmod \<Rightarrow> (bool \<times> sysmod) res" where
  "sdel k s = rbind (sys_del_user True (holds k) (length k) s) (\<lambda>(r, s'). Inr (r = 0, s'))"

lemma ud_key_adm: "ud_wf d \<Longrightarrow> NUL \<notin> set (ud_key d) \<and> length (ud_key d) \<le> MAX_INPUT_SIZE"
  by (auto simp: ud_wf_def ud_key_def elim!: array_okE)

interpretation sst: contact_store sys_inv ud_wf "\<lambda>k. NUL \<notin> set k \<and> length k \<le> MAX_INPUT_SIZE"
  slots_s ud_key sadd "get_view blank_out" slook sdel
proof (unfold_locales, goal_cases)
  case (1 s c)
  from sys_add_user_spec [OF this] show ?case by (auto simp: sadd_def)
next
  case (2 s k)
  then have "NUL \<notin> set k" "length k \<le> MAX_INPUT_SIZE" by auto
  from sys_get_user_spec [OF 2(1) this, of "\<lambda>old bytes. (0, bytes)" blank_out] show ?case
    by (auto simp: slook_def writes_all_def)
next
  case (3 r)
  show ?case by (cases r) (simp_all add: get_view_def)
next
  case (4 s k)
  then have "NUL \<notin> set k" "length k \<le> MAX_INPUT_SIZE" by auto
  from sys_del_user_spec [OF 4(1) this] show ?case by (auto simp: sdel_def)
next
  case (5 c)
  then show ?case by (rule ud_key_adm)
qed

end
