(* ===== verification/Sys_Calls.thy ===== *)
theory Sys_Calls
  imports Sys_Proofs
begin

text \<open>
  The system calls of 03-sys_call/contact_storage/storage.c on arbitrary memory of the caller
  and in sequence: the lemmas behind the properties of \<open>Sys_Claims\<close>.
\<close>


section \<open>Memory of the caller\<close>

text \<open>\<open>copy_from_user\<close> that succeeds delivers as many bytes as it was asked for.\<close>

definition whole_reads :: "user_reader \<Rightarrow> bool" where
  "whole_reads ubuf \<longleftrightarrow> (\<forall>n bytes. ubuf n = Some bytes \<longrightarrow> length bytes = n)"

text \<open>The four arrays of a block of 4096 bytes.\<close>

definition split_ud :: "char list \<Rightarrow> user_data" where
  "split_ud bytes =
     (let n = USER_DATA_INPUT_MAX in
      \<lparr>ud_name = take n bytes, ud_surname = take n (drop n bytes),
       ud_phone = take n (drop (2 * n) bytes), ud_email = drop (3 * n) bytes\<rparr>)"

definition ud_shape :: "user_data \<Rightarrow> bool" where
  "ud_shape d \<longleftrightarrow> length (ud_name d) = USER_DATA_INPUT_MAX \<and> length (ud_surname d) = USER_DATA_INPUT_MAX \<and>
     length (ud_phone d) = USER_DATA_INPUT_MAX \<and> length (ud_email d) = USER_DATA_INPUT_MAX"

lemma take_drop_next: "take n (drop m xs) @ drop (n + m) xs = drop m xs"
  by (metis add.commute append_take_drop_id drop_drop)

lemma split_ud:
  "length bytes = sizeof_user_data \<Longrightarrow> ud_bytes (split_ud bytes) = bytes \<and> ud_shape (split_ud bytes)"
proof -
  assume len: "length bytes = sizeof_user_data"
  let ?n = USER_DATA_INPUT_MAX
  have "take ?n (drop (2 * ?n) bytes) @ drop (3 * ?n) bytes = drop (2 * ?n) bytes"
    using take_drop_next [of ?n "2 * ?n" bytes] by simp
  moreover have "take ?n (drop ?n bytes) @ drop (2 * ?n) bytes = drop ?n bytes"
    using take_drop_next [of ?n ?n bytes] by (simp add: mult_2)
  ultimately show ?thesis
    using len by (simp add: split_ud_def Let_def ud_bytes_def ud_shape_def sizeof_user_data_def)
qed

lemma array_ok_iff: "length a = USER_DATA_INPUT_MAX \<Longrightarrow> array_ok a \<longleftrightarrow> NUL \<in> set a"
  by (simp add: array_ok_def)

text \<open>
  What an addition does with the four arrays in the order of the code: the first without a
  terminator decides.
\<close>

fun fields_outcome :: "char list list \<Rightarrow> int res" where
  "fields_outcome [] = Inr 0"
| "fields_outcome (a # as) =
     (if NUL \<in> set a then fields_outcome as
      else if NUL \<in> set (concat as) then Inr (-1) else Inl OutOfBounds)"

lemma copy_string_s_outcome:
  assumes "length a = USER_DATA_INPUT_MAX"
  shows "copy_string_s old (a @ rest) =
    (if NUL \<in> set a then Inr (0, a) else if NUL \<in> set rest then Inr (-1, old) else Inl OutOfBounds)"
  using assms copy_string_s_ok [of a old rest] copy_string_s_long [of a rest old]
    copy_string_s_outside [of "a @ rest" old]
  by (auto simp: array_ok_iff)

lemma ready_put_free:
  assumes "ready s" and "i < length (users_s s)" and "status_s (users_s s ! i) = CHR ''f''"
    and "status_s u = CHR ''f''" and "cell_shape u"
  shows "ready (s\<lparr>users_s := (users_s s)[i := u]\<rparr>) \<and>
    slots_s (s\<lparr>users_s := (users_s s)[i := u]\<rparr>) = slots_s s"
proof -
  have "slot_s u = None" "slots_s s ! i = None" "i < length (slots_s s)"
    using assms by (auto simp: slot_s_def slots_s_def)
  with ready_update [OF assms(1,2), of u] assms(4,5) show ?thesis
    by (metis list_update_id option.distinct(1))
qed

lemma add_user_note_s_outcome:
  assumes "ready s" and sh: "ud_shape d" and "\<not> ud_wf d" and "None \<in> set (slots_s s)"
  shows "(fields_outcome [ud_name d, ud_surname d, ud_phone d, ud_email d] = Inl OutOfBounds \<and>
      add_user_note_s (ud_bytes d) s = Inl OutOfBounds) \<or>
    (fields_outcome [ud_name d, ud_surname d, ud_phone d, ud_email d] = Inr (-1) \<and>
      (\<exists>s'. add_user_note_s (ud_bytes d) s = Inr (-1, s') \<and> ready s' \<and> slots_s s' = slots_s s \<and>
        live s' = live s))"
proof -
  have "find_first (\<lambda>x. x = None) (slots_s s) \<noteq> None"
    using assms(4) by (auto simp: find_first_None_iff)
  then obtain i where i: "find_first (\<lambda>u. status_s u = CHR ''f'') (users_s s) = Some i"
    using ready_free [OF assms(1)] by auto
  then have il: "i < length (users_s s)" "status_s (users_s s ! i) = CHR ''f''"
    by (auto simp: find_first_Some_iff)
  note put = ready_put_free [OF assms(1) il]
  have shape: "cell_shape (users_s s ! i)" using ready_shape [OF assms(1) il(1)] .
  then have same: "length (name_s (users_s s ! i)) = USER_DATA_INPUT_MAX" "length (surname_s (users_s s ! i)) = USER_DATA_INPUT_MAX"
    "length (phone_s (users_s s ! i)) = USER_DATA_INPUT_MAX" "length (email_s (users_s s ! i)) = USER_DATA_INPUT_MAX"
    by (simp_all add: cell_shape_def)
  have dr: "drop USER_DATA_INPUT_MAX (ud_bytes d) = ud_surname d @ ud_phone d @ ud_email d"
      "drop (2 * USER_DATA_INPUT_MAX) (ud_bytes d) = ud_phone d @ ud_email d"
      "drop (3 * USER_DATA_INPUT_MAX) (ud_bytes d) = ud_email d @ []"
    using sh by (simp_all add: ud_shape_def ud_bytes_def)
  have cp: "copy_string_s old (ud_bytes d) =
      (if NUL \<in> set (ud_name d) then Inr (0, ud_name d)
       else if NUL \<in> set (ud_surname d @ ud_phone d @ ud_email d) then Inr (-1, old) else Inl OutOfBounds)"
    for old using sh unfolding ud_bytes_def by (intro copy_string_s_outcome) (simp add: ud_shape_def)
  have len: "length (ud_surname d) = USER_DATA_INPUT_MAX" "length (ud_phone d) = USER_DATA_INPUT_MAX"
      "length (ud_email d) = USER_DATA_INPUT_MAX" "length (ud_name d) = USER_DATA_INPUT_MAX"
    using sh by (simp_all add: ud_shape_def)
  note cs = copy_string_s_outcome [OF len(1)] copy_string_s_outcome [OF len(2)]
    copy_string_s_outcome [OF len(3), of _ "[]", simplified]
  have nwf: "\<not> (NUL \<in> set (ud_name d) \<and> NUL \<in> set (ud_surname d) \<and> NUL \<in> set (ud_phone d) \<and>
      NUL \<in> set (ud_email d))"
    using assms(3) len by (simp add: ud_wf_def array_ok_iff)
  consider "NUL \<notin> set (ud_name d)" | "NUL \<in> set (ud_name d)" "NUL \<notin> set (ud_surname d)"
    | "NUL \<in> set (ud_name d)" "NUL \<in> set (ud_surname d)" "NUL \<notin> set (ud_phone d)"
    | "NUL \<in> set (ud_name d)" "NUL \<in> set (ud_surname d)" "NUL \<in> set (ud_phone d)" "NUL \<notin> set (ud_email d)"
    using nwf by blast
  then show ?thesis
    by cases (simp_all add: add_user_note_s_def i Let_def dr cp cs put il assms(1) cell_shape_def same len)
qed

lemma add_user_note_s_full:
  assumes "ready s" and "None \<notin> set (slots_s s)"
  shows "add_user_note_s bytes s = Inr (-1, s)"
proof -
  have "find_first (\<lambda>x. x = None) (slots_s s) = None"
    unfolding find_first_None_iff by (rule ballI, rule notI) (use assms(2) in simp)
  with assms(1) show ?thesis by (simp add: add_user_note_s_def ready_free)
qed

lemma sys_add_user_bad:
  assumes "sys_inv s" and sh: "ud_shape d" and bad: "\<not> ud_wf d"
  shows "if None \<in> set (slots_s s) \<and>
      fields_outcome [ud_name d, ud_surname d, ud_phone d, ud_email d] = Inl OutOfBounds
    then sys_add_user True (holds (ud_bytes d)) s = Inl OutOfBounds
    else fields_outcome [ud_name d, ud_surname d, ud_phone d, ud_email d] \<noteq> Inr 0 \<and>
      (\<exists>s'. sys_add_user True (holds (ud_bytes d)) s = Inr (-1, s') \<and> sys_inv s' \<and>
        slots_s s' = slots_s s \<and> live s' = live s)"
proof -
  let ?s = "(init_users s)\<lparr>live := live (init_users s) + 1\<rparr>"
  from init_users_ready [OF assms(1)] have rdy: "ready ?s" "slots_s ?s = slots_s s" "live ?s = live s + 1"
    by auto
  have "length (ud_bytes d) = sizeof_user_data"
    using sh by (simp add: ud_shape_def ud_bytes_def sizeof_user_data_def)
  then have h: "holds (ud_bytes d) sizeof_user_data = Some (ud_bytes d)" by (simp add: holds_def)
  have no: "fields_outcome [ud_name d, ud_surname d, ud_phone d, ud_email d] \<noteq> Inr 0"
    using sh bad by (auto simp: ud_shape_def ud_wf_def array_ok_iff)
  show ?thesis
  proof (cases "None \<in> set (slots_s s)")
    case True
    with add_user_note_s_outcome [OF rdy(1) sh bad] rdy h no show ?thesis
      by (auto simp: sys_add_user_def Let_def kmalloc_s_def kfree_s_def ready_inv
          simp del: fields_outcome.simps)
  next
    case False
    with add_user_note_s_full [OF rdy(1)] rdy h no show ?thesis
      by (auto simp: sys_add_user_def Let_def kmalloc_s_def kfree_s_def ready_inv)
  qed
qed

text \<open>A search for arbitrary bytes is one for the string before their first zero byte.\<close>

lemma bytes_key:
  obtains k e where "bytes @ [NUL] = k @ NUL # e" and "NUL \<notin> set k" and "length k \<le> length bytes"
proof -
  from split_list_first [of NUL "bytes @ [NUL]"]
  obtain k e where k: "bytes @ [NUL] = k @ NUL # e" "NUL \<notin> set k" by auto
  then have "length bytes + 1 = length k + 1 + length e"
    by (metis Suc_eq_plus1 add.commute add_Suc_shift length_Cons length_append length_append_singleton
        list.size(3))
  with k that show ?thesis by simp
qed

lemma ready_search_bytes:
  assumes "ready s"
  obtains k where "find_user_s (bytes @ [NUL]) (users_s s) = Inr (find_first (slot_match ud_key k) (slots_s s))"
proof -
  obtain k e where k: "bytes @ [NUL] = k @ NUL # e" "NUL \<notin> set k" by (rule bytes_key)
  with find_user_s_slots [of "users_s s" k e] assms that show ?thesis
    by (simp add: ready_def sys_inv_def slots_s_def)
qed


text \<open>Searches and deletions return for every memory of the caller.\<close>

lemma copy_out_result: "fst (copy_out ctu u out) \<in> {0, -1}"
  by (simp add: copy_out_def Let_def split: prod.split)

lemma sys_get_user_total:
  assumes "sys_inv s"
  shows "\<exists>r out' s'. sys_get_user True ubuf len ctu out s = Inr (r, out', s') \<and> r \<in> {0, -1} \<and>
    sys_inv s' \<and> slots_s s' = slots_s s \<and> live s' = live s \<and>
    (len > MAX_INPUT_SIZE \<or> ubuf len = None \<longrightarrow> r = -1 \<and> out' = out)"
proof -
  let ?s = "init_users s"
  from init_users_ready [OF assms(1)] have rdy: "ready ?s" "slots_s ?s = slots_s s" "live ?s = live s"
    by auto
  show ?thesis
  proof (cases "len > MAX_INPUT_SIZE \<or> ubuf len = None")
    case True
    with rdy show ?thesis
      by (auto simp: sys_get_user_def Let_def kmalloc_s_def kfree_s_def ready_inv)
  next
    case False
    then obtain bytes where b: "ubuf len = Some bytes" "\<not> len > MAX_INPUT_SIZE" by auto
    obtain k where k: "find_user_s (bytes @ [NUL]) (users_s ?s) =
        Inr (find_first (slot_match ud_key k) (slots_s ?s))"
      by (rule ready_search_bytes [OF rdy(1)])
    show ?thesis
    proof (cases "find_first (slot_match ud_key k) (slots_s ?s)")
      case None
      with b k rdy show ?thesis
        by (simp add: sys_get_user_def Let_def kmalloc_s_def kfree_s_def ready_inv get_user_note_s_def)
    next
      case (Some i)
      obtain r out' where "copy_out ctu (users_s ?s ! i) out = (r, out')" by fastforce
      with copy_out_result [of ctu "users_s ?s ! i" out] Some b k rdy show ?thesis
        by (simp add: sys_get_user_def Let_def kmalloc_s_def kfree_s_def ready_inv get_user_note_s_def)
    qed
  qed
qed

lemma sys_del_user_total:
  assumes "sys_inv s"
  shows "\<exists>r s'. sys_del_user True ubuf len s = Inr (r, s') \<and> r \<in> {0, -1} \<and> sys_inv s' \<and>
    live s' = live s \<and> (r = -1 \<longrightarrow> slots_s s' = slots_s s) \<and>
    (len > MAX_INPUT_SIZE \<or> ubuf len = None \<longrightarrow> r = -1)"
proof -
  let ?s = "(init_users s)\<lparr>live := live (init_users s) + 1\<rparr>"
  from init_users_ready [OF assms(1)] have rdy: "ready ?s" "slots_s ?s = slots_s s" "live ?s = live s + 1"
      "ready (init_users s)" "slots_s (init_users s) = slots_s s" "live (init_users s) = live s"
    by auto
  show ?thesis
  proof (cases "len > MAX_INPUT_SIZE \<or> ubuf len = None")
    case True
    with rdy show ?thesis
      by (auto simp: sys_del_user_def Let_def kmalloc_s_def kfree_s_def ready_inv)
  next
    case False
    then obtain bytes where b: "ubuf len = Some bytes" "\<not> len > MAX_INPUT_SIZE" by auto
    obtain k e where k: "bytes @ [NUL] = k @ NUL # e" "NUL \<notin> set k" by (rule bytes_key)
    from delete_user_note_s_bytes [OF rdy(1) k(2), of e] obtain r s' where
      "delete_user_note_s (bytes @ [NUL]) ?s = Inr (r, s')" "ready s'" "live s' = live s + 1"
      "r = -1 \<longrightarrow> slots_s s' = slots_s s"
      using rdy k(1) by auto
    with b show ?thesis
      by (auto simp: sys_del_user_def Let_def kmalloc_s_def kfree_s_def ready_inv)
  qed
qed


section \<open>Sequences of calls\<close>

datatype scall = SAdd user_data | SGet string | SDel string

fun scall_ok :: "scall \<Rightarrow> bool" where
  "scall_ok (SAdd d) = ud_wf d"
| "scall_ok (SGet k) = (NUL \<notin> set k \<and> length k \<le> MAX_INPUT_SIZE)"
| "scall_ok (SDel k) = (NUL \<notin> set k \<and> length k \<le> MAX_INPUT_SIZE)"

fun scall_run :: "scall \<Rightarrow> sysmod \<Rightarrow> ((int \<times> user_data) \<times> sysmod) res" where
  "scall_run (SAdd d) s =
     rbind (sys_add_user True (holds (ud_bytes d)) s) (\<lambda>(r, s'). Inr ((r, blank_out), s'))"
| "scall_run (SGet k) s =
     rbind (sys_get_user True (holds k) (length k) (\<lambda>old bytes. (0, bytes)) blank_out s)
       (\<lambda>(r, out, s'). Inr ((r, out), s'))"
| "scall_run (SDel k) s =
     rbind (sys_del_user True (holds k) (length k) s) (\<lambda>(r, s'). Inr ((r, blank_out), s'))"

fun scall_spec :: "scall \<Rightarrow> user_data option list \<Rightarrow> (int \<times> user_data) \<times> user_data option list" where
  "scall_spec (SAdd d) xs = ((if None \<in> set xs then 0 else -1, blank_out), slot_add d xs)"
| "scall_spec (SGet k) xs = (get_view blank_out (slot_find ud_key k xs), xs)"
| "scall_spec (SDel k) xs =
     ((if slot_find ud_key k xs = None then -1 else 0, blank_out), slot_del ud_key k xs)"

primrec scalls_run :: "scall list \<Rightarrow> sysmod \<Rightarrow> ((int \<times> user_data) list \<times> sysmod) res" where
  "scalls_run [] s = Inr ([], s)"
| "scalls_run (c # cs) s =
     rbind (scall_run c s) (\<lambda>(r, s'). rbind (scalls_run cs s') (\<lambda>(rs, s''). Inr (r # rs, s'')))"

primrec scalls_spec :: "scall list \<Rightarrow> user_data option list \<Rightarrow> (int \<times> user_data) list \<times> user_data option list" where
  "scalls_spec [] xs = ([], xs)"
| "scalls_spec (c # cs) xs =
     (let (r, ys) = scall_spec c xs; (rs, zs) = scalls_spec cs ys in (r # rs, zs))"

lemma scall_run_spec:
  assumes "sys_inv s" and "scall_ok c"
  shows "\<exists>s'. scall_run c s = Inr (fst (scall_spec c (slots_s s)), s') \<and> sys_inv s' \<and>
    slots_s s' = snd (scall_spec c (slots_s s)) \<and> live s' = live s"
proof (cases c)
  case (SAdd d)
  with assms sys_add_user_spec [OF assms(1), of d] show ?thesis by auto
next
  case (SGet k)
  with assms sys_get_user_spec [OF assms(1), of k "\<lambda>old bytes. (0, bytes)" blank_out] show ?thesis
    by (auto simp: writes_all_def)
next
  case (SDel k)
  with assms sys_del_user_spec [OF assms(1), of k] show ?thesis by auto
qed

lemma scalls_run_spec:
  "sys_inv s \<Longrightarrow> \<forall>c\<in>set cs. scall_ok c \<Longrightarrow>
    \<exists>s'. scalls_run cs s = Inr (fst (scalls_spec cs (slots_s s)), s') \<and> sys_inv s' \<and>
      slots_s s' = snd (scalls_spec cs (slots_s s)) \<and> live s' = live s"
proof (induction cs arbitrary: s)
  case Nil
  then show ?case by simp
next
  case (Cons c cs)
  from scall_run_spec [of s c] Cons.prems obtain s1 where
    s1: "scall_run c s = Inr (fst (scall_spec c (slots_s s)), s1)" "sys_inv s1"
      "slots_s s1 = snd (scall_spec c (slots_s s))" "live s1 = live s" by auto
  from Cons.IH [OF s1(2)] Cons.prems obtain s2 where
    s2: "scalls_run cs s1 = Inr (fst (scalls_spec cs (slots_s s1)), s2)" "sys_inv s2"
      "slots_s s2 = snd (scalls_spec cs (slots_s s1))" "live s2 = live s1" by auto
  from s1 s2 show ?case by (auto simp: Let_def split: prod.splits)
qed

end
