(* ===== verification/Sys_Claims.thy ===== *)
theory Sys_Claims
  imports Sys_Calls
begin

text \<open>
  The properties of the system calls of 03-sys_call/contact_storage/storage.c, from the lemmas
  of \<open>Sys_Proofs\<close> and \<open>Sys_Calls\<close>.
\<close>


section \<open>A concrete contact\<close>

definition arr :: "string \<Rightarrow> char list" where
  "arr str = str @ NUL # replicate (MAX_INPUT_SIZE - length str) NUL"

definition ann :: user_data where
  "ann = \<lparr>ud_name = arr ''Ann'', ud_surname = arr ''Lee'', ud_phone = arr ''1'', ud_email = arr ''a''\<rparr>"

definition bob :: user_data where
  "bob = \<lparr>ud_name = arr ''Bob'', ud_surname = arr ''Ray'', ud_phone = arr ''2'', ud_email = arr ''b''\<rparr>"

lemma arr_ok: "length str \<le> MAX_INPUT_SIZE \<Longrightarrow> array_ok (arr str)"
  by (simp add: arr_def array_ok_def USER_DATA_INPUT_MAX_def MAX_INPUT_SIZE_def)

lemma c_str_arr: "NUL \<notin> set str \<Longrightarrow> c_str (arr str) = Some str"
  by (simp add: arr_def c_str_append)

lemma ann_wf: "ud_wf ann" and bob_wf: "ud_wf bob"
  by (simp_all add: ud_wf_def ann_def bob_def arr_ok MAX_INPUT_SIZE_def)

lemma ann_key: "ud_key ann = ''Lee''" and bob_key: "ud_key bob = ''Ray''"
  by (simp_all add: ud_key_def ann_def bob_def c_str_arr)


lemma live_static: "live sys_static = 0"
  by (simp add: sys_static_def)

lemma static_free: "None \<in> set (slots_s sys_static)"
  by (simp add: slots_static USER_COUNT_s_def)

section \<open>Properties\<close>

text \<open>
  C8. From the state the kernel boots with, every sequence of additions, searches and
  deletions with terminated arrays and surnames of at most 1023 characters returns, gives the
  results of the specification on a table of 1024 cells, keeps the invariant (every taken
  cell holds four terminated arrays) and frees every block it allocates.
\<close>

theorem sys_calls_refine:
  assumes "\<forall>c\<in>set cs. scall_ok c"
  shows "\<exists>s'. scalls_run cs sys_static =
      Inr (fst (scalls_spec cs (replicate USER_COUNT_s None)), s') \<and> sys_inv s' \<and>
    slots_s s' = snd (scalls_spec cs (replicate USER_COUNT_s None)) \<and> live s' = 0"
  using scalls_run_spec [OF sys_static_inv assms] by (simp add: slots_static live_static)

theorem sys_calls_refine_witness:
  "\<exists>s'. scalls_run [SAdd ann, SGet ''Lee'', SDel ''Lee'', SGet ''Lee''] sys_static =
     Inr ([(0, blank_out), (0, ann), (0, blank_out), (-1, blank_out)], s') \<and> live s' = 0"
proof -
  let ?cs = "[SAdd ann, SGet ''Lee'', SDel ''Lee'', SGet ''Lee'']"
  have n: "replicate USER_COUNT_s None = None # replicate 1023 None"
    by (simp add: USER_COUNT_s_def flip: replicate_Suc)
  have "fst (scalls_spec ?cs (replicate USER_COUNT_s None)) =
      [(0, blank_out), (0, ann), (0, blank_out), (-1, blank_out)]"
    unfolding n by (simp add: ann_key get_view_def)
  moreover have "\<forall>c\<in>set ?cs. scall_ok c" by (simp add: ann_wf MAX_INPUT_SIZE_def)
  ultimately show ?thesis using sys_calls_refine [of ?cs] by auto
qed

text \<open>
  C21. \<open>add_user\<close> for any 4096 bytes the caller's memory may hold: on a full table it returns
  -1; when all four arrays are terminated it returns 0 and the contact takes the first free
  cell; otherwise the first array without a terminator decides: with a zero byte in a later
  array the call returns -1, without one \<open>strlen\<close> reads past the copied structure. When it
  returns -1 no cell changes, and when it returns no block is leaked.
\<close>

theorem sys_add_outcome:
  assumes "sys_inv s" and "length bytes = sizeof_user_data"
  shows "let d = split_ud bytes;
      outcome = fields_outcome [ud_name d, ud_surname d, ud_phone d, ud_email d] in
    if None \<in> set (slots_s s) \<and> outcome = Inl OutOfBounds then
      sys_add_user True (holds bytes) s = Inl OutOfBounds
    else let done = (None \<in> set (slots_s s) \<and> outcome = Inr 0) in
      \<exists>s'. sys_add_user True (holds bytes) s = Inr (if done then 0 else -1, s') \<and> sys_inv s' \<and>
        slots_s s' = (if done then slot_add d (slots_s s) else slots_s s) \<and> live s' = live s"
proof -
  let ?d = "split_ud bytes"
  let ?o = "fields_outcome [ud_name ?d, ud_surname ?d, ud_phone ?d, ud_email ?d]"
  from split_ud [OF assms(2)] have b: "ud_bytes ?d = bytes" and sh: "ud_shape ?d" by auto
  show ?thesis
  proof (cases "ud_wf ?d")
    case True
    then have "?o = Inr 0" by (simp add: ud_wf_def array_ok_def)
    with sys_add_user_spec [OF assms(1) True] b show ?thesis
      by (auto simp: Let_def slot_add_full)
  next
    case False
    then show ?thesis using sys_add_user_bad [OF assms(1) sh False] b
      by (auto simp: Let_def simp del: fields_outcome.simps split: if_splits)
  qed
qed

theorem sys_add_outcome_witness:
  "sys_add_user True (holds (replicate sizeof_user_data CHR ''x'')) sys_static = Inl OutOfBounds"
proof -
  let ?b = "replicate sizeof_user_data CHR ''x''"
  have "fields_outcome [ud_name (split_ud ?b), ud_surname (split_ud ?b), ud_phone (split_ud ?b),
      ud_email (split_ud ?b)] = Inl OutOfBounds"
    by (simp add: split_ud_def Let_def)
  with sys_add_outcome [OF sys_static_inv, of ?b] static_free show ?thesis by (simp add: Let_def)
qed

text \<open>
  C35. A contact stored under a surname that is not in the table comes back byte for byte: the
  search returns 0 and the four arrays the caller passed, characters after the terminators
  included.
\<close>

theorem sys_add_get_exact:
  assumes "sys_inv s" and "ud_wf d" and "slot_find ud_key (ud_key d) (slots_s s) = None"
    and "sys_add_user True (holds (ud_bytes d)) s = Inr (0, s')" and "writes_all ctu"
  shows "\<exists>s''. sys_get_user True (holds (ud_key d)) (length (ud_key d)) ctu out s' = Inr (0, d, s'')"
proof -
  from sys_add_user_spec [OF assms(1,2)] assms(4)
  have "sys_inv s'" "slots_s s' = slot_add d (slots_s s)" "None \<in> set (slots_s s)"
    by (auto split: if_splits)
  moreover from this assms(3) have "slot_find ud_key (ud_key d) (slots_s s') = Some d"
    by (simp add: slot_find_add_same)
  ultimately show ?thesis
    using sys_get_user_spec [of s' "ud_key d" ctu out] ud_key_adm [OF assms(2)] assms(5)
    by (auto simp: get_view_def)
qed

theorem sys_add_get_exact_witness:
  "\<exists>s' s''. sys_add_user True (holds (ud_bytes ann)) sys_static = Inr (0, s') \<and>
    sys_get_user True (holds ''Lee'') 3 (\<lambda>old bytes. (0, bytes)) blank_out s' = Inr (0, ann, s'')"
proof -
  from sys_add_user_spec [OF sys_static_inv ann_wf] static_free
  obtain s' where "sys_add_user True (holds (ud_bytes ann)) sys_static = Inr (0, s')" by auto
  with sys_add_get_exact [OF sys_static_inv ann_wf _ this, of "\<lambda>old bytes. (0, bytes)" blank_out]
  show ?thesis by (auto simp: ann_key slots_static writes_all_def numeral_3_eq_3)
qed

text \<open>
  The table holds as many contacts as it has cells: the contacts of a list are all stored
  while they fit, and once 1024 are stored every further addition returns -1 and changes
  nothing, until a deletion succeeds: then the next addition succeeds.
\<close>

theorem sys_capacity:
  assumes "\<forall>d\<in>set ds. ud_wf d" and "length ds \<le> USER_COUNT_s" and "ud_wf e"
  shows "\<exists>s. sst.adds ds sys_static = Inr s \<and> sys_inv s \<and> slot_entries (slots_s s) = mset ds \<and>
    (\<exists>s'. sys_add_user True (holds (ud_bytes e)) s = Inr (if length ds < USER_COUNT_s then 0 else -1, s') \<and>
      slot_entries (slots_s s') = (if length ds < USER_COUNT_s then add_mset e (mset ds) else mset ds))"
proof -
  from sst.adds_entries [OF sys_static_inv assms(1)] assms(2)
  obtain s where s: "sst.adds ds sys_static = Inr s" "sys_inv s" "slot_entries (slots_s s) = mset ds"
    by (auto simp: slots_static)
  have "length (slots_s s) = USER_COUNT_s" using s(2) by (simp add: sys_inv_def slots_s_def)
  with size_slot_entries_full [of "slots_s s"] s(3) assms(2)
  have "None \<in> set (slots_s s) \<longleftrightarrow> length ds < USER_COUNT_s" by auto
  with s sys_add_user_spec [OF s(2) assms(3)] show ?thesis
    by (auto simp: entries_add slot_add_full)
qed

theorem sys_capacity_witness:
  "\<exists>s s'. sst.adds (replicate 1024 ann) sys_static = Inr s \<and>
     sys_add_user True (holds (ud_bytes bob)) s = Inr (-1, s') \<and> bob \<notin># slot_entries (slots_s s')"
proof -
  have "bob \<noteq> ann" using ann_key bob_key by auto
  with sys_capacity [of "replicate 1024 ann" bob] ann_wf bob_wf show ?thesis
    by (fastforce simp: USER_COUNT_s_def)
qed

text \<open>
  C40. A deletion and a search for the same surname return the same: 0 when a taken cell holds the surname,
  -1 otherwise. With 0 the table as a multiset loses the contact that the search delivers and no other,
  with -1 no cell changes. The searches for all other surnames are answered as before.
\<close>

theorem sys_del_removes_one:
  assumes "sys_inv s" and "NUL \<notin> set k" and "length k \<le> MAX_INPUT_SIZE"
  shows "\<exists>r d s1 s'. sys_get_user True (holds k) (length k) (\<lambda>old bytes. (0, bytes)) blank_out s = Inr (r, d, s1) \<and>
    sys_del_user True (holds k) (length k) s = Inr (r, s') \<and>
    r = (if \<exists>c\<in>#slot_entries (slots_s s). ud_key c = k then 0 else -1) \<and>
    (r = 0 \<longrightarrow> ud_key d = k \<and> slot_entries (slots_s s) = add_mset d (slot_entries (slots_s s'))) \<and>
    (r = -1 \<longrightarrow> slots_s s' = slots_s s) \<and>
    (\<forall>k'. NUL \<notin> set k' \<and> length k' \<le> MAX_INPUT_SIZE \<and> k' \<noteq> k \<longrightarrow> slook k' s' = slook k' s)"
proof -
  have k: "NUL \<notin> set k \<and> length k \<le> MAX_INPUT_SIZE" using assms by simp
  from sys_get_user_spec [OF assms, of "\<lambda>old bytes. (0, bytes)" blank_out] obtain r d s1 where
    g: "sys_get_user True (holds k) (length k) (\<lambda>old bytes. (0, bytes)) blank_out s = Inr (r, d, s1)"
      "(r, d) = get_view blank_out (slot_find ud_key k (slots_s s))"
    by (auto simp: writes_all_def)
  from sys_del_user_spec [OF assms] obtain s' where
    s': "sys_del_user True (holds k) (length k) s = Inr (if slot_find ud_key k (slots_s s) = None then -1 else 0, s')"
      "slots_s s' = slot_del ud_key k (slots_s s)" by auto
  then have d: "sdel k s = Inr (slot_find ud_key k (slots_s s) \<noteq> None, s')" by (simp add: sdel_def)
  note other = sst.look_after_del_other [OF assms(1) k _ _ d]
  show ?thesis
  proof (cases "slot_find ud_key k (slots_s s)")
    case None
    with g s' other slot_del_absent [OF None] slot_find_None_iff [of ud_key k "slots_s s"] show ?thesis
      by (auto simp: get_view_def)
  next
    case (Some c)
    with g s' other sst.del_removes [OF assms(1) k Some d [unfolded Some, simplified]] slot_find_SomeD [OF Some]
    show ?thesis by (auto simp: get_view_def)
  qed
qed

theorem sys_del_removes_one_witness:
  "\<exists>s s'. sys_add_user True (holds (ud_bytes ann)) sys_static = Inr (0, s) \<and>
     sys_del_user True (holds ''Lee'') 3 s = Inr (0, s') \<and> slot_entries (slots_s s') = {#}"
proof -
  from sys_add_user_spec [OF sys_static_inv ann_wf] static_free obtain s where
    s: "sys_add_user True (holds (ud_bytes ann)) sys_static = Inr (0, s)" "sys_inv s"
      "slots_s s = slot_add ann (slots_s sys_static)" by auto
  have f: "slot_find ud_key ''Lee'' (slots_s s) = Some ann"
    using s(3) slot_find_add_same [OF static_free, of ud_key ann] by (simp add: ann_key slots_static)
  from sys_get_user_spec [OF s(2), of "''Lee''" "\<lambda>old bytes. (0, bytes)" blank_out] f
  obtain s1 where g: "sys_get_user True (holds ''Lee'') (length ''Lee'') (\<lambda>old bytes. (0, bytes)) blank_out s =
      Inr (0, ann, s1)"
    by (auto simp: writes_all_def get_view_def MAX_INPUT_SIZE_def)
  have "slot_entries (slots_s s) = {#ann#}"
    using s(3) entries_add [OF static_free] by (simp add: slots_static)
  with sys_del_removes_one [OF s(2), of "''Lee''"] g s(1) show ?thesis
    by (auto simp: MAX_INPUT_SIZE_def numeral_3_eq_3 ann_key split: if_splits)
qed

text \<open>
  C38. Whatever the caller passes, when \<open>kmalloc\<close> succeeds, a search and a deletion return 0 or
  -1, keep the invariant and free their block; a search changes no cell and a deletion that
  fails changes none. A length above 1023 or memory \<open>copy_from_user\<close> cannot read gives -1.
\<close>

theorem sys_get_del_total:
  assumes "sys_inv s"
  shows "(\<exists>r out' s'. sys_get_user True ubuf len ctu out s = Inr (r, out', s') \<and> r \<in> {0, -1} \<and>
      sys_inv s' \<and> slots_s s' = slots_s s \<and> live s' = live s \<and>
      (len > MAX_INPUT_SIZE \<or> ubuf len = None \<longrightarrow> r = -1 \<and> out' = out)) \<and>
    (\<exists>r s'. sys_del_user True ubuf len s = Inr (r, s') \<and> r \<in> {0, -1} \<and> sys_inv s' \<and>
      live s' = live s \<and> (r = -1 \<longrightarrow> slots_s s' = slots_s s) \<and>
      (len > MAX_INPUT_SIZE \<or> ubuf len = None \<longrightarrow> r = -1))"
  using sys_get_user_total [OF assms] sys_del_user_total [OF assms] by blast

theorem sys_get_del_total_witness:
  "\<exists>r s'. sys_del_user True (\<lambda>n. None) 5 sys_static = Inr (r, s') \<and> r = -1 \<and> live s' = 0"
  using sys_get_del_total [OF sys_static_inv, of "\<lambda>n. None" 5] by (auto simp: live_static)

end
