(* ===== verification/Sys_Race.thy ===== *)
theory Sys_Race
  imports Sys_Calls
begin

text \<open>
  System calls that overlap (03-sys_call/contact_storage/storage.c): the table of contacts is shared
  and no call takes a lock, so a call that another processor or a preempted process makes may run
  between any two accesses of this one to the table. Each call is where it stands in its code, and a
  step is one call doing its next access: a test of \<open>initialized\<close> or of a status, an assignment to one,
  the comparison of one character in \<open>strcmp\<close>, the store of one byte in \<open>copy_string\<close>, one byte that
  \<open>copy_to_user\<close> reads. The accesses of a call are not reordered.

  What belongs to one call only is not a step of its own: the blocks of \<open>kmalloc\<close> are left out, the
  request is what \<open>copy_from_user\<close> has delivered, and \<open>strlen\<close> in \<open>copy_string\<close> runs on it. The
  failures of \<open>copy_from_user\<close> and \<open>copy_to_user\<close> are steps of \<open>Sys_Overlap\<close>.
\<close>


section \<open>The accesses of a call\<close>

text \<open>
  Where a call stands: at its start, in the loop of the initialisation, in the loop that looks for a
  cell, before character \<open>j\<close> of \<open>strcmp\<close> with the surname of cell \<open>i\<close>, before byte \<open>j\<close> of the copy of field
  \<open>k\<close> into cell \<open>i\<close> (the terminator after the last), before the status becomes \<open>t\<close> or \<open>f\<close>, before byte
  \<open>j\<close> of a field of its cell goes to the caller, or returned.
\<close>

datatype place = Enter | Clear nat | Scan nat | Compare nat nat | Copy nat nat nat | Take nat | Release nat
  | Fetch nat nat nat user_data | Return int user_data

definition set_cell :: "nat \<Rightarrow> (User_s \<Rightarrow> User_s) \<Rightarrow> sysmod \<Rightarrow> sysmod" where
  "set_cell i f s = s\<lparr>users_s := (users_s s)[i := f (users_s s ! i)]\<rparr>"

text \<open>The fields in the order in which \<open>add_user_note\<close> copies them.\<close>

definition get_field :: "nat \<Rightarrow> User_s \<Rightarrow> char list" where
  "get_field k u = (if k = 0 then name_s u else if k = 1 then surname_s u else if k = 2 then phone_s u else email_s u)"

definition put_field :: "nat \<Rightarrow> char list \<Rightarrow> User_s \<Rightarrow> User_s" where
  "put_field k a u =
     (if k = 0 then u\<lparr>name_s := a\<rparr> else if k = 1 then u\<lparr>surname_s := a\<rparr>
      else if k = 2 then u\<lparr>phone_s := a\<rparr> else u\<lparr>email_s := a\<rparr>)"

text \<open>The store \<open>result[j] = c\<close> into field \<open>k\<close> of cell \<open>i\<close>.\<close>

definition store_byte :: "nat \<Rightarrow> nat \<Rightarrow> nat \<Rightarrow> char \<Rightarrow> sysmod \<Rightarrow> sysmod res" where
  "store_byte i k j c s =
     (if j < length (get_field k (users_s s ! i))
      then Inr (set_cell i (\<lambda>u. put_field k ((get_field k u)[j := c]) u) s) else Inl OutOfBounds)"

text \<open>
  The order of \<open>get_user\<close> has the address before the phone number. An array of the caller's structure is
  what has been delivered to it so far.
\<close>

definition fetch_field :: "nat \<Rightarrow> User_s \<Rightarrow> char list" where
  "fetch_field k u = (if k = 0 then name_s u else if k = 1 then surname_s u else if k = 2 then email_s u else phone_s u)"

definition deliver :: "nat \<Rightarrow> char list \<Rightarrow> user_data \<Rightarrow> user_data" where
  "deliver k cs out =
     (if k = 0 then out\<lparr>ud_name := ud_name out @ cs\<rparr> else if k = 1 then out\<lparr>ud_surname := ud_surname out @ cs\<rparr>
      else if k = 2 then out\<lparr>ud_email := ud_email out @ cs\<rparr> else out\<lparr>ud_phone := ud_phone out @ cs\<rparr>)"

text \<open>The test of the length that follows the initialisation.\<close>

fun begin_scan :: "scall \<Rightarrow> place" where
  "begin_scan (SAdd d) = Scan 0"
| "begin_scan (SGet k) = (if length k > MAX_INPUT_SIZE then Return (-1) blank_out else Scan 0)"
| "begin_scan (SDel k) = (if length k > MAX_INPUT_SIZE then Return (-1) blank_out else Scan 0)"

text \<open>The test of a status in the three search loops, and where a call goes that has found its cell.\<close>

fun scan_cell :: "scall \<Rightarrow> nat \<Rightarrow> User_s \<Rightarrow> place" where
  "scan_cell (SAdd d) i u = (if status_s u = CHR ''f'' then Copy i 0 0 else Scan (Suc i))"
| "scan_cell (SGet k) i u = (if status_s u = CHR ''t'' then Compare i 0 else Scan (Suc i))"
| "scan_cell (SDel k) i u = (if status_s u = CHR ''t'' then Compare i 0 else Scan (Suc i))"

fun found :: "scall \<Rightarrow> nat \<Rightarrow> place" where
  "found (SAdd d) i = Copy i 0 0"
| "found (SGet k) i = Fetch i 0 0 blank_out"
| "found (SDel k) i = Release i"

fun call_bytes :: "scall \<Rightarrow> char list" where
  "call_bytes (SAdd d) = ud_bytes d"
| "call_bytes (SGet k) = k @ [NUL]"
| "call_bytes (SDel k) = k @ [NUL]"

fun call_step :: "scall \<Rightarrow> place \<Rightarrow> sysmod \<Rightarrow> (place \<times> sysmod) res" where
  "call_step c Enter s = Inr (if initialized s = 0 then Clear 0 else begin_scan c, s)"
| "call_step c (Clear i) s =
     Inr (if i < USER_COUNT_s then (Clear (Suc i), set_cell i (\<lambda>u. u\<lparr>status_s := CHR ''f''\<rparr>) s)
          else (begin_scan c, s\<lparr>initialized := 1\<rparr>))"
| "call_step c (Scan i) s =
     Inr (if i < USER_COUNT_s then scan_cell c i (users_s s ! i) else Return (-1) blank_out, s)"
| "call_step c (Compare i j) s =
     (let a = call_bytes c; b = surname_s (users_s s ! i) in
      if j < length a \<and> j < length b then
        Inr (if a ! j \<noteq> b ! j then Scan (Suc i) else if a ! j = NUL then found c i else Compare i (Suc j), s)
      else Inl OutOfBounds)"
| "call_step c (Copy i k j) s =
     (let data = drop (k * USER_DATA_INPUT_MAX) (call_bytes c) in
      rbind (need OutOfBounds (c_str data)) (\<lambda>str.
      let size = length str in
      if size > MAX_INPUT_SIZE then Inr (Return (-1) blank_out, s)
      else if j < USER_DATA_INPUT_MAX then
        if j < length data then rbind (store_byte i k j (data ! j) s) (\<lambda>s. Inr (Copy i k (Suc j), s))
        else Inl OutOfBounds
      else
        rbind (store_byte i k size NUL s) (\<lambda>s. Inr (if k < 3 then Copy i (Suc k) 0 else Take i, s))))"
| "call_step c (Take i) s = Inr (Return 0 blank_out, set_cell i (\<lambda>u. u\<lparr>status_s := CHR ''t''\<rparr>) s)"
| "call_step c (Release i) s = Inr (Return 0 blank_out, set_cell i (\<lambda>u. u\<lparr>status_s := CHR ''f''\<rparr>) s)"
| "call_step c (Fetch i k j out) s =
     (let a = fetch_field k (users_s s ! i) in
      if j < length a then
        let out = deliver k [a ! j] out in
        Inr (if Suc j < USER_DATA_INPUT_MAX then Fetch i k (Suc j) out
             else if k < 3 then Fetch i (Suc k) 0 out else Return 0 out, s)
      else Inl OutOfBounds)"
| "call_step c (Return r out) s = Inr (Return r out, s)"

fun returned :: "place \<Rightarrow> bool" where
  "returned (Return r out) = True"
| "returned _ = False"


section \<open>Calls that overlap\<close>

text \<open>The shared table, and each call with its place; any call that has not returned may do the next step.\<close>

type_synonym calls = "sysmod \<times> (scall \<times> place) list"

inductive calls_step :: "calls \<Rightarrow> calls \<Rightarrow> bool" where
  step: "p < length ps \<Longrightarrow> ps ! p = (c, at) \<Longrightarrow> \<not> returned at \<Longrightarrow> call_step c at s = Inr (at', s') \<Longrightarrow>
    calls_step (s, ps) (s', ps[p := (c, at')])"

inductive_cases calls_stepE: "calls_step (s, ps) y"

definition entered :: "sysmod \<Rightarrow> scall list \<Rightarrow> calls" where
  "entered s cs = (s, map (\<lambda>c. (c, Enter)) cs)"

text \<open>One call alone.\<close>

inductive solo :: "scall \<Rightarrow> place \<times> sysmod \<Rightarrow> place \<times> sysmod \<Rightarrow> bool" for c where
  solo: "\<not> returned at \<Longrightarrow> call_step c at s = Inr (at', s') \<Longrightarrow> solo c (at, s) (at', s')"

inductive_simps solo_iff: "solo c (at, s) (at', s')"

lemma solo_det: "solo c x y \<Longrightarrow> solo c x z \<Longrightarrow> y = z"
  by (auto elim!: solo.cases)

lemma solo_returned: "solo c (at, s) y \<Longrightarrow> \<not> returned at"
  by (auto elim: solo.cases)

lemma solo_final:
  "(solo c)\<^sup>*\<^sup>* x y \<Longrightarrow> returned (fst y) \<Longrightarrow> (solo c)\<^sup>*\<^sup>* x z \<Longrightarrow> (solo c)\<^sup>*\<^sup>* z y"
proof (induction rule: converse_rtranclp_induct)
  case base
  then show ?case by (cases y) (auto elim: converse_rtranclpE dest: solo_returned)
next
  case (step x x')
  from step.prems(2) show ?case
  proof (cases rule: converse_rtranclpE)
    case base
    then show ?thesis using step.hyps by (simp add: converse_rtranclp_into_rtranclp)
  next
    case (step x'')
    then show ?thesis using solo_det [OF step(1) \<open>solo c x x'\<close>] \<open>returned (fst y)\<close> \<open>returned (fst y) \<Longrightarrow> (solo c)\<^sup>*\<^sup>* x' z \<Longrightarrow> (solo c)\<^sup>*\<^sup>* z y\<close> by simp
  qed
qed

lemma solo_unique:
  "(solo c)\<^sup>*\<^sup>* x y \<Longrightarrow> returned (fst y) \<Longrightarrow> (solo c)\<^sup>*\<^sup>* x z \<Longrightarrow> returned (fst z) \<Longrightarrow> z = y"
  using solo_final [of c x y z] solo_returned by (metis converse_rtranclpE prod.exhaust_sel)

text \<open>Steps of one call alone are steps of the calls.\<close>

lemma solo_calls:
  "(solo c)\<^sup>*\<^sup>* (at, s) (at', s') \<Longrightarrow> p < length ps \<Longrightarrow> ps ! p = (c, at) \<Longrightarrow>
    calls_step\<^sup>*\<^sup>* (s, ps) (s', ps[p := (c, at')])"
proof (induction "(at', s')" arbitrary: at' s' rule: rtranclp_induct)
  case base
  then show ?case by (metis list_update_id rtranclp.rtrancl_refl)
next
  case (step y)
  obtain at1 s1 where y: "y = (at1, s1)" by (cases y)
  have "calls_step (s1, ps[p := (c, at1)]) (s', ps[p := (c, at1), p := (c, at')])"
    using step.hyps(2) step.prems(1) by (intro calls_step.step) (auto simp: y solo_iff)
  with step.hyps(3) [OF y] step.prems show ?case by (simp add: rtranclp.rtrancl_into_rtrancl)
qed


section \<open>A call alone\<close>

lemma solo_1: "\<not> returned at \<Longrightarrow> call_step c at s = Inr y \<Longrightarrow> (solo c)\<^sup>*\<^sup>* y z \<Longrightarrow> (solo c)\<^sup>*\<^sup>* (at, s) z"
  by (cases y) (auto intro: converse_rtranclp_into_rtranclp solo.intros)

lemma solo_clear:
  assumes "length (users_s s) = USER_COUNT_s" and "i \<le> USER_COUNT_s"
  shows "(solo c)\<^sup>*\<^sup>* (Clear i, s)
    (begin_scan c, s\<lparr>users_s := take i (users_s s) @ map (\<lambda>u. u\<lparr>status_s := CHR ''f''\<rparr>) (drop i (users_s s)), initialized := 1\<rparr>)"
  using assms
proof (induction "USER_COUNT_s - i" arbitrary: i s)
  case 0
  then show ?case by - (rule solo_1 [where y = "(begin_scan c, s\<lparr>initialized := 1\<rparr>)"], simp_all)
next
  case (Suc n)
  let ?f = "\<lambda>u. u\<lparr>status_s := CHR ''f''\<rparr>"
  let ?s = "set_cell i ?f s"
  have i: "i < USER_COUNT_s" "i < length (users_s s)" using Suc by simp_all
  have "take (Suc i) (users_s ?s) @ map ?f (drop (Suc i) (users_s ?s)) =
      take i (users_s s) @ map ?f (drop i (users_s s))"
    using i(2) by (simp add: set_cell_def take_Suc_conv_app_nth flip: Cons_nth_drop_Suc)
  moreover have "(solo c)\<^sup>*\<^sup>* (Clear (Suc i), ?s) (begin_scan c, ?s\<lparr>users_s := take (Suc i) (users_s ?s) @
      map ?f (drop (Suc i) (users_s ?s)), initialized := 1\<rparr>)"
    using Suc by (intro Suc.hyps(1)) (simp_all add: set_cell_def)
  ultimately show ?case using i(1) by - (rule solo_1 [where y = "(Clear (Suc i), ?s)"], (simp_all add: set_cell_def))
qed

lemma solo_init:
  assumes "length (users_s s) = USER_COUNT_s"
  shows "(solo c)\<^sup>*\<^sup>* (Enter, s) (begin_scan c, init_users s)"
proof (cases "initialized s = 0")
  case True
  with solo_clear [OF assms, of 0 c] show ?thesis by - (rule solo_1 [where y = "(Clear 0, s)"], (simp_all add: init_users_def))
next
  case False
  then show ?thesis by - (rule solo_1 [where y = "(begin_scan c, s)"], (simp_all add: init_users_def))
qed

lemma length_set_cell [simp]: "length (users_s (set_cell i f s)) = length (users_s s)"
  by (simp add: set_cell_def)

lemma initialized_set_cell [simp]: "initialized (set_cell i f s) = initialized s"
  by (simp add: set_cell_def)

lemma set_cell_nth: "i < length (users_s s) \<Longrightarrow> users_s (set_cell i f s) ! j = (if i = j then f (users_s s ! i) else users_s s ! j)"
  by (simp add: set_cell_def)

lemma set_cell_twice: "i < length (users_s s) \<Longrightarrow> set_cell i f (set_cell i g s) = set_cell i (\<lambda>u. f (g u)) s"
  by (simp add: set_cell_def)

lemma set_cell_slots: "slots_s (set_cell i f s) = (slots_s s)[i := slot_s (f (users_s s ! i))]"
  by (simp add: set_cell_def slots_s_def map_update)

lemma set_cell_id [simp]: "set_cell i (\<lambda>u. u) s = s"
  by (simp add: set_cell_def)

lemma set_cell_cong: "f (users_s s ! i) = g (users_s s ! i) \<Longrightarrow> set_cell i f s = set_cell i g s"
  by (simp add: set_cell_def)

lemma get_put_field [simp]:
  "k < 4 \<Longrightarrow> k' < 4 \<Longrightarrow> get_field k' (put_field k a u) = (if k' = k then a else get_field k' u)"
  by (auto simp: get_field_def put_field_def)

lemma put_get_field [simp]: "put_field k (get_field k u) u = u"
  by (simp add: get_field_def put_field_def)

lemma put_put_field [simp]: "put_field k a (put_field k b u) = put_field k a u"
  by (simp add: put_field_def)

lemma get_field_shape: "cell_shape u \<Longrightarrow> length (get_field k u) = USER_DATA_INPUT_MAX"
  by (simp add: cell_shape_def get_field_def)

lemma put_field_shape: "cell_shape u \<Longrightarrow> length a = USER_DATA_INPUT_MAX \<Longrightarrow> cell_shape (put_field k a u)"
  by (simp add: cell_shape_def put_field_def)

text \<open>The copies into a cell: each terminated field arrives as it is.\<close>

definition ud_field :: "nat \<Rightarrow> user_data \<Rightarrow> char list" where
  "ud_field k d = (if k = 0 then ud_name d else if k = 1 then ud_surname d else if k = 2 then ud_phone d else ud_email d)"

lemma ud_field_ok: "ud_wf d \<Longrightarrow> array_ok (ud_field k d)"
  by (simp add: ud_wf_def ud_field_def)

lemma field_data:
  assumes "ud_wf d" and "k < 4"
  shows "\<exists>rest. drop (k * USER_DATA_INPUT_MAX) (ud_bytes d) = ud_field k d @ rest"
proof -
  from assms(2) consider "k = 0" | "k = 1" | "k = 2" | "k = 3" by linarith
  then show ?thesis
    by cases (use drop_fields [OF assms(1)] in \<open>auto simp: ud_field_def ud_bytes_def\<close>)
qed

lemma copy_turn:
  assumes "ud_wf d" and "k < 4" and sh: "cell_shape (users_s s ! i)"
  shows "j < USER_DATA_INPUT_MAX \<Longrightarrow> call_step (SAdd d) (Copy i k j) s =
      Inr (Copy i k (Suc j), set_cell i (\<lambda>u. put_field k ((get_field k u)[j := ud_field k d ! j]) u) s)"
    and "\<exists>n<USER_DATA_INPUT_MAX. (ud_field k d)[n := NUL] = ud_field k d \<and>
      call_step (SAdd d) (Copy i k USER_DATA_INPUT_MAX) s =
        Inr (if k < 3 then Copy i (Suc k) 0 else Take i, set_cell i (\<lambda>u. put_field k ((get_field k u)[n := NUL]) u) s)"
proof -
  obtain rest where r: "drop (k * USER_DATA_INPUT_MAX) (ud_bytes d) = ud_field k d @ rest" using field_data [OF assms(1,2)] by blast
  obtain str where str: "c_str (ud_field k d) = Some str" "length str \<le> MAX_INPUT_SIZE" "length (ud_field k d) = USER_DATA_INPUT_MAX"
    by (rule array_okE [OF ud_field_ok [OF assms(1), of k]])
  note len = get_field_shape [OF sh, of k]
  have small: "length str < USER_DATA_INPUT_MAX" using str(2) by (simp add: MAX_INPUT_SIZE_def USER_DATA_INPUT_MAX_def)
  show "call_step (SAdd d) (Copy i k j) s =
      Inr (Copy i k (Suc j), set_cell i (\<lambda>u. put_field k ((get_field k u)[j := ud_field k d ! j]) u) s)"
    if "j < USER_DATA_INPUT_MAX"
    using that r c_str_more [OF str(1), of rest] str(2,3) len by (simp add: store_byte_def Let_def nth_append)
  show "\<exists>n<USER_DATA_INPUT_MAX. (ud_field k d)[n := NUL] = ud_field k d \<and>
      call_step (SAdd d) (Copy i k USER_DATA_INPUT_MAX) s =
        Inr (if k < 3 then Copy i (Suc k) 0 else Take i, set_cell i (\<lambda>u. put_field k ((get_field k u)[n := NUL]) u) s)"
    using r c_str_more [OF str(1), of rest] str(2) len small c_str_update [OF str(1)]
    by (intro exI [of _ "length str"]) (simp add: store_byte_def Let_def)
qed

lemma solo_bytes:
  assumes "ud_wf d" and "k < 4" and i: "i < length (users_s s)" and sh: "cell_shape (users_s s ! i)"
    and "j \<le> USER_DATA_INPUT_MAX"
  shows "(solo (SAdd d))\<^sup>*\<^sup>* (Copy i k j, s)
    (Copy i k USER_DATA_INPUT_MAX, set_cell i (\<lambda>u. put_field k (take j (get_field k u) @ drop j (ud_field k d)) u) s)"
  using assms(5) i sh
proof (induction arbitrary: s rule: inc_induct)
  case base
  have "length (ud_field k d) = USER_DATA_INPUT_MAX" using ud_field_ok [OF assms(1)] by (simp add: array_ok_def)
  then have "set_cell i (\<lambda>u. put_field k (take USER_DATA_INPUT_MAX (get_field k u) @ drop USER_DATA_INPUT_MAX (ud_field k d)) u) s =
      set_cell i (\<lambda>u. u) s"
    using get_field_shape [OF base(2), of k] by (intro set_cell_cong) simp
  then show ?case by simp
next
  case (step n)
  let ?a = "ud_field k d"
  let ?f = "\<lambda>u. put_field k ((get_field k u)[n := ?a ! n]) u"
  let ?s = "set_cell i ?f s"
  have la: "length ?a = USER_DATA_INPUT_MAX" using ud_field_ok [OF assms(1)] by (simp add: array_ok_def)
  note lf = get_field_shape [OF step.prems(2), of k]
  have "cell_shape (users_s ?s ! i)"
    using step.prems lf by (simp add: set_cell_nth put_field_shape)
  from step.IH [OF _ this] step.prems(1)
  have next_bytes: "(solo (SAdd d))\<^sup>*\<^sup>* (Copy i k (Suc n), ?s)
      (Copy i k USER_DATA_INPUT_MAX, set_cell i (\<lambda>u. put_field k (take (Suc n) (get_field k u) @ drop (Suc n) ?a) u) ?s)" by simp
  have same: "set_cell i (\<lambda>u. put_field k (take (Suc n) (get_field k u) @ drop (Suc n) ?a) u) ?s =
      set_cell i (\<lambda>u. put_field k (take n (get_field k u) @ drop n ?a) u) s"
    unfolding set_cell_twice [OF step.prems(1)]
  proof (rule set_cell_cong)
    have "take (Suc n) ((get_field k (users_s s ! i))[n := ?a ! n]) = take n (get_field k (users_s s ! i)) @ [?a ! n]"
      using lf step.hyps(2) by (simp add: take_Suc_conv_app_nth)
    then show "put_field k (take (Suc n) (get_field k (?f (users_s s ! i))) @ drop (Suc n) ?a) (?f (users_s s ! i)) =
        put_field k (take n (get_field k (users_s s ! i)) @ drop n ?a) (users_s s ! i)"
      using la step.hyps(2) assms(2) by (simp add: Cons_nth_drop_Suc)
  qed
  show ?case
    by (rule solo_1 [OF _ copy_turn(1) [OF assms(1,2) step.prems(2) step.hyps(2)] next_bytes [unfolded same]]) simp
qed

lemma solo_field:
  assumes "ud_wf d" and "k < 4" and i: "i < length (users_s s)" and sh: "cell_shape (users_s s ! i)"
  shows "(solo (SAdd d))\<^sup>*\<^sup>* (Copy i k 0, s)
    (if k < 3 then Copy i (Suc k) 0 else Take i, set_cell i (put_field k (ud_field k d)) s)"
proof -
  let ?s = "set_cell i (put_field k (ud_field k d)) s"
  have "length (ud_field k d) = USER_DATA_INPUT_MAX" using ud_field_ok [OF assms(1)] by (simp add: array_ok_def)
  then have sh': "cell_shape (users_s ?s ! i)" using i sh by (simp add: set_cell_nth put_field_shape)
  have 1: "(solo (SAdd d))\<^sup>*\<^sup>* (Copy i k 0, s) (Copy i k USER_DATA_INPUT_MAX, ?s)"
    using solo_bytes [OF assms, of 0] by simp
  from copy_turn(2) [OF assms(1,2) sh'] obtain n where
    n: "(ud_field k d)[n := NUL] = ud_field k d" "call_step (SAdd d) (Copy i k USER_DATA_INPUT_MAX) ?s =
      Inr (if k < 3 then Copy i (Suc k) 0 else Take i, set_cell i (\<lambda>u. put_field k ((get_field k u)[n := NUL]) u) ?s)" by blast
  have "set_cell i (\<lambda>u. put_field k ((get_field k u)[n := NUL]) u) ?s = ?s"
    unfolding set_cell_twice [OF i] using n(1) assms(2) by simp
  with n(2) have "(solo (SAdd d))\<^sup>*\<^sup>* (Copy i k USER_DATA_INPUT_MAX, ?s) (if k < 3 then Copy i (Suc k) 0 else Take i, ?s)"
    by - (rule solo_1, simp, assumption, simp)
  with 1 show ?thesis by (rule rtranclp_trans)
qed

text \<open>The fields from the \<open>k\<close>-th on.\<close>

definition fill :: "nat \<Rightarrow> user_data \<Rightarrow> User_s \<Rightarrow> User_s" where
  "fill k d u = u\<lparr>name_s := if k = 0 then ud_name d else name_s u, surname_s := if k \<le> 1 then ud_surname d else surname_s u,
     phone_s := if k \<le> 2 then ud_phone d else phone_s u, email_s := ud_email d\<rparr>"

lemma fill_put: "k < 3 \<Longrightarrow> fill (Suc k) d (put_field k (ud_field k d) u) = fill k d u"
  "fill 3 d u = put_field 3 (ud_field 3 d) u"
  by (auto simp: fill_def put_field_def ud_field_def)

lemma fill_shape: "cell_shape u \<Longrightarrow> ud_wf d \<Longrightarrow> cell_shape (fill k d u)"
  by (simp add: cell_shape_def fill_def ud_wf_def array_ok_def)

lemma solo_copy:
  assumes "ud_wf d" and "i < length (users_s s)" and "cell_shape (users_s s ! i)" and "k \<le> 3"
  shows "(solo (SAdd d))\<^sup>*\<^sup>* (Copy i k 0, s) (Take i, set_cell i (fill k d) s)"
  using assms(4,2,3)
proof (induction arbitrary: s rule: inc_induct)
  case base
  then show ?case using solo_field [OF assms(1) _ base, of 3] by (simp add: fill_put(2) [abs_def])
next
  case (step n)
  let ?s = "set_cell i (put_field n (ud_field n d)) s"
  have "length (ud_field n d) = USER_DATA_INPUT_MAX" using ud_field_ok [OF assms(1)] by (simp add: array_ok_def)
  then have "cell_shape (users_s ?s ! i)" using step.prems by (simp add: set_cell_nth put_field_shape)
  from step.IH [OF _ this] step.prems(1) step.hyps
  have "(solo (SAdd d))\<^sup>*\<^sup>* (Copy i (Suc n) 0, ?s) (Take i, set_cell i (fill n d) s)"
    by (simp add: set_cell_twice fill_put(1) cong: if_cong)
  moreover have "(solo (SAdd d))\<^sup>*\<^sup>* (Copy i n 0, s) (Copy i (Suc n) 0, ?s)"
    using solo_field [OF assms(1) _ step.prems, of n] step.hyps by simp
  ultimately show ?case by (meson rtranclp_trans)
qed

lemma solo_store:
  assumes "ud_wf d" and "i < length (users_s s)" and "cell_shape (users_s s ! i)" and "k \<le> 3"
  shows "(solo (SAdd d))\<^sup>*\<^sup>* (Copy i k 0, s) (Return 0 blank_out, set_cell i (\<lambda>u. (fill k d u)\<lparr>status_s := CHR ''t''\<rparr>) s)"
proof -
  have "(solo (SAdd d))\<^sup>*\<^sup>* (Take i, set_cell i (fill k d) s)
      (Return 0 blank_out, set_cell i (\<lambda>u. (fill k d u)\<lparr>status_s := CHR ''t''\<rparr>) s)"
    by (rule solo_1 [where y = "(Return 0 blank_out, set_cell i (\<lambda>u. (fill k d u)\<lparr>status_s := CHR ''t''\<rparr>) s)"])
      (simp_all add: set_cell_twice [OF assms(2)])
  with solo_copy [OF assms] show ?thesis by (rule rtranclp_trans)
qed

lemma slot_filled: "slot_s ((fill 0 d u)\<lparr>status_s := CHR ''t''\<rparr>) = Some d"
  by (simp add: slot_s_def fill_def)

text \<open>The copies to the caller.\<close>

lemma deliver_append: "deliver k ys (deliver k xs out) = deliver k (xs @ ys) out"
  by (simp add: deliver_def)

lemma fetch_field_shape: "cell_shape u \<Longrightarrow> length (fetch_field k u) = USER_DATA_INPUT_MAX"
  by (simp add: cell_shape_def fetch_field_def)

lemma solo_fetch_field:
  assumes "cell_shape (users_s s ! i)"
  shows "(solo c)\<^sup>*\<^sup>* (Fetch i k 0 out, s)
    (let out = deliver k (fetch_field k (users_s s ! i)) out in if k < 3 then Fetch i (Suc k) 0 out else Return 0 out, s)"
proof -
  let ?a = "fetch_field k (users_s s ! i)"
  note len = fetch_field_shape [OF assms, of k]
  have "(solo c)\<^sup>*\<^sup>* (Fetch i k j out, s)
      (let out = deliver k (drop j ?a) out in if k < 3 then Fetch i (Suc k) 0 out else Return 0 out, s)"
    if "j < USER_DATA_INPUT_MAX" for j out
    using that
  proof (induction "USER_DATA_INPUT_MAX - Suc j" arbitrary: j out)
    case 0
    then have j: "Suc j = USER_DATA_INPUT_MAX" by simp
    then have d: "drop j ?a = [?a ! j]" using len by (metis Cons_nth_drop_Suc drop_all lessI order_refl)
    show ?case
      by (rule solo_1 [where y = "(if k < 3 then Fetch i (Suc k) 0 (deliver k [?a ! j] out) else Return 0 (deliver k [?a ! j] out), s)"])
        (use j len d in \<open>simp_all add: Let_def\<close>)
  next
    case (Suc n)
    then have j: "Suc j < USER_DATA_INPUT_MAX" "n = USER_DATA_INPUT_MAX - Suc (Suc j)" by simp_all
    have d: "drop j ?a = ?a ! j # drop (Suc j) ?a" using j len by (simp add: Cons_nth_drop_Suc)
    have "(solo c)\<^sup>*\<^sup>* (Fetch i k (Suc j) (deliver k [?a ! j] out), s)
        (let out = deliver k (drop j ?a) out in if k < 3 then Fetch i (Suc k) 0 out else Return 0 out, s)"
      using Suc.hyps(1) [OF j(2,1), of "deliver k [?a ! j] out"] unfolding deliver_append d by simp
    then show ?case
      by - (rule solo_1 [where y = "(Fetch i k (Suc j) (deliver k [?a ! j] out), s)"], use j len in \<open>simp_all add: Let_def\<close>)
  qed
  from this [of 0 out] show ?thesis by (simp add: USER_DATA_INPUT_MAX_def)
qed

lemma solo_fetch:
  assumes "slot_s (users_s s ! i) = Some d" and sh: "cell_shape (users_s s ! i)"
  shows "(solo c)\<^sup>*\<^sup>* (Fetch i 0 0 blank_out, s) (Return 0 d, s)"
proof -
  let ?u = "users_s s ! i"
  let ?o1 = "deliver 0 (fetch_field 0 ?u) blank_out" let ?o2 = "deliver 1 (fetch_field 1 ?u) ?o1"
  let ?o3 = "deliver 2 (fetch_field 2 ?u) ?o2" let ?o4 = "deliver 3 (fetch_field 3 ?u) ?o3"
  note f = solo_fetch_field [OF sh, of c]
  have "(solo c)\<^sup>*\<^sup>* (Fetch i 0 0 blank_out, s) (Fetch i 1 0 ?o1, s)" using f [of 0 blank_out] by (simp add: Let_def)
  also have "(solo c)\<^sup>*\<^sup>* \<dots> (Fetch i 2 0 ?o2, s)" using f [of 1 ?o1] by (simp add: Let_def numeral_2_eq_2)
  also have "(solo c)\<^sup>*\<^sup>* \<dots> (Fetch i 3 0 ?o3, s)" using f [of 2 ?o2] by (simp add: Let_def numeral_3_eq_3)
  also have "(solo c)\<^sup>*\<^sup>* \<dots> (Return 0 ?o4, s)" using f [of 3 ?o3] by (simp add: Let_def)
  also have "?o4 = d" using assms(1) by (auto simp: deliver_def fetch_field_def slot_s_def blank_out_def split: if_splits)
  finally show ?thesis .
qed

text \<open>\<open>strcmp\<close>, character by character, with a terminated surname.\<close>

lemma solo_compare:
  assumes str: "c_str (surname_s (users_s s ! i)) = Some str" and k: "NUL \<notin> set k" and c: "call_bytes c = k @ [NUL]"
  shows "(solo c)\<^sup>*\<^sup>* (Compare i 0, s) (if k = str then found c i else Scan (Suc i), s)"
proof -
  let ?b = "surname_s (users_s s ! i)"
  obtain r where r: "?b = str @ NUL # r" and ns: "NUL \<notin> set str" using str by (auto elim: c_str_SomeE)
  have "(solo c)\<^sup>*\<^sup>* (Compare i j, s) (if k = str then found c i else Scan (Suc i), s)"
    if "j \<le> length k" "j \<le> length str" "take j k = take j str" for j
    using that
  proof (induction "length k - j" arbitrary: j)
    case 0
    then have j: "j = length k" by simp
    have lt: "j < length ?b" using 0 r by simp
    show ?case
    proof (cases "j = length str")
      case True
      then have "k = str" "?b ! j = NUL" using 0 j r by simp_all
      then show ?thesis using j lt c by - (rule solo_1 [where y = "(found c i, s)"], (simp_all add: Let_def nth_append))
    next
      case False
      then have "j < length str" using 0 by simp
      then have "?b ! j \<noteq> NUL" using r ns by (metis nth_append nth_mem)
      moreover have "k \<noteq> str" using False j by blast
      ultimately show ?thesis
        using j lt c by - (rule solo_1 [where y = "(Scan (Suc i), s)"], (simp_all add: Let_def nth_append))
    qed
  next
    case (Suc n)
    then have j: "j < length k" "n = length k - Suc j" by simp_all
    have aj: "(k @ [NUL]) ! j = k ! j" "k ! j \<noteq> NUL" using j(1) k by (simp_all add: nth_append) (metis nth_mem)
    have lt: "j < length ?b" using Suc.prems(2) r by simp
    show ?case
    proof (cases "k ! j = ?b ! j")
      case False
      have "k \<noteq> str" using False j(1) r by (auto simp: nth_append)
      then show ?thesis
        using False j lt aj c by - (rule solo_1 [where y = "(Scan (Suc i), s)"], (simp_all add: Let_def))
    next
      case True
      have "j < length str"
      proof (rule ccontr)
        assume "\<not> j < length str"
        then have "j = length str" using Suc.prems(2) by simp
        then show False using True aj(2) r by simp
      qed
      moreover from this have "take (Suc j) k = take (Suc j) str"
        using True j(1) r Suc.prems(3) by (simp add: take_Suc_conv_app_nth nth_append)
      ultimately have "(solo c)\<^sup>*\<^sup>* (Compare i (Suc j), s) (if k = str then found c i else Scan (Suc i), s)"
        using Suc.hyps(1) [OF j(2)] j(1) by simp
      then show ?thesis
        using True j lt aj c by - (rule solo_1 [where y = "(Compare i (Suc j), s)"], (simp_all add: Let_def))
    qed
  qed
  from this [of 0] show ?thesis by simp
qed

text \<open>The search loops stop at the cell the specification finds.\<close>

fun wanted :: "scall \<Rightarrow> user_data option \<Rightarrow> bool" where
  "wanted (SAdd d) x = (x = None)"
| "wanted (SGet k) x = slot_match ud_key k x"
| "wanted (SDel k) x = slot_match ud_key k x"

lemma solo_cell:
  assumes "ready s" and ok: "scall_ok c" and i: "i < length (users_s s)"
  shows "(solo c)\<^sup>*\<^sup>* (Scan i, s) (if wanted c (slots_s s ! i) then found c i else Scan (Suc i), s)"
proof -
  let ?u = "users_s s ! i"
  have sl: "slots_s s ! i = slot_s ?u" and iu: "i < USER_COUNT_s"
    using i assms(1) by (simp_all add: slots_s_def ready_def sys_inv_def)
  have wf: "ud_wf d" if "slot_s ?u = Some d" for d
    using assms(1) i that unfolding ready_def sys_inv_def slots_s_def by (metis length_map nth_map nth_mem)
  have st: "status_s ?u = CHR ''f'' \<longleftrightarrow> slot_s ?u = None"
  proof -
    have "?u \<in> set (users_s s)" using i by simp
    moreover have "\<forall>u\<in>set (users_s s). status_s u = CHR ''f'' \<or> status_s u = CHR ''t''"
      using assms(1) by (auto simp: ready_def sys_inv_def)
    ultimately show ?thesis by (fastforce simp: slot_s_def)
  qed
  have first: "(solo c)\<^sup>*\<^sup>* (Scan i, s) (scan_cell c i ?u, s)"
    using iu by - (rule solo_1 [where y = "(scan_cell c i ?u, s)"], simp_all)
  have cmp: "(solo c)\<^sup>*\<^sup>* (Compare i 0, s) (if slot_match ud_key k (slot_s ?u) then found c i else Scan (Suc i), s)"
    if t: "status_s ?u = CHR ''t''" and k: "NUL \<notin> set k" "call_bytes c = k @ [NUL]" for k
  proof -
    let ?d = "\<lparr>ud_name = name_s ?u, ud_surname = surname_s ?u, ud_phone = phone_s ?u, ud_email = email_s ?u\<rparr>"
    have su: "slot_s ?u = Some ?d" using t by (simp add: slot_s_def)
    with wf have "array_ok (surname_s ?u)" by (auto simp: ud_wf_def)
    then obtain str where str: "c_str (surname_s ?u) = Some str" by (rule array_okE)
    have "slot_match ud_key k (slot_s ?u) = (k = str)" using su str by (auto simp: ud_key_def)
    with solo_compare [OF str k] show ?thesis by simp
  qed
  have nt: "slot_s ?u = None" if "status_s ?u \<noteq> CHR ''t''" using that by (simp add: slot_s_def)
  show ?thesis
  proof (cases c)
    case (SAdd d)
    with first show ?thesis by (cases "slot_s ?u") (simp_all add: sl st)
  next
    case (SGet k)
    show ?thesis
    proof (cases "status_s ?u = CHR ''t''")
      case True
      with first cmp [of k] ok SGet show ?thesis by (auto simp: sl intro: rtranclp_trans)
    next
      case False
      with first nt SGet show ?thesis by (simp add: sl)
    qed
  next
    case (SDel k)
    show ?thesis
    proof (cases "status_s ?u = CHR ''t''")
      case True
      with first cmp [of k] ok SDel show ?thesis by (auto simp: sl intro: rtranclp_trans)
    next
      case False
      with first nt SDel show ?thesis by (simp add: sl)
    qed
  qed
qed

lemma solo_scan:
  assumes "ready s" and "scall_ok c" and "m \<le> USER_COUNT_s" and "\<And>j. j < m \<Longrightarrow> \<not> wanted c (slots_s s ! j)"
  shows "(solo c)\<^sup>*\<^sup>* (Scan 0, s) (Scan m, s)"
  using assms(3,4)
proof (induction m)
  case 0
  then show ?case by simp
next
  case (Suc m)
  have "(solo c)\<^sup>*\<^sup>* (Scan m, s) (Scan (Suc m), s)"
    using solo_cell [OF assms(1,2), of m] Suc.prems assms(1) by (simp add: ready_def sys_inv_def)
  with Suc show ?case by (meson Suc_leD less_SucI rtranclp_trans)
qed

lemma solo_search:
  assumes "ready s" and "scall_ok c"
  shows "(solo c)\<^sup>*\<^sup>* (Scan 0, s) (case find_first (wanted c) (slots_s s) of
    None \<Rightarrow> (Return (-1) blank_out, s) | Some i \<Rightarrow> (found c i, s))"
proof -
  have len: "length (users_s s) = USER_COUNT_s" "length (slots_s s) = USER_COUNT_s"
    using assms(1) by (simp_all add: ready_def sys_inv_def slots_s_def)
  show ?thesis
  proof (cases "find_first (wanted c) (slots_s s)")
    case None
    then have "\<not> wanted c (slots_s s ! j)" if "j < USER_COUNT_s" for j
      using that len(2) by (simp add: find_first_None_iff)
    then have "(solo c)\<^sup>*\<^sup>* (Scan 0, s) (Scan USER_COUNT_s, s)"
      by (intro solo_scan [OF assms]) simp_all
    moreover have "(solo c)\<^sup>*\<^sup>* (Scan USER_COUNT_s, s) (Return (-1) blank_out, s)"
      by (rule solo_1 [where y = "(Return (-1) blank_out, s)"]) simp_all
    ultimately show ?thesis using None by simp
  next
    case (Some i)
    then have i: "i < USER_COUNT_s" "wanted c (slots_s s ! i)" "\<And>j. j < i \<Longrightarrow> \<not> wanted c (slots_s s ! j)"
      using len(2) by (simp_all add: find_first_Some_iff)
    then have "(solo c)\<^sup>*\<^sup>* (Scan 0, s) (Scan i, s)" by (intro solo_scan [OF assms]) simp_all
    moreover have "(solo c)\<^sup>*\<^sup>* (Scan i, s) (found c i, s)" using solo_cell [OF assms, of i] i(1,2) len(1) by simp
    ultimately show ?thesis using Some by simp
  qed
qed

lemma solo_find:
  assumes "sys_inv s" and ok: "scall_ok c"
  shows "(solo c)\<^sup>*\<^sup>* (Enter, s) (case find_first (wanted c) (slots_s s) of
    None \<Rightarrow> (Return (-1) blank_out, init_users s) | Some i \<Rightarrow> (found c i, init_users s))"
proof -
  from init_users_ready [OF assms(1)] have s: "ready (init_users s)" "slots_s (init_users s) = slots_s s" by auto
  have len: "length (users_s s) = USER_COUNT_s" using assms(1) by (simp add: sys_inv_def)
  have "begin_scan c = Scan 0" using ok by (cases c) simp_all
  with solo_init [OF len, of c] solo_search [OF s(1) ok] show ?thesis by (simp add: s(2))
qed

text \<open>A call that runs alone does what the specification of the call says.\<close>

lemma solo_call:
  assumes "sys_inv s" and ok: "scall_ok c" and "scall_spec c (slots_s s) = ((r, out), xs)"
  shows "\<exists>s'. (solo c)\<^sup>*\<^sup>* (Enter, s) (Return r out, s') \<and> sys_inv s' \<and> slots_s s' = xs"
proof -
  let ?s = "init_users s"
  from init_users_ready [OF assms(1)] have s: "ready ?s" "slots_s ?s = slots_s s" by auto
  have len: "length (users_s s) = USER_COUNT_s" using assms(1) by (simp add: sys_inv_def)
  have len': "length (users_s ?s) = USER_COUNT_s" using s(1) by (simp add: ready_def sys_inv_def)
  note r = solo_find [OF assms(1) ok]
  have sp: "\<And>k. wanted (SGet k) = slot_match ud_key k" "\<And>k. wanted (SDel k) = slot_match ud_key k"
    "\<And>d. wanted (SAdd d) = (\<lambda>x. x = None)" by auto
  show ?thesis
  proof (cases "find_first (wanted c) (slots_s s)")
    case None
    have "r = -1 \<and> out = blank_out \<and> xs = slots_s s"
    proof (cases c)
      case (SAdd d)
      then have "None \<notin> set (slots_s s)" using None by (auto simp: sp find_first_None_iff)
      with SAdd assms(3) show ?thesis by (auto simp: slot_add_full)
    qed (use None assms(3) in \<open>auto simp: sp slot_find_find_first slot_del_find_first get_view_def\<close>)
    with r None s show ?thesis by (intro exI [of _ ?s]) (simp add: ready_inv)
  next
    case (Some i)
    then have i: "i < length (users_s ?s)" "wanted c (slots_s s ! i)"
      using len len' by (auto simp: find_first_Some_iff slots_s_def)
    have r: "(solo c)\<^sup>*\<^sup>* (Enter, s) (found c i, ?s)" using r Some by simp
    note sh = ready_shape [OF s(1) i(1)]
    show ?thesis
    proof (cases c)
      case (SAdd d)
      let ?f = "\<lambda>u. (fill 0 d u)\<lparr>status_s := CHR ''t''\<rparr>"
      have wf: "ud_wf d" using ok SAdd by simp
      have su: "slot_s (?f (users_s ?s ! i)) = Some d" by (rule slot_filled)
      have "ready (set_cell i ?f ?s) \<and> slots_s (set_cell i ?f ?s) = (slots_s s)[i := Some d]"
        using ready_update [OF s(1) i(1), of "?f (users_s ?s ! i)"] su wf s(2) fill_shape [OF sh wf] by (simp add: set_cell_def)
      moreover have "None \<in> set (slots_s s)"
        using i SAdd s(2) by (metis length_map nth_mem slots_s_def wanted.simps(1))
      moreover have "(solo c)\<^sup>*\<^sup>* (Enter, s) (Return 0 blank_out, set_cell i ?f ?s)"
        using r solo_store [OF wf i(1) sh, of 0] by (simp add: SAdd)
      ultimately show ?thesis
        using assms(3) Some by (intro exI [of _ "set_cell i ?f ?s"]) (auto simp: SAdd sp slot_add_find_first ready_inv)
    next
      case (SGet k)
      obtain d where d: "slots_s s ! i = Some d" using i(2) SGet by (cases "slots_s s ! i") auto
      then have "slot_s (users_s ?s ! i) = Some d" using i(1) s(2) by (metis nth_map slots_s_def)
      from r solo_fetch [OF this sh] have "(solo c)\<^sup>*\<^sup>* (Enter, s) (Return 0 d, ?s)"
        unfolding SGet found.simps by (rule rtranclp_trans)
      then show ?thesis using assms(3) Some d s
        by (intro exI [of _ ?s]) (auto simp: SGet sp slot_find_find_first get_view_def ready_inv)
    next
      case (SDel k)
      let ?f = "\<lambda>u. u\<lparr>status_s := CHR ''f''\<rparr>"
      have su: "slot_s (?f (users_s ?s ! i)) = None" by (simp add: slot_s_def)
      have "ready (set_cell i ?f ?s) \<and> slots_s (set_cell i ?f ?s) = (slots_s s)[i := None]"
        using ready_update [OF s(1) i(1), of "?f (users_s ?s ! i)"] su s(2) sh by (simp add: set_cell_def)
      moreover have "(solo c)\<^sup>*\<^sup>* (Release i, ?s) (Return 0 blank_out, set_cell i ?f ?s)"
        by (rule solo_1 [where y = "(Return 0 blank_out, set_cell i ?f ?s)"]) simp_all
      moreover have "slot_find ud_key k (slots_s s) \<noteq> None"
        using i Some by (cases "slots_s s ! i") (auto simp: SDel sp slot_find_find_first)
      ultimately show ?thesis using assms(3) Some r
        by (intro exI [of _ "set_cell i ?f ?s"]) (auto simp: SDel sp slot_del_find_first ready_inv)
    qed
  qed
qed

text \<open>It returns what the call of \<open>Sys_Store\<close> returns, and leaves the same contacts.\<close>

lemma solo_scall_run:
  assumes "sys_inv s" and "scall_ok c" and "(solo c)\<^sup>*\<^sup>* (Enter, s) (Return r out, s')"
  shows "\<exists>t. scall_run c s = Inr ((r, out), t) \<and> slots_s t = slots_s s' \<and> sys_inv s'"
proof -
  obtain r1 out1 xs where sp: "scall_spec c (slots_s s) = ((r1, out1), xs)" by (metis prod.collapse)
  from solo_call [OF assms(1,2) sp] obtain s1 where
    s1: "(solo c)\<^sup>*\<^sup>* (Enter, s) (Return r1 out1, s1)" "sys_inv s1" "slots_s s1 = xs" by blast
  have "(Return r out, s') = (Return r1 out1, s1)" by (rule solo_unique [OF s1(1) _ assms(3)]) simp_all
  with scall_run_spec [OF assms(1,2)] sp s1(2,3) show ?thesis by auto
qed

end
