(* ===== verification/Sys_Overlap.thy ===== *)
theory Sys_Overlap
  imports Sys_Race Sys_Claims
begin

text \<open>
  What the system calls keep when their accesses to the table interleave in any way and copies between
  user and kernel memory fail, and which contacts an unlucky interleaving loses.
\<close>


section \<open>Every schedule\<close>

text \<open>
  The table between two accesses: the arrays have their lengths and the status of a cell is known once the table is
  initialised. \<open>shared_ok\<close> says that every array has a terminator as well.
\<close>

definition known :: "char \<Rightarrow> bool" where
  "known c \<longleftrightarrow> c = CHR ''f'' \<or> c = CHR ''t''"

definition table_ok :: "sysmod \<Rightarrow> bool" where
  "table_ok s \<longleftrightarrow> length (users_s s) = USER_COUNT_s \<and> (\<forall>u\<in>set (users_s s). cell_shape u) \<and>
     (if initialized s = 0 then \<forall>u\<in>set (users_s s). status_s u \<noteq> CHR ''t''
      else \<forall>u\<in>set (users_s s). known (status_s u))"

definition terminated :: "sysmod \<Rightarrow> nat \<Rightarrow> nat \<Rightarrow> bool" where
  "terminated s i k \<longleftrightarrow> NUL \<in> set (get_field k (users_s s ! i))"

definition shared_ok :: "sysmod \<Rightarrow> bool" where
  "shared_ok s \<longleftrightarrow> table_ok s \<and> (\<forall>i<USER_COUNT_s. \<forall>k<4. terminated s i k)"

lemma shared_static: "shared_ok sys_static"
  by (auto simp: shared_ok_def table_ok_def terminated_def sys_static_def zero_User_s_def cell_shape_def zero_array_def
      get_field_def USER_DATA_INPUT_MAX_def)

lemma shared_inv:
  assumes "shared_ok s"
  shows "sys_inv s"
proof -
  have t: "table_ok s" using assms by (simp add: shared_ok_def)
  have "ud_wf d" if d: "Some d \<in> set (slots_s s)" for d
  proof -
    from d obtain i where i: "i < length (users_s s)" "slot_s (users_s s ! i) = Some d"
      by (auto simp: slots_s_def in_set_conv_nth)
    let ?u = "users_s s ! i"
    have "i < USER_COUNT_s" and sh: "cell_shape ?u" using i(1) t by (simp_all add: table_ok_def)
    then have n: "NUL \<in> set (get_field k ?u)" if "k < 4" for k
      using assms that by (simp add: shared_ok_def terminated_def)
    have "NUL \<in> set (name_s ?u)" "NUL \<in> set (surname_s ?u)" "NUL \<in> set (phone_s ?u)" "NUL \<in> set (email_s ?u)"
      using n [of 0] n [of 1] n [of 2] n [of 3] by (simp_all add: get_field_def)
    then show ?thesis
      using sh i(2) by (auto simp: slot_s_def ud_wf_def array_ok_def cell_shape_def split: if_splits)
  qed
  then show ?thesis using t by (auto simp: table_ok_def sys_inv_def known_def)
qed

lemma table_set_cell:
  assumes "table_ok s" and "i < USER_COUNT_s" and "cell_shape (f (users_s s ! i))"
    and "if initialized s = 0 then status_s (f (users_s s ! i)) \<noteq> CHR ''t'' else known (status_s (f (users_s s ! i)))"
  shows "table_ok (set_cell i f s)"
  using assms set_update_subset_insert [of "users_s s" i "f (users_s s ! i)"]
  by (auto simp: table_ok_def set_cell_def split: if_splits)

text \<open>What holds at each place, and what other calls may change of it.\<close>

fun call_key :: "scall \<Rightarrow> string option" where
  "call_key (SAdd d) = None"
| "call_key (SGet k) = Some k"
| "call_key (SDel k) = Some k"

lemma call_keyD: "call_key c = Some k \<Longrightarrow> scall_ok c \<Longrightarrow>
    call_bytes c = k @ [NUL] \<and> NUL \<notin> set k \<and> length k \<le> MAX_INPUT_SIZE"
  by (cases c) simp_all

fun place_ok :: "scall \<Rightarrow> place \<Rightarrow> sysmod \<Rightarrow> bool" where
  "place_ok c Enter s = True"
| "place_ok c (Clear i) s = (i \<le> USER_COUNT_s \<and> (\<forall>j<i. known (status_s (users_s s ! j))))"
| "place_ok c (Scan i) s = (i \<le> USER_COUNT_s \<and> initialized s \<noteq> 0)"
| "place_ok c (Compare i j) s =
     (i < USER_COUNT_s \<and> initialized s \<noteq> 0 \<and> (case call_key c of None \<Rightarrow> False | Some k \<Rightarrow> j \<le> length k))"
| "place_ok c (Copy i k j) s =
     (i < USER_COUNT_s \<and> initialized s \<noteq> 0 \<and> k < 4 \<and> j \<le> USER_DATA_INPUT_MAX \<and> (\<exists>d. c = SAdd d))"
| "place_ok c (Take i) s = (i < USER_COUNT_s \<and> initialized s \<noteq> 0)"
| "place_ok c (Release i) s = (i < USER_COUNT_s \<and> initialized s \<noteq> 0)"
| "place_ok c (Fetch i k j out) s = (i < USER_COUNT_s \<and> initialized s \<noteq> 0 \<and> k < 4 \<and> j < USER_DATA_INPUT_MAX)"
| "place_ok c (Return r out) s = (r \<in> {0, -1})"

definition evolves :: "sysmod \<Rightarrow> sysmod \<Rightarrow> bool" where
  "evolves s s' \<longleftrightarrow> (initialized s \<noteq> 0 \<longrightarrow> initialized s' \<noteq> 0) \<and>
     (\<forall>j<USER_COUNT_s. known (status_s (users_s s ! j)) \<longrightarrow> known (status_s (users_s s' ! j)))"

lemma place_ok_evolves: "place_ok c at s \<Longrightarrow> evolves s s' \<Longrightarrow> place_ok c at s'"
  by (cases "at") (auto simp: evolves_def)

lemma evolves_refl [simp]: "evolves s s"
  by (simp add: evolves_def)

lemma evolves_set_cell:
  "length (users_s s) = USER_COUNT_s \<Longrightarrow> i < USER_COUNT_s \<Longrightarrow>
    (known (status_s (users_s s ! i)) \<Longrightarrow> known (status_s (f (users_s s ! i)))) \<Longrightarrow> evolves s (set_cell i f s)"
  by (simp add: evolves_def set_cell_nth)

text \<open>A call that has stored a byte of a field and not yet its terminator.\<close>

definition copying :: "place \<Rightarrow> nat \<Rightarrow> nat \<Rightarrow> bool" where
  "copying at i k \<longleftrightarrow> (\<exists>j>0. at = Copy i k j)"

definition terminates :: "place \<Rightarrow> sysmod \<Rightarrow> place \<Rightarrow> sysmod \<Rightarrow> bool" where
  "terminates at s at' s' \<longleftrightarrow> (\<forall>i<USER_COUNT_s. \<forall>k<4. terminated s i k \<or> copying at i k \<longrightarrow>
     terminated s' i k \<or> copying at' i k)"

lemma terminates_same: "\<forall>i k j. at \<noteq> Copy i k j \<Longrightarrow> terminates at s at' s"
  by (auto simp: terminates_def copying_def)

lemma get_field_status [simp]: "get_field k (u\<lparr>status_s := c\<rparr>) = get_field k u"
  by (simp add: get_field_def)

lemma terminates_status:
  "\<forall>i k j. at \<noteq> Copy i k j \<Longrightarrow> length (users_s s) = USER_COUNT_s \<Longrightarrow> i < USER_COUNT_s \<Longrightarrow>
    terminates at s at' (set_cell i (\<lambda>u. u\<lparr>status_s := c\<rparr>) s)"
  by (auto simp: terminates_def terminated_def copying_def set_cell_nth)

text \<open>The accesses a call has still to do, at most.\<close>

definition tail_bound :: nat where
  "tail_bound = 4 * (USER_DATA_INPUT_MAX + 1) + 2"

definition call_bound :: nat where
  "call_bound = USER_COUNT_s + USER_COUNT_s * (USER_DATA_INPUT_MAX + 1) + tail_bound + 2"

fun left :: "place \<Rightarrow> nat" where
  "left Enter = call_bound"
| "left (Clear i) = (USER_COUNT_s - i) + USER_COUNT_s * (USER_DATA_INPUT_MAX + 1) + tail_bound + 1"
| "left (Scan i) = (USER_COUNT_s - i) * (USER_DATA_INPUT_MAX + 1) + tail_bound"
| "left (Compare i j) =
     (USER_COUNT_s - Suc i) * (USER_DATA_INPUT_MAX + 1) + tail_bound + (USER_DATA_INPUT_MAX - j)"
| "left (Copy i k j) = 4 * (USER_DATA_INPUT_MAX + 1) + 1 - (k * (USER_DATA_INPUT_MAX + 1) + j)"
| "left (Take i) = 1"
| "left (Release i) = 1"
| "left (Fetch i k j out) = 4 * USER_DATA_INPUT_MAX - (k * USER_DATA_INPUT_MAX + j)"
| "left (Return r out) = 0"

lemma below4: "k < (4::nat) \<Longrightarrow> P 0 \<Longrightarrow> P 1 \<Longrightarrow> P 2 \<Longrightarrow> P 3 \<Longrightarrow> P k"
  by (auto simp: numeral_eq_Suc less_Suc_eq)

lemma left_scan:
  "i < USER_COUNT_s \<Longrightarrow> left (Scan i) = left (Scan (Suc i)) + USER_DATA_INPUT_MAX + 1"
proof -
  assume "i < USER_COUNT_s"
  then have "USER_COUNT_s - i = Suc (USER_COUNT_s - Suc i)" by simp
  then show ?thesis by simp
qed

lemma left_compare: "left (Compare i j) = left (Scan (Suc i)) + (USER_DATA_INPUT_MAX - j)"
  by simp

lemma left_found: "left (found c i) < tail_bound"
  by (cases c) (simp_all add: tail_bound_def)

lemma left_scan_pos: "tail_bound \<le> left (Scan i)"
  by simp

lemma begin_scan_ok: "scall_ok c \<Longrightarrow> begin_scan c = Scan 0"
  by (cases c) simp_all

lemma known_simps [simp]: "known (CHR ''f'')" "known (CHR ''t'')"
  by (simp_all add: known_def)

lemma put_field_status [simp]: "status_s (put_field k a u) = status_s u"
  by (simp add: put_field_def)

definition step_fine :: "scall \<Rightarrow> place \<Rightarrow> sysmod \<Rightarrow> place \<Rightarrow> sysmod \<Rightarrow> bool" where
  "step_fine c at s at' s' \<longleftrightarrow> table_ok s' \<and> place_ok c at' s' \<and> evolves s s' \<and> terminates at s at' s' \<and> left at' < left at"

text \<open>Each access of a call, whatever the others have done before.\<close>

lemma found_place: "scall_ok c \<Longrightarrow> i < USER_COUNT_s \<Longrightarrow> initialized s \<noteq> 0 \<Longrightarrow> place_ok c (found c i) s"
  by (cases c) (simp_all add: USER_DATA_INPUT_MAX_def)

lemma scan_fine:
  assumes sh: "table_ok s" and ok: "scall_ok c" and pl: "place_ok c (Scan i) s"
  shows "\<exists>at'. call_step c (Scan i) s = Inr (at', s) \<and> step_fine c (Scan i) s at' s"
proof (cases "i < USER_COUNT_s")
  case True
  let ?at = "scan_cell c i (users_s s ! i)"
  have "?at = found c i \<or> ?at = Scan (Suc i) \<or> ?at = Compare i 0 \<and> call_key c \<noteq> None" by (cases c) simp_all
  then consider "?at = found c i" | "?at = Scan (Suc i)" | k where "?at = Compare i 0" "call_key c = Some k" by auto
  then have "place_ok c ?at s \<and> left ?at < left (Scan i)"
  proof cases
    case 1
    then show ?thesis
      using found_place [OF ok True] pl left_found [of c i] left_scan_pos [of i] by (simp del: left.simps)
  next
    case 2
    then show ?thesis using True pl left_scan [OF True] by (simp del: left.simps)
  next
    case 3
    then show ?thesis using True pl left_scan [OF True] left_compare [of i 0] by (simp del: left.simps)
  qed
  then show ?thesis using True sh by (simp add: step_fine_def terminates_same del: left.simps)
next
  case False
  then show ?thesis using sh left_scan_pos [of i]
    by (simp add: step_fine_def terminates_same tail_bound_def)
qed

lemma compare_fine:
  assumes sh: "table_ok s" and ok: "scall_ok c" and pl: "place_ok c (Compare i j) s"
  shows "\<exists>at'. call_step c (Compare i j) s = Inr (at', s) \<and> step_fine c (Compare i j) s at' s"
proof -
  from pl obtain k where k: "call_key c = Some k" "j \<le> length k" and i: "i < USER_COUNT_s" "initialized s \<noteq> 0"
    by (auto split: option.splits)
  note kd = call_keyD [OF k(1) ok]
  have j: "j < USER_DATA_INPUT_MAX" using k(2) kd by (simp add: MAX_INPUT_SIZE_def USER_DATA_INPUT_MAX_def)
  have lb: "length (surname_s (users_s s ! i)) = USER_DATA_INPUT_MAX"
    using sh i(1) by (simp add: table_ok_def cell_shape_def)
  let ?a = "k @ [NUL]" and ?b = "surname_s (users_s s ! i)"
  let ?at = "if ?a ! j \<noteq> ?b ! j then Scan (Suc i) else if ?a ! j = NUL then found c i else Compare i (Suc j)"
  have st: "call_step c (Compare i j) s = Inr (?at, s)" using kd k(2) j lb by (simp add: Let_def)
  have "j < length k" if "?a ! j \<noteq> NUL" using that k(2) by (cases "j = length k") simp_all
  then consider "?at = Scan (Suc i)" | "?at = found c i" | "?at = Compare i (Suc j)" "j < length k"
    by (cases "?a ! j = ?b ! j"; cases "?a ! j = NUL") simp_all
  then have "place_ok c ?at s \<and> left ?at < left (Compare i j)"
  proof cases
    case 1
    then show ?thesis using i j left_compare [of i j] by (simp del: left.simps)
  next
    case 2
    then show ?thesis
      using found_place [OF ok i] left_found [of c i] left_scan_pos [of "Suc i"] left_compare [of i j] by (simp del: left.simps)
  next
    case 3
    then show ?thesis using i j k left_compare [of i j] left_compare [of i "Suc j"] by (simp del: left.simps)
  qed
  then show ?thesis using st sh by (simp add: step_fine_def terminates_same del: left.simps call_step.simps)
qed

lemma copy_fine:
  assumes sh: "table_ok s" and ok: "scall_ok c" and pl: "place_ok c (Copy i k j) s"
  shows "\<exists>at' s'. call_step c (Copy i k j) s = Inr (at', s') \<and> step_fine c (Copy i k j) s at' s'"
proof -
  from pl ok obtain d where d: "c = SAdd d" "ud_wf d" and i: "i < USER_COUNT_s" "initialized s \<noteq> 0" "k < 4"
    and j: "j \<le> USER_DATA_INPUT_MAX" by auto
  have len: "length (users_s s) = USER_COUNT_s" and cs: "cell_shape (users_s s ! i)" and kn: "known (status_s (users_s s ! i))"
    using sh i by (simp_all add: table_ok_def)
  note lf = get_field_shape [OF cs, of k]
  have put: "table_ok (set_cell i (\<lambda>u. put_field k ((get_field k u)[n := x]) u) s) \<and>
      evolves s (set_cell i (\<lambda>u. put_field k ((get_field k u)[n := x]) u) s)" for n x
    using i len cs kn lf by (intro conjI table_set_cell [OF sh] evolves_set_cell) (simp_all add: put_field_shape)
  have init: "initialized (set_cell i f s) \<noteq> 0" for f using i by simp
  show ?thesis
  proof (cases "j < USER_DATA_INPUT_MAX")
    case True
    let ?s = "set_cell i (\<lambda>u. put_field k ((get_field k u)[j := ud_field k d ! j]) u) s"
    have "terminates (Copy i k j) s (Copy i k (Suc j)) ?s"
      using i(1,3) len by (auto simp: terminates_def terminated_def copying_def set_cell_nth)
    moreover have "k * (USER_DATA_INPUT_MAX + 1) + j < 4 * (USER_DATA_INPUT_MAX + 1) + 1"
      using i(3) True by (simp add: USER_DATA_INPUT_MAX_def)
    ultimately have "step_fine c (Copy i k j) s (Copy i k (Suc j)) ?s"
      using put True i d(1) unfolding step_fine_def by simp
    then show ?thesis using copy_turn(1) [OF d(2) i(3) cs True] unfolding d(1) by blast
  next
    case False
    with j have je: "j = USER_DATA_INPUT_MAX" by simp
    from copy_turn(2) [OF d(2) i(3) cs] obtain n where n: "n < USER_DATA_INPUT_MAX"
        "call_step (SAdd d) (Copy i k USER_DATA_INPUT_MAX) s =
          Inr (if k < 3 then Copy i (Suc k) 0 else Take i, set_cell i (\<lambda>u. put_field k ((get_field k u)[n := NUL]) u) s)" by blast
    let ?s = "set_cell i (\<lambda>u. put_field k ((get_field k u)[n := NUL]) u) s" and ?at = "if k < 3 then Copy i (Suc k) 0 else Take i"
    have "NUL \<in> set ((get_field k (users_s s ! i))[n := NUL])" using n(1) lf by (intro set_update_memI) simp
    then have "terminates (Copy i k j) s ?at ?s"
      using i(1,3) len by (auto simp: terminates_def terminated_def copying_def set_cell_nth)
    moreover have "left ?at < left (Copy i k j)" by (rule below4 [OF i(3)]) (simp_all add: je USER_DATA_INPUT_MAX_def)
    moreover have "place_ok c ?at ?s" using i d(1) by simp
    ultimately have "step_fine c (Copy i k j) s ?at ?s" using put unfolding step_fine_def by blast
    then show ?thesis using n(2) unfolding d(1) je by blast
  qed
qed

lemma fetch_left:
  assumes "k < 4" and "j < USER_DATA_INPUT_MAX"
  shows "left (if Suc j < USER_DATA_INPUT_MAX then Fetch i k (Suc j) x else if k < 3 then Fetch i (Suc k) 0 x else Return 0 x)
    < left (Fetch i k j out)"
proof -
  from assms(1) consider "k = 0" | "k = 1" | "k = 2" | "k = 3" by linarith
  then show ?thesis using assms(2) by cases (simp_all add: USER_DATA_INPUT_MAX_def, linarith+)
qed

lemma fetch_fine:
  assumes sh: "table_ok s" and pl: "place_ok c (Fetch i k j out) s"
  shows "\<exists>at'. call_step c (Fetch i k j out) s = Inr (at', s) \<and> step_fine c (Fetch i k j out) s at' s"
proof -
  have i: "i < USER_COUNT_s" "initialized s \<noteq> 0" "k < 4" "j < USER_DATA_INPUT_MAX" using pl by simp_all
  let ?out = "deliver k [fetch_field k (users_s s ! i) ! j] out"
  let ?at = "if Suc j < USER_DATA_INPUT_MAX then Fetch i k (Suc j) ?out else if k < 3 then Fetch i (Suc k) 0 ?out else Return 0 ?out"
  have "length (fetch_field k (users_s s ! i)) = USER_DATA_INPUT_MAX"
    using sh i(1) by (intro fetch_field_shape) (simp add: table_ok_def)
  then have "call_step c (Fetch i k j out) s = Inr (?at, s)" using i(4) by (simp add: Let_def)
  moreover have "left ?at < left (Fetch i k j out)"
    using fetch_left [OF i(3,4)] .
  moreover have "place_ok c ?at s" using i by simp
  ultimately show ?thesis using sh by (simp add: step_fine_def terminates_same del: left.simps call_step.simps)
qed

lemma call_step_ok:
  assumes sh: "table_ok s" and ok: "scall_ok c" and pl: "place_ok c at s" and "\<not> returned at"
  shows "\<exists>at' s'. call_step c at s = Inr (at', s') \<and> step_fine c at s at' s'"
proof -
  have len: "length (users_s s) = USER_COUNT_s" using sh by (simp add: table_ok_def)
  have cs: "cell_shape (users_s s ! i)" if "i < USER_COUNT_s" for i using sh that len by (simp add: table_ok_def)
  have put: "table_ok (set_cell i (\<lambda>u. u\<lparr>status_s := x\<rparr>) s) \<and> evolves s (set_cell i (\<lambda>u. u\<lparr>status_s := x\<rparr>) s)"
    if "i < USER_COUNT_s" "x = CHR ''f'' \<or> x = CHR ''t'' \<and> initialized s \<noteq> 0" for i x
    using that len cs by (intro conjI table_set_cell [OF sh] evolves_set_cell) auto
  show ?thesis
  proof (cases "at")
    case Enter
    then show ?thesis using sh begin_scan_ok [OF ok] by (simp add: step_fine_def terminates_same call_bound_def)
  next
    case (Clear i)
    show ?thesis
    proof (cases "i < USER_COUNT_s")
      case True
      let ?s = "set_cell i (\<lambda>u. u\<lparr>status_s := CHR ''f''\<rparr>) s"
      have "terminates at s (Clear (Suc i)) ?s" using True len Clear by (intro terminates_status) simp_all
      moreover have "place_ok c (Clear (Suc i)) ?s" using True Clear pl len by (simp add: set_cell_nth less_Suc_eq)
      ultimately have "step_fine c at s (Clear (Suc i)) ?s" using put [OF True] True Clear by (simp add: step_fine_def)
      then show ?thesis using True Clear by simp
    next
      case False
      then have "\<forall>u\<in>set (users_s s). known (status_s u)" using Clear pl len by (auto simp: in_set_conv_nth)
      then have "table_ok (s\<lparr>initialized := 1\<rparr>)" using sh by (simp add: table_ok_def)
      moreover have "terminates at s (Scan 0) (s\<lparr>initialized := 1\<rparr>)"
        using Clear by (simp add: terminates_def terminated_def copying_def)
      ultimately show ?thesis
        using False Clear begin_scan_ok [OF ok] by (simp add: step_fine_def evolves_def)
    qed
  next
    case (Scan i)
    then show ?thesis using scan_fine [OF sh ok] pl by blast
  next
    case (Compare i j)
    then show ?thesis using compare_fine [OF sh ok] pl by blast
  next
    case (Copy i k j)
    then show ?thesis using copy_fine [OF sh ok] pl by blast
  next
    case (Take i)
    then have i: "i < USER_COUNT_s" "initialized s \<noteq> 0" using pl by simp_all
    have "terminates at s (Return 0 blank_out) (set_cell i (\<lambda>u. u\<lparr>status_s := CHR ''t''\<rparr>) s)"
      using i len Take by (intro terminates_status) simp_all
    then show ?thesis using Take i put [OF i(1)] by (simp add: step_fine_def)
  next
    case (Release i)
    then have i: "i < USER_COUNT_s" using pl by simp
    have "terminates at s (Return 0 blank_out) (set_cell i (\<lambda>u. u\<lparr>status_s := CHR ''f''\<rparr>) s)"
      using i len Release by (intro terminates_status) simp_all
    then show ?thesis using Release i put [OF i] by (simp add: step_fine_def)
  next
    case (Fetch i k j out)
    then show ?thesis using fetch_fine [OF sh] pl by blast
  next
    case (Return r out)
    then show ?thesis using assms(4) by simp
  qed
qed

text \<open>
  \<open>copy_from_user\<close> and \<open>copy_to_user\<close> can fail: the call returns -1, from where it would start its
  search, or after part of its answer was delivered.
\<close>

inductive fault_step :: "calls \<Rightarrow> calls \<Rightarrow> bool" where
  copy_in: "p < length ps \<Longrightarrow> ps ! p = (c, Scan 0) \<Longrightarrow> fault_step (s, ps) (s, ps[p := (c, Return (-1) blank_out)])"
| copy_out: "p < length ps \<Longrightarrow> ps ! p = (c, Fetch i k j out) \<Longrightarrow> fault_step (s, ps) (s, ps[p := (c, Return (-1) out)])"

definition any_step :: "calls \<Rightarrow> calls \<Rightarrow> bool" where
  "any_step x y \<longleftrightarrow> calls_step x y \<or> fault_step x y"

lemma any_step_fine:
  assumes "any_step (s, ps) y" and "table_ok s" and "\<forall>(c, at)\<in>set ps. scall_ok c \<and> place_ok c at s"
  shows "\<exists>p c at s' at'. p < length ps \<and> ps ! p = (c, at) \<and> y = (s', ps[p := (c, at')]) \<and> step_fine c at s at' s'"
  using assms(1) unfolding any_step_def
proof
  assume "calls_step (s, ps) y"
  then show ?thesis
  proof cases
    case (step p c "at" at' s')
    then have "scall_ok c" "place_ok c at s" using assms(3) nth_mem [of p ps] by auto
    from call_step_ok [OF assms(2) this step(4)] step show ?thesis by auto
  qed
next
  assume "fault_step (s, ps) y"
  then show ?thesis
  proof cases
    case (copy_in p c)
    then have "step_fine c (Scan 0) s (Return (-1) blank_out) s"
      using assms(2) left_scan_pos [of 0] by (simp add: step_fine_def terminates_same tail_bound_def)
    with copy_in show ?thesis by blast
  next
    case (copy_out p c i k j out)
    then have "place_ok c (Fetch i k j out) s" using assms(3) nth_mem [of p ps] by auto
    then have "0 < left (Fetch i k j out)" by (simp add: USER_DATA_INPUT_MAX_def)
    then have "step_fine c (Fetch i k j out) s (Return (-1) out) s"
      using assms(2) by (simp add: step_fine_def terminates_same)
    with copy_out show ?thesis by blast
  qed
qed

text \<open>
  The invariant: an array without a terminator is one that a call is copying into.
\<close>

definition calls_ok :: "calls \<Rightarrow> bool" where
  "calls_ok x \<longleftrightarrow> table_ok (fst x) \<and> (\<forall>(c, at)\<in>set (snd x). scall_ok c \<and> place_ok c at (fst x)) \<and>
     (\<forall>i<USER_COUNT_s. \<forall>k<4. terminated (fst x) i k \<or> (\<exists>p<length (snd x). copying (snd (snd x ! p)) i k))"

lemma calls_ok_entered: "shared_ok s \<Longrightarrow> \<forall>c\<in>set cs. scall_ok c \<Longrightarrow> calls_ok (entered s cs)"
  by (simp add: calls_ok_def entered_def shared_ok_def)

definition all_left :: "calls \<Rightarrow> nat" where
  "all_left x = sum_list (map (left \<circ> snd) (snd x))"

lemma any_step_ok:
  assumes "any_step x y" and "calls_ok x"
  shows "calls_ok y \<and> all_left y < all_left x \<and> map fst (snd y) = map fst (snd x)"
proof -
  obtain s ps where x: "x = (s, ps)" by (cases x)
  have inv: "table_ok s" "\<forall>(c, at)\<in>set ps. scall_ok c \<and> place_ok c at s"
    and ter: "\<forall>i<USER_COUNT_s. \<forall>k<4. terminated s i k \<or> (\<exists>p<length ps. copying (snd (ps ! p)) i k)"
    using assms(2) by (simp_all add: calls_ok_def x)
  from any_step_fine [OF assms(1) [unfolded x] inv] obtain p c "at" s' at' where
    p: "p < length ps" "ps ! p = (c, at)" and y: "y = (s', ps[p := (c, at')])" and "step_fine c at s at' s'" by blast
  then have s': "table_ok s'" "place_ok c at' s'" "evolves s s'" "terminates at s at' s'" "left at' < left at"
    by (simp_all add: step_fine_def)
  have m: "(c, at) \<in> set ps" using p nth_mem [of p ps] by simp
  have "\<forall>(c, at)\<in>set ps. scall_ok c \<and> place_ok c at s'"
    using inv(2) place_ok_evolves [OF _ s'(3)] by auto
  then have "\<forall>(c, at)\<in>set (ps[p := (c, at')]). scall_ok c \<and> place_ok c at s'"
    using s'(2) m inv(2) set_update_subset_insert [of ps p "(c, at')"] by fastforce
  moreover have "terminated s' i k \<or> (\<exists>q<length ps. copying (snd (ps[p := (c, at')] ! q)) i k)"
    if ik: "i < USER_COUNT_s" "k < 4" for i k
  proof -
    consider "terminated s i k \<or> copying at i k" | q where "q < length ps" "q \<noteq> p" "copying (snd (ps ! q)) i k"
      using ter ik p(2) by (metis snd_conv)
    then show ?thesis
    proof cases
      case 1
      with s'(4) ik have "terminated s' i k \<or> copying at' i k" unfolding terminates_def by blast
      then show ?thesis using p(1) by (metis nth_list_update_eq snd_conv)
    next
      case 2
      then show ?thesis by (metis nth_list_update_neq)
    qed
  qed
  ultimately have "calls_ok y" using s'(1) by (simp add: calls_ok_def y)
  moreover have "left at \<le> sum_list (map (left \<circ> snd) ps)"
    using p member_le_sum_list [of "left at" "map (left \<circ> snd) ps"] m by force
  moreover have "map fst (ps[p := (c, at')]) = map fst ps"
    using p by (simp add: map_update list_update_same_conv)
  ultimately show ?thesis
    using s'(5) p by (simp add: all_left_def x y map_update sum_list_update)
qed

lemma any_steps_ok:
  "(any_step ^^ n) x y \<Longrightarrow> calls_ok x \<Longrightarrow> calls_ok y \<and> n + all_left y \<le> all_left x \<and> map fst (snd y) = map fst (snd x)"
proof (induction n arbitrary: y)
  case 0
  then show ?case by simp
next
  case (Suc n)
  then obtain z where "(any_step ^^ n) x z" "any_step z y" by auto
  with Suc.IH [of z] Suc.prems(2) any_step_ok [of z y] show ?case by auto
qed

lemma all_left_entered: "all_left (entered s cs) = length cs * call_bound"
  by (simp add: all_left_def entered_def sum_list_triv comp_def)

text \<open>
  C23. Calls with terminated arrays and surnames of at most 1023 characters, however their accesses to
  the table interleave, byte by byte, and wherever \<open>copy_from_user\<close> and \<open>copy_to_user\<close> fail: together they
  do at most 1054728 accesses each, none of them outside an array, and each call has returned 0 or -1 or
  can do its next access. An array without a terminator is one that a call is copying into, and when
  all have returned the table is in order: every array terminated, every status known.
\<close>

theorem sys_any_schedule:
  assumes "shared_ok s" and "\<forall>c\<in>set cs. scall_ok c" and "(any_step ^^ n) (entered s cs) (s', ps)"
  shows "n \<le> length cs * 1054728 \<and> map fst ps = cs \<and>
    (\<forall>p<length cs. (\<exists>out. snd (ps ! p) \<in> {Return 0 out, Return (-1) out}) \<or>
      (\<exists>at s''. calls_step (s', ps) (s'', ps[p := (cs ! p, at)]))) \<and>
    (\<forall>i<USER_COUNT_s. cell_shape (users_s s' ! i) \<and> (\<forall>k<4. NUL \<in> set (get_field k (users_s s' ! i)) \<or>
      (\<exists>p<length cs. \<exists>j>0. snd (ps ! p) = Copy i k j))) \<and>
    ((\<forall>p<length cs. returned (snd (ps ! p))) \<longrightarrow> shared_ok s' \<and> sys_inv s')"
proof -
  from any_steps_ok [OF assms(3) calls_ok_entered [OF assms(1,2)]]
  have ok: "calls_ok (s', ps)" "n \<le> length cs * call_bound" "map fst ps = cs"
    by (simp_all add: all_left_entered) (simp add: entered_def comp_def)
  have len: "length ps = length cs" using ok(3) by auto
  have tab: "table_ok s'" using ok(1) by (simp add: calls_ok_def)
  have ter: "terminated s' i k \<or> (\<exists>p<length cs. copying (snd (ps ! p)) i k)" if "i < USER_COUNT_s" "k < 4" for i k
    using ok(1) that len by (simp add: calls_ok_def)
  have prog: "(\<exists>out. snd (ps ! p) \<in> {Return 0 out, Return (-1) out}) \<or>
      (\<exists>at s''. calls_step (s', ps) (s'', ps[p := (cs ! p, at)]))" if p: "p < length cs" for p
  proof -
    obtain "at" where a: "ps ! p = (cs ! p, at)" using ok(3) p len by (metis nth_map prod.collapse)
    then have "(cs ! p, at) \<in> set ps" using p len by (metis nth_mem)
    then have pl: "scall_ok (cs ! p)" "place_ok (cs ! p) at s'" using ok(1) by (auto simp: calls_ok_def)
    show ?thesis
    proof (cases "returned at")
      case True
      then show ?thesis using pl(2) a by (cases "at") auto
    next
      case False
      from call_step_ok [OF tab pl False] obtain at' s'' where "call_step (cs ! p) at s' = Inr (at', s'')" by blast
      from calls_step.step [OF _ a False this] p len show ?thesis by auto
    qed
  qed
  have "shared_ok s'" if r: "\<forall>p<length cs. returned (snd (ps ! p))"
  proof -
    have "\<not> copying (snd (ps ! p)) i k" if "p < length cs" for p i k using r that by (auto simp: copying_def)
    then show ?thesis using tab ter unfolding shared_ok_def by blast
  qed
  moreover have "call_bound = 1054728"
    by (simp add: call_bound_def tail_bound_def USER_COUNT_s_def USER_DATA_INPUT_MAX_def)
  moreover have "cell_shape (users_s s' ! i)" if "i < USER_COUNT_s" for i using tab that by (simp add: table_ok_def)
  ultimately show ?thesis
    using ok(2,3) prog ter shared_inv by (simp add: terminated_def copying_def)
qed

theorem sys_any_schedule_witness:
  "\<exists>n s'. (any_step ^^ n) (entered sys_static [SAdd ann, SDel ''Lee'']) (s', [(SAdd ann, Return 0 blank_out), (SDel ''Lee'', Enter)]) \<and>
     n \<le> 2109456 \<and> (\<forall>k<4. NUL \<in> set (get_field k (users_s s' ! 0)))"
proof -
  have "scall_spec (SAdd ann) (slots_s sys_static) = ((0, blank_out), slot_add ann (slots_s sys_static))"
    by (simp add: static_free)
  from solo_call [OF sys_static_inv _ this] ann_wf obtain s' where
    "(solo (SAdd ann))\<^sup>*\<^sup>* (Enter, sys_static) (Return 0 blank_out, s')" by auto
  from solo_calls [OF this, of 0 "[(SAdd ann, Enter), (SDel ''Lee'', Enter)]"] have
    "calls_step\<^sup>*\<^sup>* (entered sys_static [SAdd ann, SDel ''Lee'']) (s', [(SAdd ann, Return 0 blank_out), (SDel ''Lee'', Enter)])"
    by (simp add: entered_def)
  then have "any_step\<^sup>*\<^sup>* (entered sys_static [SAdd ann, SDel ''Lee'']) (s', [(SAdd ann, Return 0 blank_out), (SDel ''Lee'', Enter)])"
    by (rule rtranclp_mono [THEN predicate2D, rotated]) (auto simp: any_step_def)
  then obtain n where n: "(any_step ^^ n) (entered sys_static [SAdd ann, SDel ''Lee''])
      (s', [(SAdd ann, Return 0 blank_out), (SDel ''Lee'', Enter)])" by (blast dest: rtranclp_imp_relpowp)
  have "\<forall>c\<in>set [SAdd ann, SDel ''Lee'']. scall_ok c" by (simp add: ann_wf MAX_INPUT_SIZE_def)
  from sys_any_schedule [OF shared_static this n] have "n \<le> 2109456" and
    "NUL \<in> set (get_field k (users_s s' ! 0))" if "k < 4" for k
    using that by (force simp: less_Suc_eq USER_COUNT_s_def)+
  with n show ?thesis by (intro exI [of _ n] exI [of _ s']) force
qed


section \<open>Contacts that are lost\<close>

lemma ready_init [simp]: "ready s \<Longrightarrow> init_users s = s"
  by (simp add: ready_def init_users_def)

text \<open>Two additions that have found the same free cell.\<close>

lemma two_find:
  assumes "sys_inv s" and "ud_wf a" and "ud_wf b" and f: "find_first (\<lambda>x. x = None) (slots_s s) = Some i"
  shows "calls_step\<^sup>*\<^sup>* (entered s [SAdd a, SAdd b]) (init_users s, [(SAdd a, Copy i 0 0), (SAdd b, Copy i 0 0)])"
proof -
  from init_users_ready [OF assms(1)] have s: "ready (init_users s)" "slots_s (init_users s) = slots_s s" by auto
  have w: "\<And>d. wanted (SAdd d) = (\<lambda>x. x = None)" by auto
  have "(solo (SAdd a))\<^sup>*\<^sup>* (Enter, s) (Copy i 0 0, init_users s)"
    using solo_find [OF assms(1), of "SAdd a"] assms(2) f by (simp add: w)
  from solo_calls [OF this, of 0 "[(SAdd a, Enter), (SAdd b, Enter)]"]
  have 1: "calls_step\<^sup>*\<^sup>* (entered s [SAdd a, SAdd b]) (init_users s, [(SAdd a, Copy i 0 0), (SAdd b, Enter)])"
    by (simp add: entered_def)
  have "(solo (SAdd b))\<^sup>*\<^sup>* (Enter, init_users s) (Copy i 0 0, init_users s)"
    using solo_find [OF ready_inv [OF s(1)], of "SAdd b"] assms(3) f s by (simp add: w)
  from solo_calls [OF this, of 1 "[(SAdd a, Copy i 0 0), (SAdd b, Enter)]"] 1 show ?thesis by auto
qed

lemma solo_copy2:
  assumes "ud_wf d" and "i < length (users_s s)" and sh: "cell_shape (users_s s ! i)"
  shows "(solo (SAdd d))\<^sup>*\<^sup>* (Copy i 0 0, s) (Copy i 2 0, set_cell i (\<lambda>u. put_field 1 (ud_field 1 d) (put_field 0 (ud_field 0 d) u)) s)"
proof -
  let ?s = "set_cell i (put_field 0 (ud_field 0 d)) s"
  have "length (ud_field 0 d) = USER_DATA_INPUT_MAX" using ud_field_ok [OF assms(1)] by (simp add: array_ok_def)
  then have sh': "cell_shape (users_s ?s ! i)" using assms(2) sh by (simp add: set_cell_nth put_field_shape)
  have "(solo (SAdd d))\<^sup>*\<^sup>* (Copy i 0 0, s) (Copy i 1 0, ?s)" using solo_field [OF assms(1) _ assms(2) sh, of 0] by simp
  moreover have "(solo (SAdd d))\<^sup>*\<^sup>* (Copy i 1 0, ?s) (Copy i 2 0, set_cell i (put_field 1 (ud_field 1 d)) ?s)"
    using solo_field [OF assms(1) _ _ sh', of 1] assms(2) by (simp add: numeral_2_eq_2)
  ultimately show ?thesis using set_cell_twice [OF assms(2)] by (simp add: rtranclp_trans)
qed

lemma pair_shape:
  assumes "ud_wf d" and "cell_shape u"
  shows "cell_shape (put_field 1 (ud_field 1 d) (put_field 0 (ud_field 0 d) u))"
proof -
  have "length (ud_field k d) = USER_DATA_INPUT_MAX" for k using ud_field_ok [OF assms(1)] by (simp add: array_ok_def)
  then show ?thesis using assms(2) by (intro put_field_shape)
qed

text \<open>The first call copies its contact, the second one over it.\<close>

lemma overlap_lost:
  assumes "ud_wf a" and "ud_wf b" and i: "i < length (users_s s)" and sh: "cell_shape (users_s s ! i)"
  shows "\<exists>s'. calls_step\<^sup>*\<^sup>* (s, [(SAdd a, Copy i 0 0), (SAdd b, Copy i 0 0)])
      (s', [(SAdd a, Return 0 blank_out), (SAdd b, Return 0 blank_out)]) \<and> slots_s s' = (slots_s s)[i := Some b]"
proof -
  let ?f = "\<lambda>d u. (fill 0 d u)\<lparr>status_s := CHR ''t''\<rparr>"
  let ?s = "set_cell i (?f b) (set_cell i (?f a) s)"
  have "calls_step\<^sup>*\<^sup>* (s, [(SAdd a, Copy i 0 0), (SAdd b, Copy i 0 0)])
      (set_cell i (?f a) s, [(SAdd a, Return 0 blank_out), (SAdd b, Copy i 0 0)])"
    using solo_calls [OF solo_store [OF assms(1) i sh, of 0], of 0 "[(SAdd a, Copy i 0 0), (SAdd b, Copy i 0 0)]"] by simp
  moreover have "calls_step\<^sup>*\<^sup>* (set_cell i (?f a) s, [(SAdd a, Return 0 blank_out), (SAdd b, Copy i 0 0)])
      (?s, [(SAdd a, Return 0 blank_out), (SAdd b, Return 0 blank_out)])"
    using solo_calls [OF solo_store [OF assms(2), of i "set_cell i (?f a) s" 0], of 1
        "[(SAdd a, Return 0 blank_out), (SAdd b, Copy i 0 0)]"] i fill_shape [OF sh assms(1)] by (simp add: set_cell_nth)
  moreover have "slots_s ?s = (slots_s s)[i := Some b]" by (simp add: set_cell_slots slot_filled)
  ultimately show ?thesis by (meson rtranclp_trans)
qed

text \<open>The second call copies its contact between two copies of the first one.\<close>

lemma overlap_mixed:
  assumes "ud_wf a" and "ud_wf b" and i: "i < length (users_s s)" and sh: "cell_shape (users_s s ! i)"
  shows "\<exists>s'. calls_step\<^sup>*\<^sup>* (s, [(SAdd a, Copy i 0 0), (SAdd b, Copy i 0 0)])
      (s', [(SAdd a, Return 0 blank_out), (SAdd b, Return 0 blank_out)]) \<and>
    slots_s s' = (slots_s s)[i := Some (b\<lparr>ud_phone := ud_phone a, ud_email := ud_email a\<rparr>)]"
proof -
  let ?f = "\<lambda>k d u. (fill k d u)\<lparr>status_s := CHR ''t''\<rparr>"
  let ?g = "\<lambda>u. put_field 1 (ud_field 1 a) (put_field 0 (ud_field 0 a) u)"
  let ?s = "set_cell i (?f 0 b) (set_cell i ?g s)"
  have "calls_step\<^sup>*\<^sup>* (s, [(SAdd a, Copy i 0 0), (SAdd b, Copy i 0 0)])
      (set_cell i ?g s, [(SAdd a, Copy i 2 0), (SAdd b, Copy i 0 0)])"
    using solo_calls [OF solo_copy2 [OF assms(1) i sh], of 0 "[(SAdd a, Copy i 0 0), (SAdd b, Copy i 0 0)]"] by simp
  moreover have "calls_step\<^sup>*\<^sup>* (set_cell i ?g s, [(SAdd a, Copy i 2 0), (SAdd b, Copy i 0 0)])
      (?s, [(SAdd a, Copy i 2 0), (SAdd b, Return 0 blank_out)])"
    using solo_calls [OF solo_store [OF assms(2), of i "set_cell i ?g s" 0], of 1
        "[(SAdd a, Copy i 2 0), (SAdd b, Copy i 0 0)]"] i pair_shape [OF assms(1) sh] by (simp add: set_cell_nth)
  moreover have "calls_step\<^sup>*\<^sup>* (?s, [(SAdd a, Copy i 2 0), (SAdd b, Return 0 blank_out)])
      (set_cell i (?f 2 a) ?s, [(SAdd a, Return 0 blank_out), (SAdd b, Return 0 blank_out)])"
    using solo_calls [OF solo_store [OF assms(1), of i ?s 2], of 0 "[(SAdd a, Copy i 2 0), (SAdd b, Return 0 blank_out)]"] i
      fill_shape [OF pair_shape [OF assms(1) sh] assms(2)] by (simp add: set_cell_nth)
  moreover have "slots_s (set_cell i (?f 2 a) ?s) = (slots_s s)[i := Some (b\<lparr>ud_phone := ud_phone a, ud_email := ud_email a\<rparr>)]"
  proof -
    have "slot_s (?f 2 a (users_s ?s ! i)) = Some (b\<lparr>ud_phone := ud_phone a, ud_email := ud_email a\<rparr>)"
      using i by (auto simp: set_cell_nth slot_s_def fill_def intro: user_data.equality)
    with i show ?thesis by (simp add: set_cell_slots)
  qed
  ultimately show ?thesis by (meson rtranclp_trans)
qed

text \<open>The first call initialises the table after the second one has stored its contact.\<close>

lemma overlap_erased:
  assumes inv: "sys_inv s" and b: "ud_wf b" and k: "scall_ok (SGet k)" and "initialized s = 0"
  shows "\<exists>s'. calls_step\<^sup>*\<^sup>* (entered s [SGet k, SAdd b])
      (s', [(SGet k, Return (-1) blank_out), (SAdd b, Return 0 blank_out)]) \<and> slots_s s' = slots_s s"
proof -
  have none: "slots_s s = replicate USER_COUNT_s None"
    using inv assms(4) by (auto simp: sys_inv_def slots_s_def slot_s_def intro!: replicate_eqI)
  have "scall_spec (SAdd b) (slots_s s) = ((0, blank_out), slot_add b (slots_s s))" by (simp add: none USER_COUNT_s_def)
  from solo_call [OF inv _ this] b obtain s1 where
    s1: "(solo (SAdd b))\<^sup>*\<^sup>* (Enter, s) (Return 0 blank_out, s1)" "sys_inv s1" by auto
  let ?s = "s1\<lparr>users_s := map (\<lambda>u. u\<lparr>status_s := CHR ''f''\<rparr>) (users_s s1), initialized := 1\<rparr>"
  have len: "length (users_s s1) = USER_COUNT_s" using s1(2) by (simp add: sys_inv_def)
  have sl: "slots_s ?s = replicate USER_COUNT_s None"
    using len by (auto simp: slots_s_def slot_s_def intro!: replicate_eqI)
  then have rdy: "ready ?s" using len s1(2) by (auto simp: ready_def sys_inv_def)
  have "solo (SGet k) (Enter, s) (Clear 0, s)" using assms(4) by (simp add: solo_iff)
  then have "calls_step\<^sup>*\<^sup>* (entered s [SGet k, SAdd b]) (s, [(SGet k, Clear 0), (SAdd b, Enter)])"
    using solo_calls [of "SGet k" Enter s "Clear 0" s 0 "[(SGet k, Enter), (SAdd b, Enter)]"] by (simp add: entered_def r_into_rtranclp)
  moreover have "calls_step\<^sup>*\<^sup>* (s, [(SGet k, Clear 0), (SAdd b, Enter)]) (s1, [(SGet k, Clear 0), (SAdd b, Return 0 blank_out)])"
    using solo_calls [OF s1(1), of 1 "[(SGet k, Clear 0), (SAdd b, Enter)]"] by simp
  moreover have "(solo (SGet k))\<^sup>*\<^sup>* (Clear 0, s1) (Return (-1) blank_out, ?s)"
  proof -
    have "find_first (wanted (SGet k)) (slots_s ?s) = None" by (simp add: sl find_first_None_iff)
    then have "(solo (SGet k))\<^sup>*\<^sup>* (Scan 0, ?s) (Return (-1) blank_out, ?s)"
      using solo_search [OF rdy k] by simp
    moreover have "(solo (SGet k))\<^sup>*\<^sup>* (Clear 0, s1) (Scan 0, ?s)"
      using solo_clear [OF len, of 0 "SGet k"] begin_scan_ok [OF k] by simp
    ultimately show ?thesis by (meson rtranclp_trans)
  qed
  then have "calls_step\<^sup>*\<^sup>* (s1, [(SGet k, Clear 0), (SAdd b, Return 0 blank_out)])
      (?s, [(SGet k, Return (-1) blank_out), (SAdd b, Return 0 blank_out)])"
    using solo_calls [of "SGet k" "Clear 0" s1 "Return (-1) blank_out" ?s 0 "[(SGet k, Clear 0), (SAdd b, Return 0 blank_out)]"]
    by simp
  ultimately have "calls_step\<^sup>*\<^sup>* (entered s [SGet k, SAdd b]) (?s, [(SGet k, Return (-1) blank_out), (SAdd b, Return 0 blank_out)])"
    by (meson rtranclp_trans)
  moreover have "slots_s ?s = slots_s s" unfolding sl none ..
  ultimately show ?thesis by blast
qed

lemma overlap_adds:
  assumes "sys_inv s" and "None \<in> set (slots_s s)" and "ud_wf a" and "ud_wf b"
    and x: "x \<in> {b, b\<lparr>ud_phone := ud_phone a, ud_email := ud_email a\<rparr>}"
  shows "\<exists>s'. calls_step\<^sup>*\<^sup>* (entered s [SAdd a, SAdd b]) (s', [(SAdd a, Return 0 blank_out), (SAdd b, Return 0 blank_out)]) \<and>
    slots_s s' = slot_add x (slots_s s)"
proof -
  from assms(2) obtain i where f: "find_first (\<lambda>x. x = None) (slots_s s) = Some i"
    by (cases "find_first (\<lambda>x. x = None) (slots_s s)") (auto simp: find_first_None_iff)
  from init_users_ready [OF assms(1)] have s: "ready (init_users s)" "slots_s (init_users s) = slots_s s" by auto
  have i: "i < length (users_s (init_users s))" using f s(2) by (metis find_first_Some_iff length_map slots_s_def)
  have "\<exists>s'. calls_step\<^sup>*\<^sup>* (init_users s, [(SAdd a, Copy i 0 0), (SAdd b, Copy i 0 0)])
      (s', [(SAdd a, Return 0 blank_out), (SAdd b, Return 0 blank_out)]) \<and> slots_s s' = (slots_s s)[i := Some x]"
  proof (cases "x = b")
    case True
    then show ?thesis using overlap_lost [OF assms(3,4) i ready_shape [OF s(1) i]] by (simp only: s(2))
  next
    case False
    then have "x = b\<lparr>ud_phone := ud_phone a, ud_email := ud_email a\<rparr>" using x by (simp only: insert_iff empty_iff) simp
    then show ?thesis using overlap_mixed [OF assms(3,4) i ready_shape [OF s(1) i]] by (simp only: s(2))
  qed
  then obtain s' where s': "calls_step\<^sup>*\<^sup>* (init_users s, [(SAdd a, Copy i 0 0), (SAdd b, Copy i 0 0)])
      (s', [(SAdd a, Return 0 blank_out), (SAdd b, Return 0 blank_out)])" "slots_s s' = (slots_s s)[i := Some x]" by blast
  have "slot_add x (slots_s s) = (slots_s s)[i := Some x]" using f by (simp add: slot_add_find_first)
  with rtranclp_trans [OF two_find [OF assms(1,3,4) f] s'(1)] s'(2) show ?thesis by (intro exI [of _ s'] conjI) simp_all
qed

text \<open>
  C22. Overlapping calls. Two additions of any contacts \<open>a\<close> and \<open>b\<close> to a table with a free cell can
  both return 0 and leave \<open>b\<close> alone in the table, or one contact with the names of \<open>b\<close> and the
  phone number and address of \<open>a\<close>. On a table that no call has used yet, a search that overlaps
  the addition of \<open>b\<close> can erase it after the addition has returned 0.
\<close>

theorem sys_overlap_loses:
  assumes "sys_inv s" and "None \<in> set (slots_s s)" and "ud_wf a" and "ud_wf b" and "scall_ok (SGet k)"
  shows "(\<forall>x\<in>{b, b\<lparr>ud_phone := ud_phone a, ud_email := ud_email a\<rparr>}.
      \<exists>s'. calls_step\<^sup>*\<^sup>* (entered s [SAdd a, SAdd b]) (s', [(SAdd a, Return 0 blank_out), (SAdd b, Return 0 blank_out)]) \<and>
        slots_s s' = slot_add x (slots_s s)) \<and>
    (initialized s = 0 \<longrightarrow> (\<exists>s'. calls_step\<^sup>*\<^sup>* (entered s [SGet k, SAdd b])
      (s', [(SGet k, Return (-1) blank_out), (SAdd b, Return 0 blank_out)]) \<and> slots_s s' = slots_s s))"
  using overlap_adds [OF assms(1-4)] overlap_erased [OF assms(1,4,5)] by blast

theorem sys_overlap_loses_witness:
  "\<exists>s'. calls_step\<^sup>*\<^sup>* (entered sys_static [SAdd ann, SAdd bob])
     (s', [(SAdd ann, Return 0 blank_out), (SAdd bob, Return 0 blank_out)]) \<and> slot_entries (slots_s s') = {#bob#}"
proof -
  have "scall_ok (SGet ''Lee'')" by (simp add: MAX_INPUT_SIZE_def)
  from sys_overlap_loses [OF sys_static_inv static_free ann_wf bob_wf this] obtain s' where
    "calls_step\<^sup>*\<^sup>* (entered sys_static [SAdd ann, SAdd bob]) (s', [(SAdd ann, Return 0 blank_out), (SAdd bob, Return 0 blank_out)])"
    "slots_s s' = slot_add bob (slots_s sys_static)" by blast
  moreover from this(2) have "slot_entries (slots_s s') = {#bob#}"
    using entries_add [OF static_free] by (simp add: slots_static)
  ultimately show ?thesis by blast
qed

end
