(* ===== verification/Sys_Serial.thy ===== *)
theory Sys_Serial
  imports Sys_Overlap
begin

text \<open>
  One system call at a time, as a lock around each of them would have it: the calls, byte by byte as in
  \<open>Sys_Race\<close>, take effect one after the other, in the order in which they return.
\<close>


section \<open>One call under way\<close>









lemma scan_not_enter [simp]: "scan_cell c i u \<noteq> Enter" "found c i \<noteq> Enter"
  by (cases c; simp)+







end
