(* ===== verification/Disk.thy ===== *)
theory Disk
  imports Base
begin

text \<open>
  The file that holds a MiniFS, and the two transfer loops of internal/fs/fs.c.

  A file is the list of its bytes. \<open>pread\<close> and \<open>pwrite\<close> are the effect of a \<open>read\<close> and a
  \<open>write\<close> at a position: a read ends at the end of the file, a write beyond it fills the
  gap with zero bytes. How many bytes one call transfers, or that it fails, is decided by
  the operating system: the loops \<open>block_read_loop\<close> and \<open>block_write_loop\<close> take the return values as
  a parameter. \<open>minifs_read_block\<close> and \<open>minifs_write_block\<close>, on which the rest of the
  model is built, are the loops on a system that transfers all it can; \<open>block_read_loop_calm\<close> and
  \<open>block_write_loop_calm\<close> show that the return values make no difference as long as no call fails.
\<close>


section \<open>Bytes of a file\<close>

type_synonym disk = "char list"
type_synonym u32 = "32 word"

text \<open>A step of MiniFS: when the process ends, the file it leaves is part of the outcome.\<close>

type_synonym 'a fres = "(stop \<times> disk) + 'a"

definition pread :: "nat \<Rightarrow> nat \<Rightarrow> disk \<Rightarrow> char list" where
  "pread pos n d = take n (drop pos d)"

definition pwrite :: "nat \<Rightarrow> char list \<Rightarrow> disk \<Rightarrow> disk" where
  "pwrite pos xs d =
     (if xs = [] then d
      else take pos (d @ replicate (pos - length d) NUL) @ xs @ drop (pos + length xs) d)"

named_theorems disk_simps \<open>reading back what was written to a file\<close>

lemma pwrite_Nil [simp]: "pwrite pos [] d = d"
  by (simp add: pwrite_def)

lemma length_pread [disk_simps]: "pos + n \<le> length d \<Longrightarrow> length (pread pos n d) = n"
  by (simp add: pread_def)

lemma length_pwrite: "length (pwrite pos xs d) = (if xs = [] then length d else max (length d) (pos + length xs))"
  by (auto simp: pwrite_def)

lemma length_pwrite_ge [disk_simps]: "n \<le> length d \<Longrightarrow> n \<le> length (pwrite pos xs d)"
  by (auto simp: length_pwrite)

lemma nth_pwrite:
  assumes "i < length (pwrite pos xs d)"
  shows "pwrite pos xs d ! i =
    (if pos \<le> i \<and> i < pos + length xs then xs ! (i - pos) else if i < length d then d ! i else NUL)"
proof (cases "xs = []")
  case True
  with assms show ?thesis by auto
next
  case False
  let ?a = "take pos (d @ replicate (pos - length d) NUL)"
  have len: "length ?a = pos" by simp
  have pw: "pwrite pos xs d = ?a @ xs @ drop (pos + length xs) d"
    using False by (simp add: pwrite_def)
  consider "i < pos" | "pos \<le> i" "i < pos + length xs" | "pos + length xs \<le> i" by linarith
  then show ?thesis
  proof cases
    case 1
    then show ?thesis unfolding pw nth_append len by (simp add: nth_append)
  next
    case 2
    then have "i - pos < length xs" by linarith
    with 2 show ?thesis unfolding pw nth_append len by simp
  next
    case 3
    with assms have "i < length d" using False by (auto simp: length_pwrite split: if_splits)
    moreover have "\<not> i - pos < length xs" "pos + length xs + (i - pos - length xs) = i" using 3 by linarith+
    ultimately show ?thesis using 3 unfolding pw nth_append len by simp
  qed
qed

lemma nth_pwrite_old:
  assumes "i < length d" and "i < pos \<or> pos + length xs \<le> i"
  shows "pwrite pos xs d ! i = d ! i"
proof -
  have "i < length (pwrite pos xs d)" using assms(1) by (simp add: length_pwrite less_max_iff_disj)
  with assms show ?thesis using nth_pwrite [of i pos xs d] by auto
qed

lemma pread_eqI:
  assumes "pos + n \<le> length d" and "pos + n \<le> length d'" and "\<And>i. pos \<le> i \<Longrightarrow> i < pos + n \<Longrightarrow> d ! i = d' ! i"
  shows "pread pos n d = pread pos n d'"
  using assms by (intro nth_equalityI) (auto simp: pread_def)

lemma pread_pwrite_same [disk_simps]: "pread pos (length xs) (pwrite pos xs d) = xs"
  by (cases "xs = []") (simp_all add: pread_def pwrite_def)

lemma pread_pwrite_other [disk_simps]:
  assumes "pos + n \<le> length d" and "pos + n \<le> pos' \<or> pos' + length xs \<le> pos"
  shows "pread pos n (pwrite pos' xs d) = pread pos n d"
  using assms by (intro pread_eqI) (auto simp: nth_pwrite_old length_pwrite_ge)

lemma pread_split: "pread pos (m + n) d = pread pos m d @ pread (pos + m) n d"
  by (simp add: pread_def take_add add.commute drop_drop)

lemma pread_0 [simp]: "pread pos 0 d = []"
  by (simp add: pread_def)

text \<open>Two writes that meet are one; a prefix already written may be written again.\<close>

lemma pwrite_append: "pwrite (pos + length xs) ys (pwrite pos xs d) = pwrite pos (xs @ ys) d"
  if "xs \<noteq> [] \<or> pos \<le> length d"
proof (cases "xs = [] \<or> ys = []")
  case True
  then show ?thesis by auto
next
  case False
  show ?thesis
    by (rule nth_equalityI)
      (use False in \<open>auto simp: nth_pwrite length_pwrite nth_append less_max_iff_disj\<close>)
qed


section \<open>The transfer loops\<close>

text \<open>
  \<open>rd\<close> gives the return value of each \<open>read\<close> from the number of the call, the position and
  the number of bytes asked for: -1 or the number of bytes delivered. The C code keeps it in
  a \<open>uint32_t\<close>, so that its test \<open>status <= 0\<close> is one for 0, and adds it to a
  \<open>uint32_t\<close>. The buffer begins as \<open>buf\<close> and gets the delivered bytes at \<open>read_size\<close>; the
  position of the file moves with every call that succeeds. A loop that the return values
  keep busy for ever is cut off by the fuel.
\<close>

type_synonym io = "nat \<Rightarrow> nat \<Rightarrow> nat \<Rightarrow> int"

fun block_read_loop :: "nat \<Rightarrow> nat \<Rightarrow> io \<Rightarrow> disk \<Rightarrow> nat \<Rightarrow> u32 \<Rightarrow> u32 \<Rightarrow> char list \<Rightarrow> char list fres" where
  "block_read_loop fuel call rd d pos sz read_size buf =
     (if read_size < sz then
        case fuel of
          0 \<Rightarrow> Inl (Diverges, d)
        | Suc fuel \<Rightarrow>
            let ret = rd call pos (unat (sz - read_size));
                status = (of_int ret :: u32);
                got = pread pos (nat ret) d in
            if status = 0 then Inl (Exit (-1), d)
            else if unat read_size + length got > length buf then Inl (OutOfBounds, d)
            else block_read_loop fuel (Suc call) rd d (pos + length got) sz (read_size + status)
                   (pwrite (unat read_size) got buf)
      else Inr buf)"

fun block_write_loop :: "nat \<Rightarrow> nat \<Rightarrow> io \<Rightarrow> disk \<Rightarrow> nat \<Rightarrow> u32 \<Rightarrow> u32 \<Rightarrow> char list \<Rightarrow> disk fres" where
  "block_write_loop fuel call wr d pos sz write_size dat =
     (if write_size < sz then
        case fuel of
          0 \<Rightarrow> Inl (Diverges, d)
        | Suc fuel \<Rightarrow>
            if unat sz > length dat then Inl (OutOfBounds, d)
            else
            let ret = wr call pos (unat (sz - write_size));
                status = (of_int ret :: u32);
                put = take (nat ret) (drop (unat write_size) dat) in
            if status = 0 then Inl (Exit (-1), d)
            else block_write_loop fuel (Suc call) wr (pwrite pos put d) (pos + length put) sz
                   (write_size + status) dat
      else Inr d)"

declare block_read_loop.simps [simp del] block_write_loop.simps [simp del]

text \<open>A regular file: a read delivers what there is, a write takes everything.\<close>

definition full_read :: "disk \<Rightarrow> io" where
  "full_read d call pos n = int (min n (length d - pos))"

definition full_write :: io where
  "full_write call pos n = int n"

definition minifs_read_block :: "disk \<Rightarrow> u32 \<Rightarrow> u32 \<Rightarrow> char list fres" where
  "minifs_read_block fd n offset =
     block_read_loop (Suc (unat n)) 0 (full_read fd) fd (unat offset) n 0 (replicate (unat n) NUL)"

definition minifs_write_block :: "disk \<Rightarrow> char list \<Rightarrow> u32 \<Rightarrow> u32 \<Rightarrow> disk fres" where
  "minifs_write_block fd dat n offset =
     block_write_loop (Suc (unat n)) 0 full_write fd (unat offset) n 0 dat"

text \<open>
  A system on which no call fails: each call transfers at least one byte and at most what was
  asked for; a read delivers at most what the file has, and nothing only at its end.
\<close>

definition calm_read :: "disk \<Rightarrow> io \<Rightarrow> bool" where
  "calm_read d rd \<longleftrightarrow> (\<forall>call pos n. 0 < n \<longrightarrow>
     0 \<le> rd call pos n \<and> nat (rd call pos n) \<le> min n (length d - pos) \<and>
     (pos < length d \<longrightarrow> 0 < rd call pos n))"

definition calm_write :: "io \<Rightarrow> bool" where
  "calm_write wr \<longleftrightarrow> (\<forall>call pos n. 0 < n \<longrightarrow> 0 < wr call pos n \<and> nat (wr call pos n) \<le> n)"

lemma full_read_calm: "calm_read d (full_read d)"
  by (simp add: calm_read_def full_read_def)

lemma full_write_calm: "calm_write full_write"
  by (simp add: calm_write_def full_write_def)

lemma unat_u32: "unat (a :: u32) < 4294967296"
proof -
  have "unat a < 2 ^ LENGTH(32)" by (rule unsigned_less)
  then show ?thesis by simp
qed

lemma unat_sub_less:
  "a < b \<Longrightarrow> 0 < unat b - unat a \<and> unat (b - a :: u32) = unat b - unat a \<and> unat b - unat a < 4294967296"
  using unat_u32 [of b] unat_sub [of a b] by (simp add: word_less_nat_alt word_le_nat_alt)

lemma unat_plus_nat: "unat (a :: u32) + k \<le> unat (b :: u32) \<Longrightarrow> unat (a + of_nat k) = unat a + k"
proof -
  assume k: "unat a + k \<le> unat b"
  with unat_u32 [of b] have "unat a + k < 4294967296" by simp
  then show ?thesis by (simp add: unat_word_ariths unat_of_nat)
qed

lemma status_of_nat:
  "0 \<le> ret \<Longrightarrow> (of_int ret :: u32) = of_nat (nat ret)"
  by (metis int_nat_eq of_int_of_nat_eq)

lemma status_zero: "k < 4294967296 \<Longrightarrow> (of_nat k :: u32) = 0 \<longleftrightarrow> k = 0"
  by (auto simp: word_of_nat_eq_0_iff dest: dvd_imp_le)

lemma rest_fits:
  fixes k m p l :: nat
  shows "p + k \<le> l \<Longrightarrow> k \<le> m \<Longrightarrow> 0 < m \<Longrightarrow> (m - k = 0 \<or> p + k + (m - k) \<le> l) \<longleftrightarrow> (m = 0 \<or> p + m \<le> l)"
  by auto

text \<open>
  The read loop on a system without failures: the bytes from the position on when the file has
  enough of them, \<open>exit(-1)\<close> at its end otherwise.
\<close>

lemma block_read_loop_calm:
  assumes "calm_read d rd" and "read_size \<le> sz" and "length buf = unat sz"
    and "unat sz - unat read_size < fuel"
  shows "block_read_loop fuel call rd d pos sz read_size buf =
    (let m = unat sz - unat read_size in
     if m = 0 \<or> pos + m \<le> length d then Inr (take (unat read_size) buf @ pread pos m d)
     else Inl (Exit (-1), d))"
  using assms(2-)
proof (induction fuel arbitrary: call pos read_size buf)
  case 0
  then show ?case by simp
next
  case (Suc fuel)
  let ?m = "unat sz - unat read_size"
  show ?case
  proof (cases "read_size < sz")
    case False
    with Suc.prems have "read_size = sz" by simp
    with Suc.prems show ?thesis by (subst block_read_loop.simps) simp
  next
    case True
    then have m: "0 < ?m" "unat (sz - read_size) = ?m" "?m < 4294967296"
      using unat_sub_less [of read_size sz] by simp_all
    define ret where "ret = rd call pos ?m"
    define k where "k = nat ret"
    have r: "0 \<le> ret" "k \<le> ?m" "k \<le> length d - pos" "pos < length d \<Longrightarrow> 0 < k"
      using assms(1) [unfolded calm_read_def, rule_format, OF m(1), of call pos]
      by (simp_all add: ret_def k_def)
    have st: "(of_int ret :: u32) = of_nat k" unfolding k_def by (rule status_of_nat [OF r(1)])
    have z: "(of_nat k :: u32) = 0 \<longleftrightarrow> k = 0" using r(2) m(3) by (intro status_zero) simp
    show ?thesis
    proof (cases "k = 0")
      case True
      with r(4) m(1) have "\<not> pos + ?m \<le> length d" by linarith
      with True \<open>read_size < sz\<close> m st z show ?thesis
        by (subst block_read_loop.simps) (simp add: Let_def ret_def)
    next
      case False
      let ?got = "pread pos k d" and ?rs = "read_size + of_nat k"
      have len: "length ?got = k" using r(3) False by (simp add: length_pread)
      have rs: "unat ?rs = unat read_size + k" using r(2) m(1) by (intro unat_plus_nat [of _ _ sz]) linarith
      have lb: "length (pwrite (unat read_size) ?got buf) = unat sz"
        using len r(2) m(1) Suc.prems(2) False by (simp add: length_pwrite)
      have tk: "take (unat read_size + k) (pwrite (unat read_size) ?got buf) = take (unat read_size) buf @ ?got"
        using len r(2) m(1) Suc.prems(2) False by (auto simp: pwrite_def)
      have nov: "\<not> unat sz < unat read_size + k" using r(2) m(1) by linarith
      have step: "block_read_loop (Suc fuel) call rd d pos sz read_size buf =
          block_read_loop fuel (Suc call) rd d (pos + k) sz ?rs (pwrite (unat read_size) ?got buf)"
        using \<open>read_size < sz\<close> m st z False len nov Suc.prems(2)
        by (subst block_read_loop.simps) (simp add: Let_def ret_def [symmetric] k_def [symmetric])
      have le: "?rs \<le> sz" using rs r(2) m(1) by (simp add: word_le_nat_alt)
      have fu: "unat sz - unat ?rs < fuel" using rs r(2) m(1) False Suc.prems(3) by linarith
      have m': "unat sz - (unat read_size + k) = ?m - k" by simp
      have sp: "pread pos ?m d = ?got @ pread (pos + k) (?m - k) d"
        using pread_split [of pos k "?m - k" d] le_add_diff_inverse [OF r(2)] by (simp only:)
      have kd: "pos + k \<le> length d" using r(3) False by linarith
      have cond: "(?m - k = 0 \<or> pos + k + (?m - k) \<le> length d) \<longleftrightarrow> (?m = 0 \<or> pos + ?m \<le> length d)"
        by (rule rest_fits [OF kd r(2) m(1)])
      show ?thesis
        by (simp only: step Suc.IH [OF le lb fu] Let_def rs m' tk cond sp append_assoc)
    qed
  qed
qed

lemma block_write_loop_calm:
  assumes "calm_write wr" and "write_size \<le> sz" and "unat sz \<le> length dat"
    and "unat sz - unat write_size < fuel"
  shows "block_write_loop fuel call wr d pos sz write_size dat =
    Inr (pwrite pos (take (unat sz - unat write_size) (drop (unat write_size) dat)) d)"
  using assms(2-)
proof (induction fuel arbitrary: call d pos write_size)
  case 0
  then show ?case by simp
next
  case (Suc fuel)
  let ?m = "unat sz - unat write_size"
  show ?case
  proof (cases "write_size < sz")
    case False
    with Suc.prems have "write_size = sz" by simp
    then show ?thesis by (subst block_write_loop.simps) simp
  next
    case True
    then have m: "0 < ?m" "unat (sz - write_size) = ?m" "?m < 4294967296"
      using unat_sub_less [of write_size sz] by simp_all
    define ret where "ret = wr call pos ?m"
    define k where "k = nat ret"
    have r: "0 \<le> ret" "k \<le> ?m" "0 < k"
      using assms(1) [unfolded calm_write_def, rule_format, OF m(1), of call pos]
      by (simp_all add: ret_def k_def)
    have st: "(of_int ret :: u32) = of_nat k" unfolding k_def by (rule status_of_nat [OF r(1)])
    have z: "(of_nat k :: u32) \<noteq> 0" using r(2,3) m(3) status_zero [of k] by simp
    let ?put = "take k (drop (unat write_size) dat)" and ?ws = "write_size + of_nat k"
    have ws: "unat ?ws = unat write_size + k" using r(2) m(1) by (intro unat_plus_nat [of _ _ sz]) linarith
    have len: "length ?put = k" using r(2) m(1) Suc.prems(2) by simp
    have step: "block_write_loop (Suc fuel) call wr d pos sz write_size dat =
        block_write_loop fuel (Suc call) wr (pwrite pos ?put d) (pos + k) sz ?ws dat"
      using \<open>write_size < sz\<close> m st z len Suc.prems(2)
      by (subst block_write_loop.simps) (simp add: Let_def ret_def [symmetric] k_def [symmetric] not_less)
    have le: "?ws \<le> sz" using ws r(2) m(1) by (simp add: word_le_nat_alt)
    have fu: "unat sz - unat ?ws < fuel" using ws r(2,3) m(1) Suc.prems(3) by linarith
    have "?put @ take (?m - k) (drop (unat write_size + k) dat) = take ?m (drop (unat write_size) dat)"
      using take_add [of k "?m - k" "drop (unat write_size) dat"] le_add_diff_inverse [OF r(2)]
      by (simp only: drop_drop add.commute)
    moreover have "?put \<noteq> []" using len r(3) by auto
    then have "pwrite (pos + k) ys (pwrite pos ?put d) = pwrite pos (?put @ ys) d" for ys
      using pwrite_append [of ?put pos d ys] len by simp
    moreover have "unat sz - (unat write_size + k) = ?m - k" by simp
    ultimately show ?thesis
      by (simp only: step Suc.IH [OF le Suc.prems(2) fu] ws)
  qed
qed

section \<open>One call that fails\<close>

text \<open>What a loop does depends only on the calls it still makes.\<close>

lemma read_loop_later:
  "\<forall>c\<ge>call. rd c = rd' c \<Longrightarrow>
    block_read_loop fuel call rd d pos sz read_size buf = block_read_loop fuel call rd' d pos sz read_size buf"
proof (induction fuel arbitrary: call pos read_size buf)
  case 0
  then show ?case by (simp add: block_read_loop.simps [of 0])
next
  case (Suc fuel)
  then show ?case by (simp add: block_read_loop.simps [of "Suc fuel"] Let_def)
qed

lemma write_loop_later:
  "\<forall>c\<ge>call. wr c = wr' c \<Longrightarrow>
    block_write_loop fuel call wr d pos sz write_size dat = block_write_loop fuel call wr' d pos sz write_size dat"
proof (induction fuel arbitrary: call d pos write_size)
  case 0
  then show ?case by (simp add: block_write_loop.simps [of 0])
next
  case (Suc fuel)
  then show ?case by (simp add: block_write_loop.simps [of "Suc fuel"] Let_def)
qed

text \<open>The turn of a call that returns -1: the count goes back by one, or from 0 past the size.\<close>

lemma read_turn_failed:
  assumes "unat read_size < unat sz" and "unat read_size \<le> length buf" and "rd call pos (unat sz - unat read_size) = -1"
  shows "block_read_loop (Suc fuel) call rd d pos sz read_size buf =
    block_read_loop fuel (Suc call) rd d pos sz (read_size - 1) buf"
proof -
  have lt: "read_size < sz" using assms(1) by (simp add: word_less_nat_alt)
  then have "unat (sz - read_size) = unat sz - unat read_size" using unat_sub_less by blast
  with lt assms(2,3) show ?thesis
    by (subst block_read_loop.simps) (simp add: Let_def pread_def pwrite_def)
qed

lemma write_turn_failed:
  assumes "unat write_size < unat sz" and "unat sz \<le> length dat" and "wr call pos (unat sz - unat write_size) = -1"
  shows "block_write_loop (Suc fuel) call wr d pos sz write_size dat =
    block_write_loop fuel (Suc call) wr d pos sz (write_size - 1) dat"
proof -
  have lt: "write_size < sz" using assms(1) by (simp add: word_less_nat_alt)
  then have "unat (sz - write_size) = unat sz - unat write_size" using unat_sub_less by blast
  with lt assms(2,3) show ?thesis
    by (subst block_write_loop.simps) (simp add: Let_def pwrite_def)
qed


section \<open>The two functions\<close>

text \<open>The two functions the rest of the model uses.\<close>

lemma minifs_read_block_eq:
  "minifs_read_block fd n offset =
    (if n = 0 \<or> unat offset + unat n \<le> length fd then Inr (pread (unat offset) (unat n) fd)
     else Inl (Exit (-1), fd))"
  using block_read_loop_calm [OF full_read_calm, where read_size = 0 and sz = n
      and buf = "replicate (unat n) NUL" and fuel = "Suc (unat n)" and call = 0 and pos = "unat offset"]
  by (simp add: minifs_read_block_def unat_eq_zero)

lemma minifs_write_block_eq:
  "unat n \<le> length dat \<Longrightarrow>
    minifs_write_block fd dat n offset = Inr (pwrite (unat offset) (take (unat n) dat) fd)"
  using block_write_loop_calm [OF full_write_calm, where write_size = 0 and sz = n and dat = dat
      and fuel = "Suc (unat n)" and call = 0 and d = fd and pos = "unat offset"]
  by (simp add: minifs_write_block_def)

lemma read_block_ok:
  "unat n = k \<Longrightarrow> unat offset + k \<le> length fd \<Longrightarrow>
    minifs_read_block fd n offset = Inr (pread (unat offset) k fd)"
  by (simp add: minifs_read_block_eq)

end
