(* ===== verification/Fs_Layout.thy ===== *)
theory Fs_Layout
  imports Disk
begin

text \<open>
  The data of internal/fs/fs.h: superblock, inodes and blocks as records, their image on disk
  (little endian, in the order of the fields) and the offsets of the tables.

  An \<open>int32_t\<close> is an \<open>int\<close> (the code stores only values of 32 bits in it), a \<open>uint32_t\<close> a
  \<open>32 word\<close>. The enumerations \<open>BlockType\<close> and \<open>InodeType\<close> are words as well: they are read
  back from the file, where any value may stand.
\<close>


section \<open>Integers as bytes\<close>

definition le32 :: "u32 \<Rightarrow> char list" where
  "le32 w =
     (let n = unat w in
      [char_of n, char_of (n div 256), char_of (n div 65536), char_of (n div 16777216)])"

definition un32 :: "char list \<Rightarrow> u32" where
  "un32 cs =
     of_nat (of_char (cs ! 0) + 256 * of_char (cs ! 1) + 65536 * of_char (cs ! 2) +
       16777216 * of_char (cs ! 3))"

definition int32 :: "int \<Rightarrow> bool" where
  "int32 i \<longleftrightarrow> -2147483648 \<le> i \<and> i < 2147483648"

lemma length_le32 [simp]: "length (le32 w) = 4"
  by (simp add: le32_def Let_def)

lemma byte_split:
  fixes n :: nat
  shows "n mod 256 + 256 * (n div 256 mod 256) + 65536 * (n div 65536 mod 256) +
    16777216 * (n div 16777216) = n"
proof -
  have d: "n div 65536 = n div 256 div 256" "n div 16777216 = n div 256 div 256 div 256"
    by (simp_all flip: div_mult2_eq)
  have m: "m mod 256 + 256 * (m div 256) = m" for m :: nat
    by simp
  show ?thesis
    unfolding d using m [of n] m [of "n div 256"] m [of "n div 256 div 256"] by linarith
qed

lemma un32_le32 [simp]: "un32 (le32 w) = w"
proof -
  let ?c = "\<lambda>i. of_char (le32 w ! i) :: nat"
  have m: "unat w div 16777216 mod 256 = unat w div 16777216"
    using unat_u32 [of w] by simp
  have "?c 0 + 256 * ?c 1 + 65536 * ?c 2 + 16777216 * ?c 3 = unat w"
    using byte_split [of "unat w"]
    by (simp add: m le32_def Let_def of_char_of numeral_3_eq_3 numeral_2_eq_2)
  then have "un32 (le32 w) = of_nat (unat w)" by (simp only: un32_def)
  then show ?thesis by simp
qed

lemma un32_append: "length cs = 4 \<Longrightarrow> un32 (cs @ ds) = un32 cs"
  by (simp add: un32_def nth_append)

lemma un32_le32_append [simp]: "un32 (le32 w @ ds) = w"
  by (simp add: un32_append)

text \<open>A signed field.\<close>

lemma int32_roundtrip [simp]: "int32 i \<Longrightarrow> sint (of_int i :: u32) = i"
  by (simp add: int32_def int_word_sint)

lemma int32_sint: "int32 (sint (w :: u32))"
  using sint_range_size [of w] by (simp add: int32_def word_size)

lemma sint_of_nat_u32:
  "k < 4294967296 \<Longrightarrow>
    sint (of_nat k :: u32) = (if k < 2147483648 then int k else int k - 4294967296)"
proof -
  assume k: "k < 4294967296"
  have s: "sint (of_nat k :: u32) = (int k + 2147483648) mod 4294967296 - 2147483648"
    using int_word_sint [where 'a = 32 and x = "int k"] by simp
  show ?thesis
  proof (cases "k < 2147483648")
    case True
    with s show ?thesis by simp
  next
    case False
    have "(int k + 2147483648) mod 4294967296 = (int k - 2147483648) mod 4294967296"
      using mod_add_self2 [of "int k - 2147483648" 4294967296] by (simp add: add.commute)
    with False k s show ?thesis by simp
  qed
qed


section \<open>Records\<close>

definition DEFAULT_INODE_COUNT :: u32 where "DEFAULT_INODE_COUNT = 1024"
definition DEFAULT_BLOCK_COUNT :: u32 where "DEFAULT_BLOCK_COUNT = 1024"
definition DEFAULT_BLOCK_SIZE :: u32 where "DEFAULT_BLOCK_SIZE = 1024"
definition MAX_FILENAME_SIZE :: u32 where "MAX_FILENAME_SIZE = 27"

definition MINIFS_BLOCK_EMPTY :: u32 where "MINIFS_BLOCK_EMPTY = 0"
definition MINIFS_BLOCK_USED :: u32 where "MINIFS_BLOCK_USED = 1"

definition MINIFS_INODE_EMPTY :: u32 where "MINIFS_INODE_EMPTY = 0"
definition MINIFS_INODE_FILE :: u32 where "MINIFS_INODE_FILE = 1"
definition MINIFS_INODE_DIRECTORY :: u32 where "MINIFS_INODE_DIRECTORY = 2"

lemma inode_types [simp]:
  "MINIFS_INODE_EMPTY \<noteq> MINIFS_INODE_FILE" "MINIFS_INODE_FILE \<noteq> MINIFS_INODE_EMPTY"
  "MINIFS_INODE_EMPTY \<noteq> MINIFS_INODE_DIRECTORY" "MINIFS_INODE_DIRECTORY \<noteq> MINIFS_INODE_EMPTY"
  "MINIFS_INODE_FILE \<noteq> MINIFS_INODE_DIRECTORY" "MINIFS_INODE_DIRECTORY \<noteq> MINIFS_INODE_FILE"
  by (simp_all add: MINIFS_INODE_EMPTY_def MINIFS_INODE_FILE_def MINIFS_INODE_DIRECTORY_def)

lemma block_types [simp]: "MINIFS_BLOCK_EMPTY \<noteq> MINIFS_BLOCK_USED" "MINIFS_BLOCK_USED \<noteq> MINIFS_BLOCK_EMPTY"
  by (simp_all add: MINIFS_BLOCK_EMPTY_def MINIFS_BLOCK_USED_def)

record Block =
  next_block :: int
  b_size :: u32
  b_type :: u32

record Inode =
  i_size :: u32
  root_block :: int
  parent :: int
  i_type :: u32

text \<open>
  \<open>sb_repr\<close> is the tail of the structure: four bytes of padding and the representation of the
  two pointers. \<open>inode_map\<close> and \<open>block_map\<close> are the arrays the pointers lead to.
\<close>

record SuperBlock =
  inode_count :: u32
  block_count :: u32
  used_inode_count :: u32
  used_block_count :: u32
  block_size :: u32
  sb_repr :: "char list"
  inode_map :: "Inode list"
  block_map :: "Block list"

text \<open>\<open>fd\<close> stands for the open file.\<close>

record Filesystem =
  sblock :: SuperBlock
  current_dir :: u32
  fd :: disk

definition sizeof_SuperBlock :: nat where "sizeof_SuperBlock = 40"
definition sizeof_Inode :: nat where "sizeof_Inode = 16"
definition sizeof_Block :: nat where "sizeof_Block = 12"


section \<open>Images\<close>

definition enc_SuperBlock :: "SuperBlock \<Rightarrow> char list" where
  "enc_SuperBlock sb =
     le32 (inode_count sb) @ le32 (block_count sb) @ le32 (used_inode_count sb) @
     le32 (used_block_count sb) @ le32 (block_size sb) @ sb_repr sb"

definition enc_Inode :: "Inode \<Rightarrow> char list" where
  "enc_Inode i = le32 (i_size i) @ le32 (of_int (root_block i)) @ le32 (of_int (parent i)) @ le32 (i_type i)"

definition enc_Block :: "Block \<Rightarrow> char list" where
  "enc_Block b = le32 (of_int (next_block b)) @ le32 (b_size b) @ le32 (b_type b)"

definition dec_Inode :: "char list \<Rightarrow> Inode" where
  "dec_Inode cs =
     \<lparr>i_size = un32 cs, root_block = sint (un32 (drop 4 cs)), parent = sint (un32 (drop 8 cs)),
      i_type = un32 (drop 12 cs)\<rparr>"

definition dec_Block :: "char list \<Rightarrow> Block" where
  "dec_Block cs =
     \<lparr>next_block = sint (un32 cs), b_size = un32 (drop 4 cs), b_type = un32 (drop 8 cs)\<rparr>"

text \<open>The superblock as read; the arrays are set afterwards.\<close>

definition dec_SuperBlock :: "char list \<Rightarrow> SuperBlock" where
  "dec_SuperBlock cs =
     \<lparr>inode_count = un32 cs, block_count = un32 (drop 4 cs), used_inode_count = un32 (drop 8 cs),
      used_block_count = un32 (drop 12 cs), block_size = un32 (drop 16 cs), sb_repr = drop 20 cs,
      inode_map = [], block_map = []\<rparr>"

text \<open>A table of records of \<open>n\<close> bytes each.\<close>

fun dec_table :: "(char list \<Rightarrow> 'a) \<Rightarrow> nat \<Rightarrow> nat \<Rightarrow> char list \<Rightarrow> 'a list" where
  "dec_table f n 0 cs = []"
| "dec_table f n (Suc k) cs = f (take n cs) # dec_table f n k (drop n cs)"

definition inode_ok :: "Inode \<Rightarrow> bool" where
  "inode_ok i \<longleftrightarrow> int32 (root_block i) \<and> int32 (parent i)"

definition block_ok :: "Block \<Rightarrow> bool" where
  "block_ok b \<longleftrightarrow> int32 (next_block b)"

lemma length_enc_Inode [simp]: "length (enc_Inode i) = sizeof_Inode"
  by (simp add: enc_Inode_def sizeof_Inode_def)

lemma length_enc_Block [simp]: "length (enc_Block b) = sizeof_Block"
  by (simp add: enc_Block_def sizeof_Block_def)

lemma length_enc_SuperBlock:
  "length (sb_repr sb) = 20 \<Longrightarrow> length (enc_SuperBlock sb) = sizeof_SuperBlock"
  by (simp add: enc_SuperBlock_def sizeof_SuperBlock_def)

lemma drop_le32 [simp]: "drop 4 (le32 w @ cs) = cs" "drop (Suc (Suc (Suc (Suc 0)))) (le32 w @ cs) = cs"
  by simp_all

lemma dec_enc_Inode [simp]: "inode_ok i \<Longrightarrow> dec_Inode (enc_Inode i) = i"
  using un32_le32_append [of "i_type i" "[]"]
  by (simp add: inode_ok_def dec_Inode_def enc_Inode_def)

lemma dec_enc_Block [simp]: "block_ok b \<Longrightarrow> dec_Block (enc_Block b) = b"
  by (simp add: block_ok_def dec_Block_def enc_Block_def)

lemma dec_enc_SuperBlock:
  "dec_SuperBlock (enc_SuperBlock sb) = sb\<lparr>inode_map := [], block_map := []\<rparr>"
  by (simp add: dec_SuperBlock_def enc_SuperBlock_def)

lemma dec_table_map:
  assumes "\<And>x. x \<in> set xs \<Longrightarrow> length (e x) = n \<and> f (e x) = x"
  shows "dec_table f n (length xs) (concat (map e xs) @ r) = xs"
  using assms by (induction xs) auto

lemma length_dec_table [simp]: "length (dec_table f n k cs) = k"
  by (induction k arbitrary: cs) auto

lemma length_concat_same: "(\<And>x. x \<in> set xs \<Longrightarrow> length (e x) = n) \<Longrightarrow> length (concat (map e xs)) = length xs * n"
  by (induction xs) auto


section \<open>Offsets\<close>

definition minifs_block_head_offset :: "Filesystem \<Rightarrow> u32 \<Rightarrow> u32" where
  "minifs_block_head_offset fs index =
     0 + of_nat sizeof_SuperBlock + inode_count (sblock fs) * of_nat sizeof_Inode + index * of_nat sizeof_Block"

definition minifs_block_body_offset :: "Filesystem \<Rightarrow> u32 \<Rightarrow> u32" where
  "minifs_block_body_offset fs index =
     0 + of_nat sizeof_SuperBlock + inode_count (sblock fs) * of_nat sizeof_Inode +
     block_count (sblock fs) * of_nat sizeof_Block + block_size (sblock fs) * index"

definition minifs_inode_offset :: "Filesystem \<Rightarrow> u32 \<Rightarrow> u32" where
  "minifs_inode_offset fs index = 0 + of_nat sizeof_SuperBlock + index * of_nat sizeof_Inode"

end
