(* ===== verification/Fs_Core.thy ===== *)
theory Fs_Core
  imports Fs_Layout
begin

text \<open>
  The operations of internal/fs/fs.c. Each is a function on the \<open>Filesystem\<close> record, the
  open file included; an \<open>exit\<close>, an access outside an array and a loop that does not end are
  values of \<open>stop\<close>, returned with the file as it then is.

  The blocks of a file or directory are linked by \<open>next_block\<close>; on a file that was tampered
  with the links can form a cycle, so each loop over them has fuel, chosen so large that it
  only runs out when the loop of the code does not end. Memory from \<open>malloc\<close> is a value and
  its allocation is assumed to succeed.
\<close>


section \<open>Access to the tables\<close>

definition get_inode :: "Filesystem \<Rightarrow> int \<Rightarrow> Inode fres" where
  "get_inode fs i =
     (if 0 \<le> i \<and> nat i < length (inode_map (sblock fs)) then Inr (inode_map (sblock fs) ! nat i)
      else Inl (OutOfBounds, fd fs))"

definition get_block :: "Filesystem \<Rightarrow> int \<Rightarrow> Block fres" where
  "get_block fs i =
     (if 0 \<le> i \<and> nat i < length (block_map (sblock fs)) then Inr (block_map (sblock fs) ! nat i)
      else Inl (OutOfBounds, fd fs))"

definition put_inode :: "Filesystem \<Rightarrow> nat \<Rightarrow> Inode \<Rightarrow> Filesystem" where
  "put_inode fs i x = fs\<lparr>sblock := (sblock fs)\<lparr>inode_map := (inode_map (sblock fs))[i := x]\<rparr>\<rparr>"

definition put_block :: "Filesystem \<Rightarrow> nat \<Rightarrow> Block \<Rightarrow> Filesystem" where
  "put_block fs i x = fs\<lparr>sblock := (sblock fs)\<lparr>block_map := (block_map (sblock fs))[i := x]\<rparr>\<rparr>"

definition upd_inode :: "Filesystem \<Rightarrow> int \<Rightarrow> (Inode \<Rightarrow> Inode) \<Rightarrow> Filesystem fres" where
  "upd_inode fs i f = rbind (get_inode fs i) (\<lambda>x. Inr (put_inode fs (nat i) (f x)))"

definition upd_block :: "Filesystem \<Rightarrow> int \<Rightarrow> (Block \<Rightarrow> Block) \<Rightarrow> Filesystem fres" where
  "upd_block fs i f = rbind (get_block fs i) (\<lambda>x. Inr (put_block fs (nat i) (f x)))"

definition add_used_blocks :: "u32 \<Rightarrow> Filesystem \<Rightarrow> Filesystem" where
  "add_used_blocks n fs = fs\<lparr>sblock := (sblock fs)\<lparr>used_block_count := used_block_count (sblock fs) + n\<rparr>\<rparr>"

definition add_used_inodes :: "u32 \<Rightarrow> Filesystem \<Rightarrow> Filesystem" where
  "add_used_inodes n fs = fs\<lparr>sblock := (sblock fs)\<lparr>used_inode_count := used_inode_count (sblock fs) + n\<rparr>\<rparr>"


section \<open>Creating and opening\<close>

text \<open>The file named on the command line: \<open>None\<close> when there is none.\<close>

fun check_exists :: "disk option \<Rightarrow> bool" where
  "check_exists None = False"
| "check_exists (Some d) = (\<not> length d < sizeof_SuperBlock)"

definition zero_Inode :: Inode where
  "zero_Inode = \<lparr>i_size = 0, root_block = 0, parent = 0, i_type = MINIFS_INODE_EMPTY\<rparr>"

definition zero_Block :: Block where
  "zero_Block = \<lparr>next_block = 0, b_size = 0, b_type = MINIFS_BLOCK_EMPTY\<rparr>"

definition init_inodes :: "Inode list" where
  "init_inodes = (replicate (unat DEFAULT_INODE_COUNT) zero_Inode)
     [0 := \<lparr>i_size = 0, root_block = 0, parent = 0, i_type = MINIFS_INODE_DIRECTORY\<rparr>]"

definition init_blocks :: "Block list" where
  "init_blocks = (replicate (unat DEFAULT_BLOCK_COUNT) zero_Block)
     [0 := \<lparr>next_block = -1, b_size = 0, b_type = MINIFS_BLOCK_USED\<rparr>]"

text \<open>\<open>pad\<close> are the four padding bytes of the structure; the pointers are null.\<close>

definition init_sblock :: "char list \<Rightarrow> SuperBlock" where
  "init_sblock pad =
     \<lparr>inode_count = DEFAULT_INODE_COUNT, block_count = DEFAULT_BLOCK_COUNT,
      used_inode_count = 0, used_block_count = 0, block_size = DEFAULT_BLOCK_SIZE,
      sb_repr = pad @ replicate 16 NUL, inode_map = [], block_map = []\<rparr>"

text \<open>\<open>ok\<close> says whether \<open>open\<close> succeeded; it creates the file and does not truncate it.\<close>

definition minifs_init :: "bool \<Rightarrow> char list \<Rightarrow> disk option \<Rightarrow> disk fres" where
  "minifs_init ok pad file =
     (let d = (case file of None \<Rightarrow> [] | Some d \<Rightarrow> d) in
      if \<not> ok then Inl (Exit (-1), d)
      else
        rbind (minifs_write_block d (enc_SuperBlock (init_sblock pad)) (of_nat sizeof_SuperBlock) 0) (\<lambda>d.
        rbind (minifs_write_block d (concat (map enc_Inode init_inodes))
          (DEFAULT_INODE_COUNT * of_nat sizeof_Inode) (of_nat sizeof_SuperBlock)) (\<lambda>d.
        minifs_write_block d (concat (map enc_Block init_blocks))
          (DEFAULT_BLOCK_SIZE * of_nat sizeof_Block)
          (of_nat sizeof_SuperBlock + DEFAULT_INODE_COUNT * of_nat sizeof_Inode))))"

text \<open>
  \<open>ptrs\<close> is the representation of the two pointers \<open>malloc\<close> returns. The number of bytes to
  read is cut to 32 bits: when that loses bits the arrays are not filled.
\<close>

definition minifs_open :: "bool \<Rightarrow> char list \<Rightarrow> disk option \<Rightarrow> Filesystem fres" where
  "minifs_open ok ptrs file =
     (case file of
        None \<Rightarrow> Inl (Exit (-1), [])
      | Some d \<Rightarrow>
          if \<not> ok then Inl (Exit (-1), d)
          else
            rbind (minifs_read_block d (of_nat sizeof_SuperBlock) 0) (\<lambda>cs.
            let sb = dec_SuperBlock cs;
                ni = unat (inode_count sb); nb = unat (block_count sb) in
            rbind (minifs_read_block d (inode_count sb * of_nat sizeof_Inode) (of_nat sizeof_SuperBlock)) (\<lambda>is.
            rbind (minifs_read_block d (block_count sb * of_nat sizeof_Block)
              (of_nat sizeof_SuperBlock + inode_count sb * of_nat sizeof_Inode)) (\<lambda>bs.
            if length is < ni * sizeof_Inode \<or> length bs < nb * sizeof_Block then Inl (Uninit, d)
            else
              Inr \<lparr>sblock = sb\<lparr>sb_repr := take 4 (sb_repr sb) @ ptrs,
                     inode_map := dec_table dec_Inode sizeof_Inode ni is,
                     block_map := dec_table dec_Block sizeof_Block nb bs\<rparr>,
                   current_dir = 0, fd = d\<rparr>))))"


section \<open>Directories\<close>

text \<open>The three arrays of \<open>DirectoryMap\<close>; its \<open>size\<close> is their length.\<close>

record DirectoryMap =
  names :: "char list list"
  inodes :: "u32 list"
  used :: "char list"

definition entry_size :: nat where "entry_size = 32"

text \<open>The inner loop over the entries of a block; the arrays have room for \<open>cap\<close> entries.\<close>

fun read_entries :: "Filesystem \<Rightarrow> u32 \<Rightarrow> u32 \<Rightarrow> nat list \<Rightarrow> DirectoryMap \<Rightarrow> DirectoryMap fres" where
  "read_entries fs cap current_offset [] result = Inr result"
| "read_entries fs cap current_offset (index # is) result =
     (let local_offset = current_offset + of_nat (index * entry_size) in
      rbind (minifs_read_block (fd fs) 1 local_offset) (\<lambda>u.
      rbind (minifs_read_block (fd fs) MAX_FILENAME_SIZE (local_offset + 1)) (\<lambda>name.
      rbind (minifs_read_block (fd fs) 4 (local_offset + 1 + MAX_FILENAME_SIZE)) (\<lambda>inode_id.
      if length (names result) < unat cap then
        read_entries fs cap current_offset is
          \<lparr>names = names result @ [name], inodes = inodes result @ [un32 inode_id],
           used = used result @ [hd u]\<rparr>
      else Inl (OutOfBounds, fd fs)))))"

fun read_dir_loop :: "nat \<Rightarrow> Filesystem \<Rightarrow> u32 \<Rightarrow> int \<Rightarrow> DirectoryMap \<Rightarrow> DirectoryMap fres" where
  "read_dir_loop fuel fs cap current_block result =
     (if current_block \<ge> 0 then
        case fuel of
          0 \<Rightarrow> Inl (Diverges, fd fs)
        | Suc fuel \<Rightarrow>
            rbind (get_block fs current_block) (\<lambda>block.
            let count = unat (b_size block) div entry_size;
                current_offset = minifs_block_body_offset fs (of_int current_block) in
            rbind (read_entries fs cap current_offset [0..<count] result) (\<lambda>result.
            read_dir_loop fuel fs cap (next_block block) result))
      else Inr result)"

text \<open>
  Within \<open>n + 1\<close> blocks a cycle closes, where \<open>n\<close> is the number of blocks; a cycle that holds
  an entry overruns the arrays after at most \<open>cap + 1\<close> rounds.
\<close>

definition chain_fuel :: "Filesystem \<Rightarrow> u32 \<Rightarrow> nat" where
  "chain_fuel fs cap = Suc (length (block_map (sblock fs))) * (unat cap + 2)"

definition minifs_read_dir :: "Filesystem \<Rightarrow> u32 \<Rightarrow> DirectoryMap fres" where
  "minifs_read_dir fs dir_inode =
     rbind (get_inode fs (uint dir_inode)) (\<lambda>inode.
     read_dir_loop (chain_fuel fs (i_size inode)) fs (i_size inode) (root_block inode)
       \<lparr>names = [], inodes = [], used = []\<rparr>)"


text \<open>
  The blocks of the heap a directory map consists of, in the order they are allocated, and
  those \<open>minifs_clear_dirmap\<close> releases, in its order: all but the array \<open>used\<close>.
\<close>

datatype map_block = Map_block | Names_block | Inodes_block | Used_block | Name_block nat

definition dirmap_blocks :: "DirectoryMap \<Rightarrow> map_block list" where
  "dirmap_blocks result =
     [Map_block, Names_block, Inodes_block, Used_block] @ map Name_block [0..<length (names result)]"

definition minifs_clear_dirmap :: "DirectoryMap \<Rightarrow> map_block list" where
  "minifs_clear_dirmap content = map Name_block [0..<length (names content)] @ [Names_block, Inodes_block, Map_block]"

lemma clear_dirmap_leak:
  "set (dirmap_blocks m) - set (minifs_clear_dirmap m) = {Used_block}" and "distinct (minifs_clear_dirmap m)"
  by (auto simp: dirmap_blocks_def minifs_clear_dirmap_def distinct_map inj_on_def)


section \<open>Free inodes and blocks\<close>

definition minifs_find_free_inode :: "Filesystem \<Rightarrow> int" where
  "minifs_find_free_inode fs =
     (let sb = sblock fs in
      if used_inode_count sb \<ge> inode_count sb then -1
      else case find_first (\<lambda>i. i_type i = MINIFS_INODE_EMPTY) (take (unat (inode_count sb)) (inode_map sb)) of
             Some index \<Rightarrow> sint (of_nat index :: u32)
           | None \<Rightarrow> -1)"

definition minifs_find_free_block :: "Filesystem \<Rightarrow> int" where
  "minifs_find_free_block fs =
     (let sb = sblock fs in
      if used_block_count sb \<ge> block_count sb then -1
      else case find_first (\<lambda>b. b_type b = MINIFS_BLOCK_EMPTY) (take (unat (block_count sb)) (block_map sb)) of
             Some index \<Rightarrow> sint (of_nat index :: u32)
           | None \<Rightarrow> -1)"


section \<open>Writing the tables\<close>

fun write_inodes :: "nat list \<Rightarrow> Filesystem \<Rightarrow> Filesystem fres" where
  "write_inodes [] fs = Inr fs"
| "write_inodes (index # is) fs =
     rbind (get_inode fs (int index)) (\<lambda>i.
     rbind (minifs_write_block (fd fs) (enc_Inode i) (of_nat sizeof_Inode)
       (minifs_inode_offset fs (of_nat index))) (\<lambda>d.
     write_inodes is (fs\<lparr>fd := d\<rparr>)))"

fun write_blocks :: "nat list \<Rightarrow> Filesystem \<Rightarrow> Filesystem fres" where
  "write_blocks [] fs = Inr fs"
| "write_blocks (index # is) fs =
     rbind (get_block fs (int index)) (\<lambda>b.
     rbind (minifs_write_block (fd fs) (enc_Block b) (of_nat sizeof_Block)
       (minifs_block_head_offset fs (of_nat index))) (\<lambda>d.
     write_blocks is (fs\<lparr>fd := d\<rparr>)))"

definition minifs_update_superblock :: "Filesystem \<Rightarrow> Filesystem fres" where
  "minifs_update_superblock fs =
     rbind (minifs_write_block (fd fs) (enc_SuperBlock (sblock fs)) (of_nat sizeof_SuperBlock) 0) (\<lambda>d.
     rbind (write_inodes [0..<unat (inode_count (sblock fs))] (fs\<lparr>fd := d\<rparr>)) (\<lambda>fs.
     write_blocks [0..<unat (block_count (sblock fs))] fs))"


section \<open>Appending\<close>

text \<open>The walk to the last block of a chain; a chain longer than the table is a cycle.\<close>

fun last_block :: "nat \<Rightarrow> Filesystem \<Rightarrow> int \<Rightarrow> Block \<Rightarrow> (int \<times> Block) fres" where
  "last_block fuel fs current_block_id block =
     (if next_block block \<ge> 0 then
        case fuel of
          0 \<Rightarrow> Inl (Diverges, fd fs)
        | Suc fuel \<Rightarrow>
            rbind (get_block fs (next_block block)) (\<lambda>b. last_block fuel fs (next_block block) b)
      else Inr (current_block_id, block))"

definition free_blocks :: "Filesystem \<Rightarrow> nat" where
  "free_blocks fs = length (filter (\<lambda>b. b_type b = MINIFS_BLOCK_EMPTY) (block_map (sblock fs)))"

text \<open>One turn of the second loop: take a free block and link it.\<close>

definition link_block :: "Filesystem \<Rightarrow> int \<Rightarrow> int \<Rightarrow> Filesystem fres" where
  "link_block fs new_block current_block_id =
     rbind (upd_block fs new_block (\<lambda>b. \<lparr>next_block = -1, b_size = 0, b_type = MINIFS_BLOCK_USED\<rparr>)) (\<lambda>fs.
     rbind (upd_block fs current_block_id (\<lambda>b. b\<lparr>next_block := new_block\<rparr>)) (\<lambda>fs.
     Inr (add_used_blocks 1 fs)))"

lemma filter_update_less:
  assumes "i < length xs" and "P (xs ! i)" and "\<not> P x"
  shows "length (filter P (xs[i := x])) < length (filter P xs)"
proof -
  have "filter P xs = filter P (take i xs @ xs ! i # drop (Suc i) xs)"
    using id_take_nth_drop [OF assms(1)] by (rule arg_cong)
  moreover have "filter P (xs[i := x]) = filter P (take i xs @ x # drop (Suc i) xs)"
    using upd_conv_take_nth_drop [OF assms(1)] by (rule arg_cong)
  ultimately show ?thesis using assms(2,3) by (simp del: filter_append add: filter_append)
qed

lemma filter_update_same:
  assumes "i < length xs \<Longrightarrow> P x = P (xs ! i)"
  shows "length (filter P (xs[i := x])) = length (filter P xs)"
proof (cases "i < length xs")
  case True
  have "filter P xs = filter P (take i xs @ xs ! i # drop (Suc i) xs)"
    using id_take_nth_drop [OF True] by (rule arg_cong)
  moreover have "filter P (xs[i := x]) = filter P (take i xs @ x # drop (Suc i) xs)"
    using upd_conv_take_nth_drop [OF True] by (rule arg_cong)
  ultimately show ?thesis using assms [OF True] by simp
next
  case False
  then have "xs[i := x] = xs" by (simp add: list_update_beyond)
  then show ?thesis by (rule arg_cong)
qed

lemma find_free_block_nth:
  assumes "\<not> minifs_find_free_block fs < 0"
  defines "i \<equiv> nat (minifs_find_free_block fs)"
  shows "i < length (block_map (sblock fs)) \<and> b_type (block_map (sblock fs) ! i) = MINIFS_BLOCK_EMPTY \<and>
    i < unat (block_count (sblock fs)) \<and> minifs_find_free_block fs = int i"
proof -
  let ?n = "unat (block_count (sblock fs))"
  from assms(1) obtain k where
    k: "find_first (\<lambda>b. b_type b = MINIFS_BLOCK_EMPTY) (take ?n (block_map (sblock fs))) = Some k"
      "minifs_find_free_block fs = sint (of_nat k :: u32)"
    by (auto simp: minifs_find_free_block_def Let_def split: if_splits option.splits)
  then have kb: "k < length (block_map (sblock fs))" "k < ?n"
      "b_type (block_map (sblock fs) ! k) = MINIFS_BLOCK_EMPTY"
    by (auto simp: find_first_Some_iff)
  have "sint (of_nat k :: u32) = int k"
    using assms(1) k(2) sint_of_nat_u32 [of k] kb(2) unat_u32 [of "block_count (sblock fs)"]
    by (simp split: if_splits)
  with k kb show ?thesis by (simp add: i_def)
qed

lemma link_block_free:
  assumes "\<not> minifs_find_free_block fs < 0"
    and "link_block fs (minifs_find_free_block fs) current_block_id = Inr fs'"
  shows "free_blocks fs' < free_blocks fs"
proof -
  let ?i = "nat (minifs_find_free_block fs)"
  let ?b = "\<lparr>next_block = -1, b_size = 0, b_type = MINIFS_BLOCK_USED\<rparr> :: Block"
  let ?fs1 = "put_block fs ?i ?b"
  note i = find_free_block_nth [OF assms(1)]
  have "free_blocks ?fs1 < free_blocks fs"
    using i by (simp add: free_blocks_def put_block_def filter_update_less MINIFS_BLOCK_USED_def MINIFS_BLOCK_EMPTY_def)
  moreover from assms(2) obtain x where "get_block ?fs1 current_block_id = Inr x"
      "fs' = add_used_blocks 1 (put_block ?fs1 (nat current_block_id) (x\<lparr>next_block := minifs_find_free_block fs\<rparr>))"
    by (auto simp: link_block_def upd_block_def res_simps)
  then have "free_blocks fs' = free_blocks ?fs1"
    by (auto simp: free_blocks_def put_block_def add_used_blocks_def get_block_def split: if_splits
        intro!: filter_update_same)
  ultimately show ?thesis by simp
qed

text \<open>
  The second loop. A turn with more data than a block holds fills the new block and goes on;
  each turn takes a free block, so the loop ends also for a block size of 0.
\<close>

function append_blocks :: "Filesystem \<Rightarrow> int \<Rightarrow> char list \<Rightarrow> u32 \<Rightarrow> Filesystem fres" where
  "append_blocks fs current_block_id dat data_size =
     (if data_size > 0 then
        let new_block = minifs_find_free_block fs in
        if new_block < 0 then Inl (Exit (-1), fd fs)
        else
          rbind (link_block fs new_block current_block_id) (\<lambda>fs.
          let offset = minifs_block_body_offset fs (of_int new_block); bs = block_size (sblock fs) in
          if data_size \<le> bs then
            rbind (minifs_write_block (fd fs) dat data_size offset) (\<lambda>d.
            upd_block (fs\<lparr>fd := d\<rparr>) new_block (\<lambda>b. b\<lparr>b_size := data_size\<rparr>))
          else
            rbind (minifs_write_block (fd fs) dat bs offset) (\<lambda>d.
            rbind (upd_block (fs\<lparr>fd := d\<rparr>) new_block (\<lambda>b. b\<lparr>b_size := bs\<rparr>)) (\<lambda>fs.
            append_blocks fs new_block (drop (unat bs) dat) (data_size - bs))))
      else Inr fs)"
  by pat_completeness auto
termination
proof (relation "measure (\<lambda>(fs, cur, dat, n). free_blocks fs)", goal_cases)
  case 1
  show ?case by simp
next
  case (2 fs cur dat n new fs1 off bs d fs2)
  then have "free_blocks fs1 < free_blocks fs" by (auto intro: link_block_free)
  moreover have "free_blocks fs2 = free_blocks fs1"
    using 2 by (auto simp: upd_block_def res_simps get_block_def free_blocks_def put_block_def
        split: if_splits intro!: filter_update_same)
  ultimately show ?case by simp
qed

declare append_blocks.simps [simp del]

definition minifs_append_data :: "Filesystem \<Rightarrow> u32 \<Rightarrow> char list \<Rightarrow> u32 \<Rightarrow> Filesystem fres" where
  "minifs_append_data fs inode_id dat data_size =
     rbind (get_inode fs (uint inode_id)) (\<lambda>inode.
     rbind (get_block fs (root_block inode)) (\<lambda>block.
     rbind (last_block (Suc (length (block_map (sblock fs)))) fs (root_block inode) block)
       (\<lambda>(current_block_id, block).
     let bs = block_size (sblock fs);
         offset = minifs_block_body_offset fs (of_int current_block_id) + b_size block in
     if bs - b_size block \<ge> data_size then
       rbind (minifs_write_block (fd fs) dat data_size offset) (\<lambda>d.
       upd_block (fs\<lparr>fd := d\<rparr>) current_block_id (\<lambda>b. b\<lparr>b_size := b_size b + data_size\<rparr>))
     else if b_size block < bs then
       let delta = bs - b_size block in
       rbind (minifs_write_block (fd fs) dat delta offset) (\<lambda>d.
       rbind (upd_block (fs\<lparr>fd := d\<rparr>) current_block_id (\<lambda>b. b\<lparr>b_size := bs\<rparr>)) (\<lambda>fs.
       append_blocks fs current_block_id (drop (unat delta) dat) (data_size - delta)))
     else append_blocks fs current_block_id dat data_size)))"


section \<open>Removing an entry and reading a file\<close>

text \<open>
  The walk to the block of the entry. With entries of 32 bytes it takes at most
  \<open>index + 1\<close> turns; with blocks smaller than an entry the index does not change and a
  chain longer than the table is a cycle.
\<close>

fun seek_entry :: "nat \<Rightarrow> Filesystem \<Rightarrow> u32 \<Rightarrow> u32 \<Rightarrow> (u32 \<times> u32) fres" where
  "seek_entry fuel fs current_block_id index =
     (if unat index * entry_size > unat (block_size (sblock fs)) then
        case fuel of
          0 \<Rightarrow> Inl (Diverges, fd fs)
        | Suc fuel \<Rightarrow>
            rbind (get_block fs (uint current_block_id)) (\<lambda>b.
            seek_entry fuel fs (of_int (next_block b))
              (index - of_nat (unat (block_size (sblock fs)) div entry_size)))
      else Inr (current_block_id, index))"

definition minifs_remove_from_dir :: "Filesystem \<Rightarrow> u32 \<Rightarrow> u32 \<Rightarrow> Filesystem fres" where
  "minifs_remove_from_dir fs dir_inode index =
     rbind (get_inode fs (uint dir_inode)) (\<lambda>inode.
     rbind (seek_entry (unat index + length (block_map (sblock fs)) + 2) fs (of_int (root_block inode)) index)
       (\<lambda>(current_block_id, index).
     let offset = minifs_block_body_offset fs current_block_id + of_nat (unat index * entry_size) in
     rbind (minifs_write_block (fd fs) [NUL] 1 offset) (\<lambda>d. Inr (fs\<lparr>fd := d\<rparr>))))"

text \<open>
  The loop of \<open>minifs_read_data\<close> fills the buffer of \<open>cap\<close> bytes. The code loads the next
  entry of \<open>block_map\<close> at the end of each turn, before it tests the index; the last such load,
  which the loop does not use, is outside the array when the index is -1. The model loads an
  entry where it is used and reports whether that last load was outside the array.
\<close>

fun read_data_loop :: "nat \<Rightarrow> Filesystem \<Rightarrow> u32 \<Rightarrow> int \<Rightarrow> char list \<Rightarrow> (char list \<times> int) fres" where
  "read_data_loop fuel fs cap current_block_id buffer =
     (if current_block_id > 0 then
        case fuel of
          0 \<Rightarrow> Inl (Diverges, fd fs)
        | Suc fuel \<Rightarrow>
            rbind (get_block fs current_block_id) (\<lambda>block.
            if b_size block > 0 then
              if length buffer + unat (b_size block) > unat cap then Inl (OutOfBounds, fd fs)
              else
                rbind (minifs_read_block (fd fs) (b_size block)
                  (minifs_block_body_offset fs (of_int current_block_id))) (\<lambda>bytes.
                read_data_loop fuel fs cap (next_block block) (buffer @ bytes))
            else read_data_loop fuel fs cap (next_block block) buffer)
      else Inr (buffer, current_block_id))"

definition minifs_read_data :: "Filesystem \<Rightarrow> int \<Rightarrow> (char list \<times> int \<times> bool) fres" where
  "minifs_read_data fs inode_id =
     rbind (get_inode fs inode_id) (\<lambda>inode.
     rbind (read_data_loop (chain_fuel fs (i_size inode)) fs (i_size inode) (root_block inode) [])
       (\<lambda>(buffer, final).
     Inr (buffer, sint (i_size inode), final < 0 \<or> nat final \<ge> length (block_map (sblock fs)))))"

declare read_dir_loop.simps [simp del] last_block.simps [simp del] seek_entry.simps [simp del]
  read_data_loop.simps [simp del]

end
