(* ===== verification/Fs_Persist.thy ===== *)
theory Fs_Persist
  imports Fs_Core
begin

text \<open>
  What stands on the disk: the tables of a file system occupy one stretch of bytes at the start
  of the file, \<open>meta\<close>, the bodies of the blocks follow. \<open>minifs_init\<close> and
  \<open>minifs_update_superblock\<close> write that stretch, \<open>minifs_open\<close> reads it back.
\<close>


section \<open>Layout\<close>

definition meta :: "SuperBlock \<Rightarrow> char list" where
  "meta sb = enc_SuperBlock sb @ concat (map enc_Inode (inode_map sb)) @ concat (map enc_Block (block_map sb))"

definition meta_size :: "SuperBlock \<Rightarrow> nat" where
  "meta_size sb = 40 + 16 * length (inode_map sb) + 12 * length (block_map sb)"

definition body_pos :: "SuperBlock \<Rightarrow> nat \<Rightarrow> nat" where
  "body_pos sb b = meta_size sb + unat (block_size sb) * b"

text \<open>
  The tables have the sizes the superblock says, the end of the last block is an offset of 32
  bits, and signed fields are in range.
\<close>

definition sb_ok :: "SuperBlock \<Rightarrow> bool" where
  "sb_ok sb \<longleftrightarrow>
     length (inode_map sb) = unat (inode_count sb) \<and> length (block_map sb) = unat (block_count sb) \<and>
     length (sb_repr sb) = 20 \<and> body_pos sb (length (block_map sb)) < 4294967296 \<and>
     (\<forall>i\<in>set (inode_map sb). inode_ok i) \<and> (\<forall>b\<in>set (block_map sb). block_ok b)"

lemma sb_okD:
  assumes "sb_ok sb"
  shows "length (inode_map sb) = unat (inode_count sb)" and "length (block_map sb) = unat (block_count sb)"
    and "length (sb_repr sb) = 20" and "body_pos sb (length (block_map sb)) < 4294967296"
    and "inode_count sb = of_nat (length (inode_map sb))" and "block_count sb = of_nat (length (block_map sb))"
proof -
  show i: "length (inode_map sb) = unat (inode_count sb)" and b: "length (block_map sb) = unat (block_count sb)"
    and "length (sb_repr sb) = 20" and "body_pos sb (length (block_map sb)) < 4294967296"
    using assms unfolding sb_ok_def by blast+
  show "inode_count sb = of_nat (length (inode_map sb))" and "block_count sb = of_nat (length (block_map sb))"
    unfolding i b by simp_all
qed

lemma length_meta:
  assumes "length (sb_repr sb) = 20"
  shows "length (meta sb) = meta_size sb"
proof -
  have "length (concat (map enc_Inode (inode_map sb))) = length (inode_map sb) * 16"
    by (rule length_concat_same) (simp add: sizeof_Inode_def)
  moreover have "length (concat (map enc_Block (block_map sb))) = length (block_map sb) * 12"
    by (rule length_concat_same) (simp add: sizeof_Block_def)
  ultimately show ?thesis
    using length_enc_SuperBlock [OF assms] by (simp add: meta_def meta_size_def sizeof_SuperBlock_def)
qed

lemma body_pos_le: "b \<le> c \<Longrightarrow> body_pos sb b \<le> body_pos sb c"
  by (simp add: body_pos_def)

lemma body_pos_next: "b < c \<Longrightarrow> body_pos sb b + unat (block_size sb) \<le> body_pos sb c"
proof -
  assume "b < c"
  then have "unat (block_size sb) * Suc b \<le> unat (block_size sb) * c" by (intro mult_le_mono2) simp
  then show ?thesis by (simp add: body_pos_def)
qed

lemma meta_size_le: "meta_size sb \<le> body_pos sb b"
  by (simp add: body_pos_def)

text \<open>The offsets of the code, as numbers: none of them wraps around.\<close>

lemma of_nat_u32: "k < 4294967296 \<Longrightarrow> unat (of_nat k :: u32) = k"
  by (simp add: unat_of_nat)

lemma inode_offset:
  assumes "sb_ok (sblock fs)" and "i \<le> length (inode_map (sblock fs))"
  shows "unat (minifs_inode_offset fs (of_nat i)) = 40 + 16 * i"
proof -
  have "40 + 16 * i \<le> meta_size (sblock fs)" using assms(2) by (simp add: meta_size_def)
  also have "\<dots> \<le> body_pos (sblock fs) (length (block_map (sblock fs)))" by (rule meta_size_le)
  finally have "unat (of_nat (40 + 16 * i) :: u32) = 40 + 16 * i"
    using sb_okD(4) [OF assms(1)] by (intro of_nat_u32) simp
  then show ?thesis
    by (simp add: minifs_inode_offset_def sizeof_SuperBlock_def sizeof_Inode_def mult.commute)
qed

lemma head_offset:
  assumes "sb_ok (sblock fs)" and "i \<le> length (block_map (sblock fs))"
  shows "unat (minifs_block_head_offset fs (of_nat i)) = 40 + 16 * length (inode_map (sblock fs)) + 12 * i"
proof -
  let ?n = "40 + 16 * length (inode_map (sblock fs)) + 12 * i"
  have "?n \<le> meta_size (sblock fs)" using assms(2) by (simp add: meta_size_def)
  also have "\<dots> \<le> body_pos (sblock fs) (length (block_map (sblock fs)))" by (rule meta_size_le)
  finally have "unat (of_nat ?n :: u32) = ?n"
    using sb_okD(4) [OF assms(1)] by (intro of_nat_u32) simp
  then show ?thesis
    using sb_okD(1) [OF assms(1)]
    by (simp add: minifs_block_head_offset_def sizeof_SuperBlock_def sizeof_Inode_def sizeof_Block_def mult.commute)
qed

lemma body_offset:
  assumes "sb_ok (sblock fs)" and "i \<le> length (block_map (sblock fs))"
  shows "unat (minifs_block_body_offset fs (of_nat i)) = body_pos (sblock fs) i"
proof -
  have "body_pos (sblock fs) i \<le> body_pos (sblock fs) (length (block_map (sblock fs)))"
    using assms(2) by (rule body_pos_le)
  then have "unat (of_nat (body_pos (sblock fs) i) :: u32) = body_pos (sblock fs) i"
    using sb_okD(4) [OF assms(1)] by (intro of_nat_u32) simp
  then show ?thesis
    using sb_okD(1,2) [OF assms(1)]
    by (simp add: minifs_block_body_offset_def body_pos_def meta_size_def sizeof_SuperBlock_def
        sizeof_Inode_def sizeof_Block_def mult.commute)
qed


section \<open>Writing the tables\<close>

lemma pwrite_at_0: "pwrite (length xs) ys (pwrite 0 xs d) = pwrite 0 (xs @ ys) d"
  using pwrite_append [of xs 0 d ys] by simp

lemma write_inodes_run:
  assumes "sb_ok (sblock fs)" and "inode_map (sblock fs) = is @ js"
    and "length pre = 40 + 16 * length is"
  shows "write_inodes [length is..<length (inode_map (sblock fs))] (fs\<lparr>fd := pwrite 0 pre d\<rparr>) =
    Inr (fs\<lparr>fd := pwrite 0 (pre @ concat (map enc_Inode js)) d\<rparr>)"
  using assms(2,3)
proof (induction js arbitrary: "is" pre)
  case Nil
  then show ?case by simp
next
  case (Cons j js)
  let ?fs = "fs\<lparr>fd := pwrite 0 pre d\<rparr>"
  have up: "[length is..<length (inode_map (sblock fs))] =
      length is # [length (is @ [j])..<length (inode_map (sblock fs))]"
    using Cons.prems(1) upt_conv_Cons [of "length is" "length (inode_map (sblock fs))"] by simp
  have g: "get_inode ?fs (int (length is)) = Inr j"
    using Cons.prems(1) by (simp add: get_inode_def)
  have off: "unat (minifs_inode_offset ?fs (of_nat (length is))) = length pre"
    using inode_offset [of ?fs "length is"] assms(1) Cons.prems by simp
  have w: "minifs_write_block (pwrite 0 pre d) (enc_Inode j) (of_nat sizeof_Inode)
      (minifs_inode_offset ?fs (of_nat (length is))) = Inr (pwrite 0 (pre @ enc_Inode j) d)"
    using off by (simp add: minifs_write_block_eq sizeof_Inode_def pwrite_at_0)
  have "write_inodes [length (is @ [j])..<length (inode_map (sblock fs))]
      (fs\<lparr>fd := pwrite 0 (pre @ enc_Inode j) d\<rparr>) =
      Inr (fs\<lparr>fd := pwrite 0 ((pre @ enc_Inode j) @ concat (map enc_Inode js)) d\<rparr>)"
    using Cons.prems by (intro Cons.IH) (simp_all add: sizeof_Inode_def)
  with up g w show ?case by simp
qed

lemma write_blocks_run:
  assumes "sb_ok (sblock fs)" and "block_map (sblock fs) = bs @ cs"
    and "length pre = 40 + 16 * length (inode_map (sblock fs)) + 12 * length bs"
  shows "write_blocks [length bs..<length (block_map (sblock fs))] (fs\<lparr>fd := pwrite 0 pre d\<rparr>) =
    Inr (fs\<lparr>fd := pwrite 0 (pre @ concat (map enc_Block cs)) d\<rparr>)"
  using assms(2,3)
proof (induction cs arbitrary: bs pre)
  case Nil
  then show ?case by simp
next
  case (Cons c cs)
  let ?fs = "fs\<lparr>fd := pwrite 0 pre d\<rparr>"
  have up: "[length bs..<length (block_map (sblock fs))] =
      length bs # [length (bs @ [c])..<length (block_map (sblock fs))]"
    using Cons.prems(1) upt_conv_Cons [of "length bs" "length (block_map (sblock fs))"] by simp
  have g: "get_block ?fs (int (length bs)) = Inr c"
    using Cons.prems(1) by (simp add: get_block_def)
  have off: "unat (minifs_block_head_offset ?fs (of_nat (length bs))) = length pre"
    using head_offset [of ?fs "length bs"] assms(1) Cons.prems by simp
  have w: "minifs_write_block (pwrite 0 pre d) (enc_Block c) (of_nat sizeof_Block)
      (minifs_block_head_offset ?fs (of_nat (length bs))) = Inr (pwrite 0 (pre @ enc_Block c) d)"
    using off by (simp add: minifs_write_block_eq sizeof_Block_def pwrite_at_0)
  have "write_blocks [length (bs @ [c])..<length (block_map (sblock fs))]
      (fs\<lparr>fd := pwrite 0 (pre @ enc_Block c) d\<rparr>) =
      Inr (fs\<lparr>fd := pwrite 0 ((pre @ enc_Block c) @ concat (map enc_Block cs)) d\<rparr>)"
    using Cons.prems by (intro Cons.IH) (simp_all add: sizeof_Block_def)
  with up g w show ?case by simp
qed

text \<open>The update is one write of the tables at the start of the file, and nothing else.\<close>

lemma update_superblock_eq:
  assumes "sb_ok (sblock fs)"
  shows "minifs_update_superblock fs = Inr (fs\<lparr>fd := pwrite 0 (meta (sblock fs)) (fd fs)\<rparr>)"
proof -
  let ?sb = "sblock fs" and ?e = "enc_SuperBlock (sblock fs)"
  have le: "length ?e = 40" using length_enc_SuperBlock sb_okD(3) [OF assms] by (simp add: sizeof_SuperBlock_def)
  have w: "minifs_write_block (fd fs) ?e (of_nat sizeof_SuperBlock) 0 = Inr (pwrite 0 ?e (fd fs))"
    using le by (simp add: minifs_write_block_eq sizeof_SuperBlock_def)
  have i: "write_inodes [0..<length (inode_map ?sb)] (fs\<lparr>fd := pwrite 0 ?e (fd fs)\<rparr>) =
      Inr (fs\<lparr>fd := pwrite 0 (?e @ concat (map enc_Inode (inode_map ?sb))) (fd fs)\<rparr>)"
    using write_inodes_run [OF assms, of "[]" "inode_map ?sb" ?e "fd fs"] le by simp
  have "length (concat (map enc_Inode (inode_map ?sb))) = length (inode_map ?sb) * 16"
    by (rule length_concat_same) (simp add: sizeof_Inode_def)
  then have b: "write_blocks [0..<length (block_map ?sb)]
      (fs\<lparr>fd := pwrite 0 (?e @ concat (map enc_Inode (inode_map ?sb))) (fd fs)\<rparr>) =
      Inr (fs\<lparr>fd := pwrite 0 (meta ?sb) (fd fs)\<rparr>)"
    using write_blocks_run [OF assms, of "[]" "block_map ?sb"
        "?e @ concat (map enc_Inode (inode_map ?sb))" "fd fs"] le
    by (simp add: meta_def)
  show ?thesis
    using w i b sb_okD(1,2) [OF assms] by (simp add: minifs_update_superblock_def)
qed


section \<open>Reading them back\<close>

text \<open>The tables of \<open>sb\<close> are on the disk.\<close>

definition stored :: "SuperBlock \<Rightarrow> disk \<Rightarrow> bool" where
  "stored sb d \<longleftrightarrow> meta_size sb \<le> length d \<and> pread 0 (meta_size sb) d = meta sb"

lemma stored_pwrite: "length (sb_repr sb) = 20 \<Longrightarrow> stored sb (pwrite 0 (meta sb) d)"
proof -
  assume "length (sb_repr sb) = 20"
  then have len: "length (meta sb) = meta_size sb" by (rule length_meta)
  then have "meta sb \<noteq> []" by (auto simp: meta_size_def)
  with len show ?thesis
    using pread_pwrite_same [of 0 "meta sb" d] by (simp add: stored_def length_pwrite)
qed

text \<open>
  What \<open>minifs_open\<close> makes of them: the same superblock, with the pointers of this run, and the
  root as current directory.
\<close>

definition opened :: "char list \<Rightarrow> SuperBlock \<Rightarrow> disk \<Rightarrow> Filesystem" where
  "opened ptrs sb d = \<lparr>sblock = sb\<lparr>sb_repr := take 4 (sb_repr sb) @ ptrs\<rparr>, current_dir = 0, fd = d\<rparr>"

lemma pread_middle: "pread 0 n d = xs @ ys @ zs \<Longrightarrow> pread (length xs) (length ys) d = ys"
proof -
  assume e: "pread 0 n d = xs @ ys @ zs"
  then have "drop (length xs) (take n d) = ys @ zs" by (simp add: pread_def)
  then have "take (n - length xs) (drop (length xs) d) = ys @ zs" by (simp add: drop_take)
  then have "take (length ys) (take (n - length xs) (drop (length xs) d)) = ys" by simp
  moreover have "length ys \<le> n - length xs"
  proof -
    have "length (xs @ ys @ zs) \<le> n" using e by (metis pread_def length_take min.cobounded2)
    then show ?thesis by simp
  qed
  ultimately show ?thesis by (simp add: pread_def min.absorb1)
qed

lemma open_stored:
  assumes "sb_ok sb" and "stored sb d"
  shows "minifs_open True ptrs (Some d) = Inr (opened ptrs sb d)"
proof -
  let ?e = "enc_SuperBlock sb" and ?i = "concat (map enc_Inode (inode_map sb))"
  let ?b = "concat (map enc_Block (block_map sb))"
  let ?ni = "length (inode_map sb)" and ?nb = "length (block_map sb)"
  have m: "pread 0 (meta_size sb) d = ?e @ ?i @ ?b" and len: "meta_size sb \<le> length d"
    using assms(2) by (simp_all add: stored_def meta_def)
  have le: "length ?e = 40" using length_enc_SuperBlock sb_okD(3) [OF assms(1)] by (simp add: sizeof_SuperBlock_def)
  have li: "length ?i = ?ni * 16" by (rule length_concat_same) (simp add: sizeof_Inode_def)
  have lb: "length ?b = ?nb * 12" by (rule length_concat_same) (simp add: sizeof_Block_def)
  have bound: "meta_size sb < 4294967296"
    using sb_okD(4) [OF assms(1)] meta_size_le [of sb ?nb] by simp
  have r1: "minifs_read_block d (of_nat sizeof_SuperBlock) 0 = Inr ?e"
    using pread_middle [of "meta_size sb" d "[]" ?e] m le len
    by (simp add: minifs_read_block_eq sizeof_SuperBlock_def meta_size_def)
  have u2: "unat (inode_count sb * of_nat sizeof_Inode) = ?ni * 16"
    using of_nat_u32 [of "?ni * 16"] bound sb_okD(5) [OF assms(1)]
    by (simp add: meta_size_def sizeof_Inode_def)
  have r2: "minifs_read_block d (inode_count sb * of_nat sizeof_Inode) (of_nat sizeof_SuperBlock) = Inr ?i"
    using pread_middle [OF m] le li u2 len
    by (simp add: minifs_read_block_eq sizeof_SuperBlock_def meta_size_def)
  have u3: "unat (block_count sb * of_nat sizeof_Block) = ?nb * 12"
    using of_nat_u32 [of "?nb * 12"] bound sb_okD(6) [OF assms(1)]
    by (simp add: meta_size_def sizeof_Block_def)
  have u4: "unat (of_nat sizeof_SuperBlock + inode_count sb * of_nat sizeof_Inode) = 40 + ?ni * 16"
    using of_nat_u32 [of "40 + ?ni * 16"] bound sb_okD(5) [OF assms(1)]
    by (simp add: meta_size_def sizeof_Inode_def sizeof_SuperBlock_def)
  have "pread 0 (meta_size sb) d = (?e @ ?i) @ ?b @ []" using m by simp
  then have r3: "minifs_read_block d (block_count sb * of_nat sizeof_Block)
      (of_nat sizeof_SuperBlock + inode_count sb * of_nat sizeof_Inode) = Inr ?b"
    using pread_middle [of "meta_size sb" d "?e @ ?i" ?b "[]"] le li lb u3 u4 len
    by (simp add: minifs_read_block_eq meta_size_def)
  have ti: "dec_table dec_Inode sizeof_Inode ?ni ?i = inode_map sb"
    using dec_table_map [of "inode_map sb" enc_Inode sizeof_Inode dec_Inode "[]"] assms(1)
    by (simp add: sb_ok_def)
  have tb: "dec_table dec_Block sizeof_Block ?nb ?b = block_map sb"
    using dec_table_map [of "block_map sb" enc_Block sizeof_Block dec_Block "[]"] assms(1)
    by (simp add: sb_ok_def)
  show ?thesis
    using r1 r2 r3 ti tb li lb sb_okD(1,2) [OF assms(1)]
    by (simp add: minifs_open_def Let_def dec_enc_SuperBlock opened_def sizeof_Inode_def sizeof_Block_def)
qed


section \<open>A new file system\<close>

definition init_maps :: "char list \<Rightarrow> SuperBlock" where
  "init_maps pad = (init_sblock pad)\<lparr>inode_map := init_inodes, block_map := init_blocks\<rparr>"

lemma init_maps_ok: "length pad = 4 \<Longrightarrow> sb_ok (init_maps pad)"
  by (auto simp: sb_ok_def init_maps_def init_sblock_def init_inodes_def init_blocks_def
      DEFAULT_INODE_COUNT_def DEFAULT_BLOCK_COUNT_def DEFAULT_BLOCK_SIZE_def body_pos_def meta_size_def
      inode_ok_def block_ok_def int32_def zero_Inode_def zero_Block_def
      dest!: set_update_subset_insert [THEN subsetD])

lemma init_eq:
  assumes "length pad = 4"
  shows "minifs_init True pad file = Inr (pwrite 0 (meta (init_maps pad)) (case file of None \<Rightarrow> [] | Some d \<Rightarrow> d))"
proof -
  let ?d = "case file of None \<Rightarrow> [] | Some d \<Rightarrow> d" and ?e = "enc_SuperBlock (init_sblock pad)"
  let ?i = "concat (map enc_Inode init_inodes)" and ?b = "concat (map enc_Block init_blocks)"
  have le: "length ?e = 40"
    using assms length_enc_SuperBlock by (simp add: init_sblock_def sizeof_SuperBlock_def)
  have "length ?i = length init_inodes * 16" by (rule length_concat_same) (simp add: sizeof_Inode_def)
  then have li: "length ?i = 16384" by (simp add: init_inodes_def DEFAULT_INODE_COUNT_def)
  have "length ?b = length init_blocks * 12" by (rule length_concat_same) (simp add: sizeof_Block_def)
  then have lb: "length ?b = 12288" by (simp add: init_blocks_def DEFAULT_BLOCK_COUNT_def)
  have w1: "minifs_write_block ?d ?e (of_nat sizeof_SuperBlock) 0 = Inr (pwrite 0 ?e ?d)"
    using le by (simp add: minifs_write_block_eq sizeof_SuperBlock_def)
  have w2: "minifs_write_block (pwrite 0 ?e ?d) ?i (DEFAULT_INODE_COUNT * of_nat sizeof_Inode)
      (of_nat sizeof_SuperBlock) = Inr (pwrite 0 (?e @ ?i) ?d)"
    using pwrite_at_0 [of ?e ?i ?d] le li
    by (simp add: minifs_write_block_eq sizeof_SuperBlock_def sizeof_Inode_def DEFAULT_INODE_COUNT_def)
  have w3: "minifs_write_block (pwrite 0 (?e @ ?i) ?d) ?b (DEFAULT_BLOCK_SIZE * of_nat sizeof_Block)
      (of_nat sizeof_SuperBlock + DEFAULT_INODE_COUNT * of_nat sizeof_Inode) = Inr (pwrite 0 ((?e @ ?i) @ ?b) ?d)"
    using pwrite_at_0 [of "?e @ ?i" ?b ?d] le li lb
    by (simp add: minifs_write_block_eq sizeof_SuperBlock_def sizeof_Inode_def sizeof_Block_def
        DEFAULT_INODE_COUNT_def DEFAULT_BLOCK_SIZE_def)
  have "?e = enc_SuperBlock (init_maps pad)" by (simp add: enc_SuperBlock_def init_maps_def)
  then have "meta (init_maps pad) = (?e @ ?i) @ ?b" by (simp add: meta_def init_maps_def)
  with w1 w2 w3 show ?thesis by (simp add: minifs_init_def Let_def)
qed

end
