(* ===== verification/Fs_Chain.thy ===== *)
theory Fs_Chain
  imports Fs_Persist
begin

text \<open>
  Chains of blocks and what the writes of a file system leave alone: the vocabulary in which
  \<open>minifs_append_data\<close> and the reading functions are specified.
\<close>


section \<open>Chains and their content\<close>

abbreviation bm :: "Filesystem \<Rightarrow> Block list" where
  "bm fs \<equiv> block_map (sblock fs)"

abbreviation im :: "Filesystem \<Rightarrow> Inode list" where
  "im fs \<equiv> inode_map (sblock fs)"

abbreviation bsz :: "Filesystem \<Rightarrow> nat" where
  "bsz fs \<equiv> unat (block_size (sblock fs))"

abbreviation pos :: "Filesystem \<Rightarrow> nat \<Rightarrow> nat" where
  "pos fs \<equiv> body_pos (sblock fs)"

text \<open>\<open>chain m i xs\<close>: following \<open>next_block\<close> from index \<open>i\<close> visits the blocks \<open>xs\<close> and ends.\<close>

fun chain :: "Block list \<Rightarrow> int \<Rightarrow> nat list \<Rightarrow> bool" where
  "chain m i [] = (i < 0)"
| "chain m i (b # bs) = (i = int b \<and> b < length m \<and> chain m (next_block (m ! b)) bs)"

definition body :: "Filesystem \<Rightarrow> nat \<Rightarrow> char list" where
  "body fs b = pread (pos fs b) (unat (b_size (bm fs ! b))) (fd fs)"

definition content :: "Filesystem \<Rightarrow> nat list \<Rightarrow> char list" where
  "content fs xs = concat (map (body fs) xs)"

text \<open>
  A block in use: its size is within the block size and its bytes, if it has any, are in the
  file (a block that was taken and not yet written may lie behind the end of the file).
\<close>

definition block_in :: "Filesystem \<Rightarrow> nat \<Rightarrow> bool" where
  "block_in fs b \<longleftrightarrow> b < length (bm fs) \<and> b_type (bm fs ! b) = MINIFS_BLOCK_USED \<and>
     unat (b_size (bm fs ! b)) \<le> bsz fs \<and>
     (b_size (bm fs ! b) = 0 \<or> pos fs b + unat (b_size (bm fs ! b)) \<le> length (fd fs))"

definition full :: "Filesystem \<Rightarrow> nat list \<Rightarrow> bool" where
  "full fs xs \<longleftrightarrow> (\<forall>b\<in>set (butlast xs). unat (b_size (bm fs ! b)) = bsz fs)"

lemma chain_bound: "chain m i xs \<Longrightarrow> set xs \<subseteq> {..<length m}"
  by (induction m i xs rule: chain.induct) auto

lemma chain_cong:
  "chain m i xs \<Longrightarrow> length m' = length m \<Longrightarrow> (\<And>b. b \<in> set xs \<Longrightarrow> next_block (m' ! b) = next_block (m ! b))
    \<Longrightarrow> chain m' i xs"
  by (induction m i xs rule: chain.induct) auto

text \<open>The end of a chain is redirected: the chain goes on with the new blocks.\<close>

lemma chain_extend:
  "chain m i xs \<Longrightarrow> xs \<noteq> [] \<Longrightarrow> distinct xs \<Longrightarrow> length m' = length m \<Longrightarrow>
    (\<And>b. b \<in> set (butlast xs) \<Longrightarrow> next_block (m' ! b) = next_block (m ! b)) \<Longrightarrow>
    chain m' (next_block (m' ! last xs)) ys \<Longrightarrow> chain m' i (xs @ ys)"
proof (induction m i xs rule: chain.induct)
  case (1 m i)
  then show ?case by simp
next
  case (2 m i b bs)
  show ?case
  proof (cases "bs = []")
    case True
    with 2 show ?thesis by simp
  next
    case False
    then have "b \<in> set (butlast (b # bs))" by simp
    then have nb: "next_block (m' ! b) = next_block (m ! b)" by (rule 2(6))
    have "\<And>c. c \<in> set (butlast bs) \<Longrightarrow> next_block (m' ! c) = next_block (m ! c)"
      using False 2(6) by simp
    then have "chain m' (next_block (m ! b)) (bs @ ys)"
      using 2 False by auto
    with nb 2 show ?thesis by auto
  qed
qed

lemma content_Nil [simp]: "content fs [] = []"
  by (simp add: content_def)

lemma content_Cons: "content fs (x # xs) = body fs x @ content fs xs"
  by (simp add: content_def)

lemma content_append: "content fs (xs @ ys) = content fs xs @ content fs ys"
  by (simp add: content_def)

lemma length_body: "block_in fs b \<Longrightarrow> length (body fs b) = unat (b_size (bm fs ! b))"
  by (cases "b_size (bm fs ! b) = 0") (simp_all add: block_in_def body_def length_pread)


section \<open>Regions of the file\<close>

text \<open>The part of the body of a block from offset \<open>k\<close> on.\<close>

definition region :: "SuperBlock \<Rightarrow> nat \<Rightarrow> nat \<Rightarrow> nat set" where
  "region sb b k = {body_pos sb b + k..<body_pos sb (Suc b)}"

definition bodies :: "SuperBlock \<Rightarrow> nat set \<Rightarrow> nat set" where
  "bodies sb B = (\<Union>b\<in>B. region sb b 0)"

text \<open>A file has grown, and outside \<open>P\<close> the bytes are as before.\<close>

definition same_but :: "nat set \<Rightarrow> disk \<Rightarrow> disk \<Rightarrow> bool" where
  "same_but P d d' \<longleftrightarrow> length d \<le> length d' \<and> (\<forall>p<length d. p \<notin> P \<longrightarrow> d' ! p = d ! p)"

lemma same_but_refl [simp]: "same_but P d d"
  by (simp add: same_but_def)

lemma same_but_trans: "same_but P d d' \<Longrightarrow> same_but Q d' d'' \<Longrightarrow> P \<union> Q \<subseteq> R \<Longrightarrow> same_but R d d''"
  unfolding same_but_def by (metis Un_iff in_mono le_trans less_le_trans)

lemma same_but_mono: "same_but P d d' \<Longrightarrow> P \<subseteq> R \<Longrightarrow> same_but R d d'"
  by (auto simp: same_but_def)

lemma same_but_pwrite:
  "{at..<at + length xs} \<subseteq> P \<Longrightarrow> same_but P d (pwrite at xs d)"
proof -
  assume P: "{at..<at + length xs} \<subseteq> P"
  have "pwrite at xs d ! p = d ! p" if "p < length d" "p \<notin> P" for p
  proof (rule nth_pwrite_old [OF that(1)])
    from that(2) P have "p \<notin> {at..<at + length xs}" by blast
    then show "p < at \<or> at + length xs \<le> p" by auto
  qed
  then show ?thesis by (simp add: same_but_def length_pwrite_ge)
qed

lemma pread_same_but:
  assumes "same_but P d d'" and "at + n \<le> length d" and "{at..<at + n} \<inter> P = {}"
  shows "pread at n d' = pread at n d"
proof (rule pread_eqI)
  show "at + n \<le> length d'" "at + n \<le> length d" using assms by (auto simp: same_but_def)
  fix p
  assume "at \<le> p" "p < at + n"
  with assms show "d' ! p = d ! p" by (auto simp: same_but_def disjoint_iff)
qed

lemma body_pos_Suc: "body_pos sb (Suc b) = body_pos sb b + unat (block_size sb)"
  by (simp add: body_pos_def)

lemma region_disjoint: "b \<noteq> c \<Longrightarrow> region sb b j \<inter> region sb c k = {}"
proof -
  assume "b \<noteq> c"
  then consider "Suc b \<le> c" | "Suc c \<le> b" by linarith
  then show ?thesis
    using body_pos_le [of "Suc b" c sb] body_pos_le [of "Suc c" b sb]
    by cases (auto simp: region_def disjoint_iff)
qed

lemma region_subset: "region sb b k \<subseteq> region sb b 0"
  by (auto simp: region_def)

lemma bodies_insert: "bodies sb (insert b B) = region sb b 0 \<union> bodies sb B"
  by (auto simp: bodies_def)

lemma bodies_empty [simp]: "bodies sb {} = {}"
  by (simp add: bodies_def)

lemma bodies_disjoint: "b \<notin> B \<Longrightarrow> region sb b k \<inter> bodies sb B = {}"
proof -
  assume "b \<notin> B"
  then have "region sb b k \<inter> region sb c 0 = {}" if "c \<in> B" for c
    using that by (intro region_disjoint) auto
  then show ?thesis unfolding bodies_def by blast
qed

text \<open>The recorded bytes of a block lie in its region, the tables in none.\<close>

lemma body_range:
  "n \<le> unat (block_size sb) \<Longrightarrow> {body_pos sb b..<body_pos sb b + n} \<subseteq> region sb b 0"
  by (auto simp: region_def body_pos_Suc)

lemma meta_bodies: "{0..<meta_size sb} \<inter> bodies sb B = {}"
proof -
  have "p \<notin> region sb b 0" if "p < meta_size sb" for p b
    using that meta_size_le [of sb b] by (simp add: region_def)
  then show ?thesis by (auto simp: bodies_def)
qed


section \<open>What an operation on blocks keeps\<close>

text \<open>
  \<open>frame fs fs' B P\<close>: only the count of used blocks, the entries \<open>B\<close> of the block table and
  the bytes \<open>P\<close> of the file may differ.
\<close>

definition frame :: "Filesystem \<Rightarrow> Filesystem \<Rightarrow> nat set \<Rightarrow> nat set \<Rightarrow> bool" where
  "frame fs fs' B P \<longleftrightarrow>
     (\<exists>n m d. fs' = fs\<lparr>sblock := (sblock fs)\<lparr>used_block_count := n, block_map := m\<rparr>, fd := d\<rparr> \<and>
       length m = length (bm fs) \<and> (\<forall>b<length m. b \<notin> B \<longrightarrow> m ! b = bm fs ! b) \<and> same_but P (fd fs) d)"

lemma body_pos_cong:
  "length (inode_map sb') = length (inode_map sb) \<Longrightarrow> length (block_map sb') = length (block_map sb) \<Longrightarrow>
    block_size sb' = block_size sb \<Longrightarrow> body_pos sb' = body_pos sb \<and> meta_size sb' = meta_size sb"
  by (simp add: body_pos_def meta_size_def fun_eq_iff)

lemma frame_simps:
  assumes "frame fs fs' B P"
  shows "im fs' = im fs" and "current_dir fs' = current_dir fs" and "bsz fs' = bsz fs"
    and "block_size (sblock fs') = block_size (sblock fs)" and "length (bm fs') = length (bm fs)"
    and "pos fs' = pos fs" and "meta_size (sblock fs') = meta_size (sblock fs)"
    and "region (sblock fs') = region (sblock fs)"
    and "inode_count (sblock fs') = inode_count (sblock fs)"
    and "used_inode_count (sblock fs') = used_inode_count (sblock fs)"
    and "block_count (sblock fs') = block_count (sblock fs)"
    and "sb_repr (sblock fs') = sb_repr (sblock fs)"
proof -
  from assms obtain n m d where f: "fs' = fs\<lparr>sblock := (sblock fs)\<lparr>used_block_count := n, block_map := m\<rparr>, fd := d\<rparr>"
      "length m = length (bm fs)" by (auto simp: frame_def)
  then show "im fs' = im fs" "current_dir fs' = current_dir fs" "bsz fs' = bsz fs"
    "block_size (sblock fs') = block_size (sblock fs)" "length (bm fs') = length (bm fs)"
    "inode_count (sblock fs') = inode_count (sblock fs)" "block_count (sblock fs') = block_count (sblock fs)"
    "used_inode_count (sblock fs') = used_inode_count (sblock fs)" "sb_repr (sblock fs') = sb_repr (sblock fs)"
    by simp_all
  then have "body_pos (sblock fs') = body_pos (sblock fs) \<and> meta_size (sblock fs') = meta_size (sblock fs)"
    by (intro body_pos_cong) simp_all
  then show "pos fs' = pos fs" "meta_size (sblock fs') = meta_size (sblock fs)"
    "region (sblock fs') = region (sblock fs)"
    by (simp_all add: region_def fun_eq_iff)
qed

lemma frame_block: "frame fs fs' B P \<Longrightarrow> b < length (bm fs) \<Longrightarrow> b \<notin> B \<Longrightarrow> bm fs' ! b = bm fs ! b"
  by (auto simp: frame_def)

lemma frame_disk: "frame fs fs' B P \<Longrightarrow> same_but P (fd fs) (fd fs')"
  by (auto simp: frame_def)

lemma frame_trans:
  assumes "frame fs fs1 B P" and "frame fs1 fs2 C Q" and "B \<union> C \<subseteq> E" and "P \<union> Q \<subseteq> R"
  shows "frame fs fs2 E R"
proof -
  from assms(1) obtain n m d where 1: "fs1 = fs\<lparr>sblock := (sblock fs)\<lparr>used_block_count := n, block_map := m\<rparr>, fd := d\<rparr>"
      "length m = length (bm fs)" "\<forall>b<length m. b \<notin> B \<longrightarrow> m ! b = bm fs ! b" "same_but P (fd fs) d"
    by (auto simp: frame_def)
  from assms(2) obtain n2 m2 d2 where 2: "fs2 = fs1\<lparr>sblock := (sblock fs1)\<lparr>used_block_count := n2, block_map := m2\<rparr>, fd := d2\<rparr>"
      "length m2 = length (bm fs1)" "\<forall>b<length m2. b \<notin> C \<longrightarrow> m2 ! b = bm fs1 ! b" "same_but Q (fd fs1) d2"
    by (auto simp: frame_def)
  have "same_but R (fd fs) d2" using 1 2 assms(4) by (auto intro: same_but_trans)
  moreover have "m2 ! b = bm fs ! b" if "b < length m2" "b \<notin> E" for b
  proof -
    have "b \<notin> B" "b \<notin> C" using that(2) assms(3) by auto
    with that(1) 1 2 show ?thesis by simp
  qed
  ultimately show ?thesis
    unfolding frame_def
    by (intro exI [of _ n2] exI [of _ m2] exI [of _ d2]) (use 1 2 in simp)
qed

text \<open>A block outside of both sets keeps its entry and its bytes.\<close>

lemma frame_body:
  assumes "frame fs fs' B P" and "block_in fs b" and "b \<notin> B"
    and "{pos fs b..<pos fs b + unat (b_size (bm fs ! b))} \<inter> P = {}"
  shows "body fs' b = body fs b" and "block_in fs' b"
proof -
  note f = frame_simps [OF assms(1)]
  have b: "b < length (bm fs)" "b_size (bm fs ! b) = 0 \<or> pos fs b + unat (b_size (bm fs ! b)) \<le> length (fd fs)"
    using assms(2) by (auto simp: block_in_def)
  have e: "bm fs' ! b = bm fs ! b" using frame_block [OF assms(1) b(1) assms(3)] .
  show "body fs' b = body fs b"
  proof (cases "b_size (bm fs ! b) = 0")
    case True
    then show ?thesis by (simp add: body_def e)
  next
    case False
    with b(2) pread_same_but [OF frame_disk [OF assms(1)] _ assms(4)] show ?thesis by (simp add: body_def e f)
  qed
  have "length (fd fs) \<le> length (fd fs')" using frame_disk [OF assms(1)] by (simp add: same_but_def)
  with assms(2) show "block_in fs' b" by (auto simp: block_in_def e f)
qed

text \<open>The part of the invariant that is about the blocks alone.\<close>

definition blocks_ok :: "Filesystem \<Rightarrow> bool" where
  "blocks_ok fs \<longleftrightarrow>
     sb_ok (sblock fs) \<and> 0 < bsz fs \<and> meta_size (sblock fs) \<le> length (fd fs) \<and>
     (\<forall>b\<in>set (bm fs). b_type b = MINIFS_BLOCK_EMPTY \<or> b_type b = MINIFS_BLOCK_USED) \<and>
     Suc (unat (used_block_count (sblock fs))) + free_blocks fs = length (bm fs)"

definition empty_set :: "Filesystem \<Rightarrow> nat set" where
  "empty_set fs = {b. b < length (bm fs) \<and> b_type (bm fs ! b) = MINIFS_BLOCK_EMPTY}"

lemma blocks_few: "sb_ok sb \<Longrightarrow> length (block_map sb) < 2147483648"
  using sb_okD(4) [of sb] by (simp add: body_pos_def meta_size_def)

lemma inodes_few: "sb_ok sb \<Longrightarrow> length (inode_map sb) < 2147483648"
  using sb_okD(4) [of sb] by (simp add: body_pos_def meta_size_def)

text \<open>The search for a free block is complete.\<close>

lemma find_free_block_ok:
  assumes "blocks_ok fs"
  shows "if free_blocks fs = 0 then minifs_find_free_block fs = -1
    else \<exists>y. minifs_find_free_block fs = int y \<and> y \<in> empty_set fs"
proof -
  have ok: "sb_ok (sblock fs)" and cnt: "Suc (unat (used_block_count (sblock fs))) + free_blocks fs = length (bm fs)"
    using assms by (auto simp: blocks_ok_def)
  have bc: "unat (block_count (sblock fs)) = length (bm fs)" using sb_okD(2) [OF ok] by simp
  have lt: "\<not> block_count (sblock fs) \<le> used_block_count (sblock fs)"
    using cnt bc by (simp add: word_le_nat_alt)
  let ?f = "find_first (\<lambda>b. b_type b = MINIFS_BLOCK_EMPTY) (bm fs)"
  have eq: "minifs_find_free_block fs = (case ?f of Some i \<Rightarrow> sint (of_nat i :: u32) | None \<Rightarrow> -1)"
    using lt bc by (simp add: minifs_find_free_block_def Let_def)
  show ?thesis
  proof (cases ?f)
    case None
    then have "free_blocks fs = 0" unfolding free_blocks_def by (simp add: find_first_None_iff)
    with eq None show ?thesis by simp
  next
    case (Some i)
    then have i: "i \<in> empty_set fs" by (simp add: find_first_Some_iff empty_set_def)
    then have "bm fs ! i \<in> set (filter (\<lambda>b. b_type b = MINIFS_BLOCK_EMPTY) (bm fs))"
      by (simp add: empty_set_def)
    then have "free_blocks fs \<noteq> 0" unfolding free_blocks_def by (metis length_0_conv list.set(1) empty_iff)
    moreover have "sint (of_nat i :: u32) = int i"
      using i blocks_few [OF ok] by (simp add: sint_of_nat_u32 empty_set_def)
    ultimately show ?thesis using eq Some i by simp
  qed
qed

end
