(* ===== verification/Fs_Append.thy ===== *)
theory Fs_Append
  imports Fs_Chain
begin

text \<open>
  \<open>minifs_append_data\<close>: the data goes behind the content of the chain, every other block and
  every other byte in use stays as it was; when the free blocks do not suffice the process
  ends and the recorded bytes of all blocks are still what they were.
\<close>


section \<open>One turn of the loop over new blocks\<close>

text \<open>The block \<open>y\<close> is linked behind \<open>c\<close> and holds \<open>chunk\<close>.\<close>

definition linked :: "Filesystem \<Rightarrow> nat \<Rightarrow> nat \<Rightarrow> char list \<Rightarrow> Filesystem" where
  "linked fs c y chunk =
     fs\<lparr>sblock := (sblock fs)\<lparr>used_block_count := used_block_count (sblock fs) + 1,
          block_map := (bm fs)[c := (bm fs ! c)\<lparr>next_block := int y\<rparr>,
            y := \<lparr>next_block = -1, b_size = of_nat (length chunk), b_type = MINIFS_BLOCK_USED\<rparr>]\<rparr>,
        fd := pwrite (pos fs y) chunk (fd fs)\<rparr>"

lemma get_block_int: "b < length (bm fs) \<Longrightarrow> get_block fs (int b) = Inr (bm fs ! b)"
  by (simp add: get_block_def)

lemma upd_block_int: "b < length (bm fs) \<Longrightarrow> upd_block fs (int b) f = Inr (put_block fs b (f (bm fs ! b)))"
  by (simp add: upd_block_def get_block_int)

lemma put_block_simps [simp]:
  "fd (put_block fs b x) = fd fs" "sblock (put_block fs b x) = (sblock fs)\<lparr>block_map := (bm fs)[b := x]\<rparr>"
  "current_dir (put_block fs b x) = current_dir fs"
  by (simp_all add: put_block_def)

lemma put_block_fd [simp]: "(put_block fs b x)\<lparr>fd := d\<rparr> = put_block (fs\<lparr>fd := d\<rparr>) b x"
  by (simp add: put_block_def)

lemma link_block_eq:
  assumes "c < length (bm fs)" and "y < length (bm fs)" and "c \<noteq> y"
  shows "link_block fs (int y) (int c) =
    Inr (fs\<lparr>sblock := (sblock fs)\<lparr>used_block_count := used_block_count (sblock fs) + 1,
          block_map := (bm fs)[y := \<lparr>next_block = -1, b_size = 0, b_type = MINIFS_BLOCK_USED\<rparr>,
            c := (bm fs ! c)\<lparr>next_block := int y\<rparr>]\<rparr>\<rparr>)"
  using assms by (simp add: link_block_def upd_block_int put_block_def add_used_blocks_def)

lemma linked_eq:
  assumes "c < length (bm fs)" and "y < length (bm fs)" and "c \<noteq> y" and "fs1 = fs\<lparr>sblock := (sblock fs)\<lparr>used_block_count := used_block_count (sblock fs) + 1,
          block_map := (bm fs)[y := \<lparr>next_block = -1, b_size = 0, b_type = MINIFS_BLOCK_USED\<rparr>,
            c := (bm fs ! c)\<lparr>next_block := int y\<rparr>]\<rparr>\<rparr>"
    and "n = of_nat (length chunk)"
  shows "upd_block (fs1\<lparr>fd := pwrite (pos fs y) chunk (fd fs)\<rparr>) (int y) (\<lambda>b. b\<lparr>b_size := n\<rparr>) =
    Inr (linked fs c y chunk)"
proof -
  have "(bm fs)[y := x, c := z, y := w] = (bm fs)[c := z, y := w]" for x z w
    using assms(3) by (metis list_update_overwrite list_update_swap)
  with assms show ?thesis by (simp add: upd_block_int put_block_def linked_def)
qed

text \<open>The body of the loop, with the block that the search finds.\<close>

lemma append_blocks_step:
  assumes "sb_ok (sblock fs)" and "c < length (bm fs)" and "y < length (bm fs)" and "c \<noteq> y"
    and f: "minifs_find_free_block fs = int y" and "dat \<noteq> []" and "length dat < 4294967296"
  shows "append_blocks fs (int c) dat (of_nat (length dat)) =
    (if length dat \<le> bsz fs then Inr (linked fs c y dat)
     else append_blocks (linked fs c y (take (bsz fs) dat)) (int y) (drop (bsz fs) dat)
       (of_nat (length (drop (bsz fs) dat))))"
proof -
  let ?n = "of_nat (length dat) :: u32"
  let ?fs1 = "fs\<lparr>sblock := (sblock fs)\<lparr>used_block_count := used_block_count (sblock fs) + 1,
          block_map := (bm fs)[y := \<lparr>next_block = -1, b_size = 0, b_type = MINIFS_BLOCK_USED\<rparr>,
            c := (bm fs ! c)\<lparr>next_block := int y\<rparr>]\<rparr>\<rparr>"
  have un: "unat ?n = length dat" using assms(7) by (simp add: unat_of_nat)
  have pos0: "0 < ?n" using un assms(6) by (simp add: word_less_nat_alt)
  have le: "?n \<le> block_size (sblock fs) \<longleftrightarrow> length dat \<le> bsz fs" using un by (simp add: word_le_nat_alt)
  have off: "unat (minifs_block_body_offset ?fs1 (of_nat y)) = pos fs y"
    using body_offset [OF assms(1), of y] assms(3) by (simp add: minifs_block_body_offset_def)
  have w: "minifs_write_block (fd fs) dat n (minifs_block_body_offset ?fs1 (of_nat y)) =
      Inr (pwrite (pos fs y) (take (unat n) dat) (fd fs))" if "unat n \<le> length dat" for n
    using that off by (simp add: minifs_write_block_eq)
  show ?thesis
  proof (cases "length dat \<le> bsz fs")
    case True
    with un le pos0 f link_block_eq [OF assms(2-4)] w [of ?n] linked_eq [OF assms(2-4) refl refl, of dat]
    show ?thesis by (subst append_blocks.simps) (simp add: Let_def)
  next
    case False
    have l: "block_size (sblock fs) = of_nat (length (take (bsz fs) dat))" using False by simp
    have "of_nat (length (drop (bsz fs) dat)) = ?n - block_size (sblock fs)" using False by (simp add: of_nat_diff)
    with False un le pos0 f link_block_eq [OF assms(2-4)] w [of "block_size (sblock fs)"]
      linked_eq [OF assms(2-4) refl l]
    show ?thesis by (subst append_blocks.simps) (simp add: Let_def)
  qed
qed

lemma linked_frame:
  assumes "length chunk \<le> bsz fs"
  shows "frame fs (linked fs c y chunk) {c, y} (region (sblock fs) y 0)"
proof -
  have "same_but (region (sblock fs) y 0) (fd fs) (pwrite (pos fs y) chunk (fd fs))"
    using body_range [OF assms] by (rule same_but_pwrite)
  then show ?thesis unfolding frame_def linked_def by (intro exI conjI) (rule refl, auto)
qed

lemma linked_blocks:
  assumes "blocks_ok fs" and "c < length (bm fs)" and "b_type (bm fs ! c) = MINIFS_BLOCK_USED"
    and "y \<in> empty_set fs" and "length chunk \<le> bsz fs" and "chunk \<noteq> []"
  defines "fs' \<equiv> linked fs c y chunk"
  shows "bm fs' ! c = (bm fs ! c)\<lparr>next_block := int y\<rparr>"
    and "bm fs' ! y = \<lparr>next_block = -1, b_size = of_nat (length chunk), b_type = MINIFS_BLOCK_USED\<rparr>"
    and "body fs' y = chunk" and "block_in fs' y" and "blocks_ok fs'"
    and "Suc (free_blocks fs') = free_blocks fs" and "empty_set fs' = empty_set fs - {y}"
proof -
  have y: "y < length (bm fs)" "b_type (bm fs ! y) = MINIFS_BLOCK_EMPTY" using assms(4) by (auto simp: empty_set_def)
  have cy: "c \<noteq> y" using y assms(3) by auto
  have un: "unat (of_nat (length chunk) :: u32) = length chunk"
    using assms(5) unat_u32 [of "block_size (sblock fs)"] by (intro of_nat_u32) simp
  note fr = linked_frame [OF assms(5), of c y, folded fs'_def]
  note f = frame_simps [OF fr]
  show c': "bm fs' ! c = (bm fs ! c)\<lparr>next_block := int y\<rparr>"
    using cy assms(2) by (simp add: fs'_def linked_def)
  show y': "bm fs' ! y = \<lparr>next_block = -1, b_size = of_nat (length chunk), b_type = MINIFS_BLOCK_USED\<rparr>"
    using y by (simp add: fs'_def linked_def)
  have d: "fd fs' = pwrite (pos fs y) chunk (fd fs)" by (simp add: fs'_def linked_def)
  show "body fs' y = chunk" using pread_pwrite_same [of "pos fs y" chunk "fd fs"] un by (simp add: body_def y' f d)
  have bok: "sb_ok (sblock fs)" "meta_size (sblock fs) \<le> length (fd fs)"
    using assms(1) by (auto simp: blocks_ok_def)
  have "pos fs y + length chunk \<le> length (fd fs')" using assms(6) by (simp add: d length_pwrite)
  then show "block_in fs' y" using y un assms(5) by (simp add: block_in_def y' f)
  have e: "empty_set fs' = empty_set fs - {y}"
  proof (rule set_eqI)
    fix b
    consider "b = c" | "b = y" | "b \<noteq> c" "b \<noteq> y" by blast
    then show "b \<in> empty_set fs' \<longleftrightarrow> b \<in> empty_set fs - {y}"
    proof cases
      case 3
      then show ?thesis using frame_block [OF fr, of b] f(5) by (auto simp: empty_set_def)
    qed (use c' y' assms(3) cy in \<open>auto simp: empty_set_def\<close>)
  qed
  then show "empty_set fs' = empty_set fs - {y}" .
  have card: "free_blocks g = card (empty_set g)" for g
    by (simp add: free_blocks_def empty_set_def length_filter_conv_card)
  have "finite (empty_set fs)" by (simp add: empty_set_def)
  with e assms(4) show free: "Suc (free_blocks fs') = free_blocks fs"
    by (simp add: card card_Suc_Diff1 del: card_Diff_insert)
  have used: "unat (used_block_count (sblock fs')) = Suc (unat (used_block_count (sblock fs)))"
  proof -
    have "used_block_count (sblock fs') = used_block_count (sblock fs) + of_nat 1" by (simp add: fs'_def linked_def)
    moreover have "unat (used_block_count (sblock fs)) + 1 \<le> unat (block_count (sblock fs))"
      using assms(1) sb_okD(2) [OF bok(1)] by (simp add: blocks_ok_def)
    ultimately show ?thesis using unat_plus_nat [of "used_block_count (sblock fs)" 1 "block_count (sblock fs)"] by simp
  qed
  have sub: "set (bm fs') \<subseteq> insert (bm fs' ! c) (insert (bm fs' ! y) (set (bm fs)))"
  proof
    fix x assume "x \<in> set (bm fs')"
    then obtain b where "b < length (bm fs')" "x = bm fs' ! b" by (auto simp: in_set_conv_nth)
    then show "x \<in> insert (bm fs' ! c) (insert (bm fs' ! y) (set (bm fs)))"
      using frame_block [OF fr, of b] f(5) by (cases "b = c \<or> b = y") auto
  qed
  have "int32 (int y)" using y blocks_few [OF bok(1)] by (simp add: int32_def)
  then have okc: "block_ok (bm fs' ! c)" "block_ok (bm fs' ! y)"
    using c' y' by (simp_all add: block_ok_def int32_def)
  have "sb_ok (sblock fs')"
    using bok(1) sub okc f unfolding sb_ok_def by (auto simp: f)
  moreover have "meta_size (sblock fs') \<le> length (fd fs')"
    using bok(2) f(7) by (simp add: d length_pwrite_ge)
  moreover have "\<forall>b\<in>set (bm fs'). b_type b = MINIFS_BLOCK_EMPTY \<or> b_type b = MINIFS_BLOCK_USED"
    using sub assms(1,3) c' y' by (auto simp: blocks_ok_def)
  ultimately show "blocks_ok fs'"
    using assms(1) free used f(3,5) by (simp add: blocks_ok_def)
qed


section \<open>The loop over new blocks\<close>

text \<open>
  With \<open>bs\<close> bytes to a block, \<open>n\<close> bytes fit into \<open>f\<close> free blocks exactly when \<open>n \<le> bs * f\<close>.
\<close>

lemma append_blocks_ok:
  assumes "blocks_ok fs" and "c < length (bm fs)" and "b_type (bm fs ! c) = MINIFS_BLOCK_USED"
    and "dat \<noteq> []" and "length dat < 4294967296" and "length dat \<le> bsz fs * free_blocks fs"
  shows "\<exists>fs' ys. append_blocks fs (int c) dat (of_nat (length dat)) = Inr fs' \<and>
    blocks_ok fs' \<and> frame fs fs' (insert c (set ys)) (bodies (sblock fs) (set ys)) \<and>
    distinct ys \<and> set ys \<subseteq> empty_set fs \<and> ys \<noteq> [] \<and>
    bm fs' ! c = (bm fs ! c)\<lparr>next_block := int (hd ys)\<rparr> \<and> chain (bm fs') (int (hd ys)) ys \<and>
    (\<forall>y\<in>set ys. block_in fs' y) \<and> full fs' ys \<and> content fs' ys = dat \<and>
    empty_set fs' = empty_set fs - set ys"
  using assms
proof (induction "length dat" arbitrary: fs c dat rule: less_induct)
  case less
  have b0: "0 < bsz fs" and sb: "sb_ok (sblock fs)" using less.prems(1) by (auto simp: blocks_ok_def)
  have "free_blocks fs \<noteq> 0"
  proof
    assume "free_blocks fs = 0"
    with less.prems(4,6) show False by simp
  qed
  with find_free_block_ok [OF less.prems(1)] obtain y where
    y: "minifs_find_free_block fs = int y" "y \<in> empty_set fs" by (auto split: if_splits)
  then have yl: "y < length (bm fs)" "c \<noteq> y" using less.prems(3) by (auto simp: empty_set_def)
  note step = append_blocks_step [OF sb less.prems(2) yl y(1) less.prems(4,5)]
  let ?chunk = "take (bsz fs) dat"
  let ?fs1 = "linked fs c y ?chunk"
  have ch: "length ?chunk \<le> bsz fs" "?chunk \<noteq> []" using less.prems(4) b0 by auto
  note l = linked_blocks [OF less.prems(1-3) y(2) ch]
  note fr = linked_frame [OF ch(1), of c y]
  show ?case
  proof (cases "length dat \<le> bsz fs")
    case True
    then have tk: "?chunk = dat" by simp
    have "frame fs ?fs1 (insert c (set [y])) (bodies (sblock fs) (set [y]))"
      using fr by (simp add: bodies_def insert_commute)
    with True step l y yl frame_simps(5) [OF fr] tk show ?thesis
      by (intro exI [of _ ?fs1] exI [of _ "[y]"]) (simp add: full_def content_Cons)
  next
    case False
    note f = frame_simps [OF fr]
    let ?dat = "drop (bsz fs) dat"
    have shorter: "length ?dat < length dat" "?dat \<noteq> []" "length ?dat < 4294967296"
      using False b0 less.prems(5) by auto
    obtain k where k: "free_blocks fs = Suc k" using l(6) by metis
    then have room: "length ?dat \<le> bsz ?fs1 * free_blocks ?fs1"
      using less.prems(6) l(6) f(3) by (simp add: le_diff_conv add.commute)
    have y1: "y < length (bm ?fs1)" "b_type (bm ?fs1 ! y) = MINIFS_BLOCK_USED" using yl l(2) f(5) by simp_all
    from less.hyps [OF shorter(1) l(5) y1 shorter(2,3) room] obtain fs2 ys where
      r: "append_blocks ?fs1 (int y) ?dat (of_nat (length ?dat)) = Inr fs2" "blocks_ok fs2"
        "frame ?fs1 fs2 (insert y (set ys)) (bodies (sblock ?fs1) (set ys))" "distinct ys"
        "set ys \<subseteq> empty_set ?fs1" "ys \<noteq> []"
        "bm fs2 ! y = (bm ?fs1 ! y)\<lparr>next_block := int (hd ys)\<rparr>" "chain (bm fs2) (int (hd ys)) ys"
        "\<forall>y\<in>set ys. block_in fs2 y" "full fs2 ys" "content fs2 ys = ?dat"
        "empty_set fs2 = empty_set ?fs1 - set ys" by blast
    note f2 = frame_simps [OF r(3)]
    have bod: "bodies (sblock ?fs1) = bodies (sblock fs)" by (simp add: bodies_def f fun_eq_iff)
    have y_ys: "y \<notin> set ys" "c \<notin> set ys" "set ys \<subseteq> empty_set fs"
      using r(5) l(7) less.prems(3) by (auto simp: empty_set_def)
    have fr2: "frame fs fs2 (insert c (set (y # ys))) (bodies (sblock fs) (set (y # ys)))"
      using frame_trans [OF fr r(3), of "insert c (set (y # ys))" "bodies (sblock fs) (set (y # ys))"]
      by (auto simp: bod bodies_insert)
    have c2: "bm fs2 ! c = (bm fs ! c)\<lparr>next_block := int y\<rparr>"
      using frame_block [OF r(3), of c] less.prems(2) y_ys yl(2) l(1) f(5) by simp
    have sz: "unat (b_size (bm fs2 ! y)) = bsz fs" and ty: "b_type (bm fs2 ! y) = MINIFS_BLOCK_USED"
      using r(7) l(2) False by simp_all
    have in1: "pos ?fs1 y + bsz fs \<le> length (fd ?fs1)" using l(4) l(2) False b0 by (auto simp: block_in_def)
    have "{pos ?fs1 y..<pos ?fs1 y + bsz fs} \<inter> bodies (sblock ?fs1) (set ys) = {}"
      using bodies_disjoint [OF y_ys(1), of "sblock ?fs1" 0] body_range [of "bsz fs" "sblock ?fs1" y] f(3) by auto
    with pread_same_but [OF frame_disk [OF r(3)] in1] have "body fs2 y = body ?fs1 y"
      using sz l(2) False by (simp add: body_def f2(6))
    then have body_y: "body fs2 y = ?chunk" using l(3) by simp
    have "length (fd ?fs1) \<le> length (fd fs2)" using frame_disk [OF r(3)] by (simp add: same_but_def)
    then have in2: "block_in fs2 y"
      using in1 y1(1) sz ty f f2 by (auto simp: block_in_def)
    have "full fs2 (y # ys)" using r(6,10) sz f(3) f2(3) by (simp add: full_def)
    moreover have "chain (bm fs2) (int y) (y # ys)" using r(7,8) y1(1) f2(5) by simp
    moreover have "content fs2 (y # ys) = dat" using body_y r(11) by (simp add: content_Cons)
    ultimately show ?thesis
      using False step r fr2 c2 in2 y_ys y(2) l(7)
      by (intro exI [of _ fs2] exI [of _ "y # ys"]) auto
  qed
qed

text \<open>Too few free blocks: the process ends; only bodies of free blocks were written.\<close>

lemma append_blocks_full:
  assumes "blocks_ok fs" and "c < length (bm fs)" and "b_type (bm fs ! c) = MINIFS_BLOCK_USED"
    and "dat \<noteq> []" and "length dat < 4294967296" and "bsz fs * free_blocks fs < length dat"
  shows "\<exists>d. append_blocks fs (int c) dat (of_nat (length dat)) = Inl (Exit (-1), d) \<and>
    same_but (bodies (sblock fs) (empty_set fs)) (fd fs) d"
  using assms
proof (induction "length dat" arbitrary: fs c dat rule: less_induct)
  case less
  have b0: "0 < bsz fs" and sb: "sb_ok (sblock fs)" using less.prems(1) by (auto simp: blocks_ok_def)
  show ?case
  proof (cases "free_blocks fs = 0")
    case True
    with find_free_block_ok [OF less.prems(1)] have "minifs_find_free_block fs = -1" by simp
    moreover have "(of_nat (length dat) :: u32) > 0"
      using less.prems(4,5) by (simp add: word_less_nat_alt unat_of_nat)
    ultimately have "append_blocks fs (int c) dat (of_nat (length dat)) = Inl (Exit (-1), fd fs)"
      by (subst append_blocks.simps) simp
    then show ?thesis by simp
  next
    case False
    with find_free_block_ok [OF less.prems(1)] obtain y where
      y: "minifs_find_free_block fs = int y" "y \<in> empty_set fs" by auto
    then have yl: "y < length (bm fs)" "c \<noteq> y" using less.prems(3) by (auto simp: empty_set_def)
    let ?chunk = "take (bsz fs) dat"
    let ?fs1 = "linked fs c y ?chunk"
    have ch: "length ?chunk \<le> bsz fs" "?chunk \<noteq> []" using less.prems(4) b0 by auto
    note l = linked_blocks [OF less.prems(1-3) y(2) ch]
    note fr = linked_frame [OF ch(1), of c y]
    note f = frame_simps [OF fr]
    let ?dat = "drop (bsz fs) dat"
    obtain k where k: "free_blocks fs = Suc k" using l(6) by metis
    then have big: "bsz fs < length dat" using less.prems(6) by simp
    then have step: "append_blocks fs (int c) dat (of_nat (length dat)) =
        append_blocks ?fs1 (int y) ?dat (of_nat (length ?dat))"
      using append_blocks_step [OF sb less.prems(2) yl y(1) less.prems(4,5)] by simp
    have shorter: "length ?dat < length dat" "?dat \<noteq> []" "length ?dat < 4294967296"
      using big b0 less.prems(5) by auto
    have room: "bsz ?fs1 * free_blocks ?fs1 < length ?dat" using less.prems(6) k l(6) f(3) big by simp
    have y1: "y < length (bm ?fs1)" "b_type (bm ?fs1 ! y) = MINIFS_BLOCK_USED" using yl l(2) f(5) by simp_all
    from less.hyps [OF shorter(1) l(5) y1 shorter(2,3) room] obtain d where
      d: "append_blocks ?fs1 (int y) ?dat (of_nat (length ?dat)) = Inl (Exit (-1), d)"
        "same_but (bodies (sblock ?fs1) (empty_set ?fs1)) (fd ?fs1) d" by blast
    have "bodies (sblock ?fs1) (empty_set ?fs1) \<subseteq> bodies (sblock fs) (empty_set fs)"
      using l(7) by (auto simp: bodies_def f)
    moreover have "region (sblock fs) y 0 \<subseteq> bodies (sblock fs) (empty_set fs)"
      using y(2) by (auto simp: bodies_def)
    ultimately show ?thesis
      using step d same_but_trans [OF frame_disk [OF fr] d(2)] by auto
  qed
qed


section \<open>The whole append\<close>

lemma last_block_chain:
  "chain (bm fs) (int b) (b # bs) \<Longrightarrow> length bs \<le> fuel \<Longrightarrow>
    last_block fuel fs (int b) (bm fs ! b) = Inr (int (last (b # bs)), bm fs ! last (b # bs))"
proof (induction bs arbitrary: b fuel)
  case Nil
  then show ?case by (subst last_block.simps) simp
next
  case (Cons c bs)
  then obtain k where k: "fuel = Suc k" by (cases fuel) auto
  from Cons.prems have c: "next_block (bm fs ! b) = int c" "c < length (bm fs)" "chain (bm fs) (int c) (c # bs)"
    by auto
  have "last_block fuel fs (int b) (bm fs ! b) = last_block k fs (int c) (bm fs ! c)"
    by (subst last_block.simps) (simp add: k c get_block_int)
  also have "\<dots> = Inr (int (last (c # bs)), bm fs ! last (c # bs))"
    using Cons.prems(2) k by (intro Cons.IH [OF c(3)]) simp
  finally show ?case by simp
qed

text \<open>A chain of an inode that can take data.\<close>

definition file_chain :: "Filesystem \<Rightarrow> int \<Rightarrow> nat list \<Rightarrow> bool" where
  "file_chain fs r xs \<longleftrightarrow> chain (bm fs) r xs \<and> xs \<noteq> [] \<and> distinct xs \<and> (\<forall>b\<in>set xs. block_in fs b) \<and> full fs xs"

lemma distinct_chain_length:
  "chain m i xs \<Longrightarrow> distinct xs \<Longrightarrow> length xs \<le> length m"
  using chain_bound [of m i xs] by (metis card_lessThan card_mono distinct_card finite_lessThan)

text \<open>Bytes written into a block behind its recorded size.\<close>

definition extended :: "Filesystem \<Rightarrow> nat \<Rightarrow> char list \<Rightarrow> Filesystem" where
  "extended fs b chunk =
     fs\<lparr>sblock := (sblock fs)\<lparr>block_map := (bm fs)[b := (bm fs ! b)\<lparr>b_size :=
          b_size (bm fs ! b) + of_nat (length chunk)\<rparr>]\<rparr>,
        fd := pwrite (pos fs b + unat (b_size (bm fs ! b))) chunk (fd fs)\<rparr>"

lemma extended_facts:
  assumes "blocks_ok fs" and "block_in fs b" and "unat (b_size (bm fs ! b)) + length chunk \<le> bsz fs"
  defines "fs' \<equiv> extended fs b chunk" and "k \<equiv> unat (b_size (bm fs ! b))"
  shows "frame fs fs' {b} (region (sblock fs) b k)" and "body fs' b = body fs b @ chunk"
    and "bm fs' ! b = (bm fs ! b)\<lparr>b_size := b_size (bm fs ! b) + of_nat (length chunk)\<rparr>"
    and "unat (b_size (bm fs' ! b)) = k + length chunk"
    and "block_in fs' b" and "blocks_ok fs'" and "empty_set fs' = empty_set fs"
    and "free_blocks fs' = free_blocks fs"
proof -
  have b: "b < length (bm fs)" "b_type (bm fs ! b) = MINIFS_BLOCK_USED" "k \<le> bsz fs"
      "k = 0 \<or> pos fs b + k \<le> length (fd fs)" using assms(2) by (auto simp: block_in_def k_def)
  have d: "fd fs' = pwrite (pos fs b + k) chunk (fd fs)" by (simp add: fs'_def extended_def k_def)
  have "{pos fs b + k..<pos fs b + k + length chunk} \<subseteq> region (sblock fs) b k"
    using assms(3) by (auto simp: region_def body_pos_Suc k_def)
  then have same: "same_but (region (sblock fs) b k) (fd fs) (fd fs')" unfolding d by (rule same_but_pwrite)
  show fr: "frame fs fs' {b} (region (sblock fs) b k)"
    unfolding frame_def
    by (intro exI [of _ "used_block_count (sblock fs)"] exI [of _ "bm fs'"] exI [of _ "fd fs'"])
      (use same in \<open>simp add: fs'_def extended_def\<close>)
  note f = frame_simps [OF fr]
  show b': "bm fs' ! b = (bm fs ! b)\<lparr>b_size := b_size (bm fs ! b) + of_nat (length chunk)\<rparr>"
    using b(1) by (simp add: fs'_def extended_def)
  have un: "unat (b_size (bm fs ! b) + of_nat (length chunk)) = k + length chunk"
    unfolding k_def using assms(3) by (intro unat_plus_nat) (simp add: k_def)
  then show sz: "unat (b_size (bm fs' ! b)) = k + length chunk" by (simp add: b')
  have "pread (pos fs b) k (fd fs') = pread (pos fs b) k (fd fs)"
    using pread_pwrite_other [of "pos fs b" k "fd fs" "pos fs b + k" chunk] b(4) by (auto simp: d)
  then show "body fs' b = body fs b @ chunk"
    using pread_split [of "pos fs b" k "length chunk" "fd fs'"] pread_pwrite_same [of "pos fs b + k" chunk "fd fs"]
    by (simp add: body_def sz f d k_def)
  have "k + length chunk = 0 \<or> pos fs b + (k + length chunk) \<le> length (fd fs')"
    using b(4) by (cases "chunk = []") (auto simp: d length_pwrite)
  moreover have "k + length chunk = 0 \<longleftrightarrow> b_size (bm fs' ! b) = 0" using sz by (metis unat_eq_zero)
  ultimately have "b_size (bm fs' ! b) = 0 \<or> pos fs b + (k + length chunk) \<le> length (fd fs')" by simp
  then show "block_in fs' b" using b assms(3) by (simp add: block_in_def sz f b' un k_def)
  have ty: "map b_type (bm fs') = map b_type (bm fs)"
    using b(1) by (simp add: fs'_def extended_def map_update list_update_same_conv)
  then have tyn: "c < length (bm fs) \<Longrightarrow> b_type (bm fs' ! c) = b_type (bm fs ! c)" for c
    by (metis f(5) nth_map)
  then show e: "empty_set fs' = empty_set fs" using f(5) by (auto simp: empty_set_def)
  then show fb: "free_blocks fs' = free_blocks fs"
    using f(5) by (simp add: free_blocks_def length_filter_conv_card empty_set_def)
  have sub: "set (bm fs') \<subseteq> insert (bm fs' ! b) (set (bm fs))"
  proof
    fix x assume "x \<in> set (bm fs')"
    then obtain c where "c < length (bm fs')" "x = bm fs' ! c" by (auto simp: in_set_conv_nth)
    then show "x \<in> insert (bm fs' ! b) (set (bm fs))"
      using frame_block [OF fr, of c] f(5) by (cases "c = b") auto
  qed
  have "block_ok (bm fs ! b)" using assms(1) b(1) by (simp add: blocks_ok_def sb_ok_def)
  then have "block_ok (bm fs' ! b)" by (simp add: b' block_ok_def)
  then have "sb_ok (sblock fs')" using assms(1) sub f unfolding blocks_ok_def sb_ok_def by (auto simp: f)
  moreover have "used_block_count (sblock fs') = used_block_count (sblock fs)" by (simp add: fs'_def extended_def)
  moreover have "meta_size (sblock fs') \<le> length (fd fs')"
    using assms(1) by (simp add: f blocks_ok_def d length_pwrite_ge)
  moreover have "\<forall>c\<in>set (bm fs'). b_type c = MINIFS_BLOCK_EMPTY \<or> b_type c = MINIFS_BLOCK_USED"
    using sub b' b(2) assms(1) by (auto simp: blocks_ok_def)
  ultimately show "blocks_ok fs'" using assms(1) fb f by (simp add: blocks_ok_def)
qed

text \<open>The three cases of \<open>minifs_append_data\<close>, with \<open>l\<close> the last block of the chain.\<close>

lemma append_data_eq:
  assumes ok: "blocks_ok fs" and i: "nat (uint inode_id) < length (im fs)"
    and ch: "file_chain fs (root_block (im fs ! nat (uint inode_id))) xs"
    and len: "length dat < 4294967296"
  defines "l \<equiv> last xs" and "room \<equiv> bsz fs - unat (b_size (bm fs ! last xs))"
  shows "minifs_append_data fs inode_id dat (of_nat (length dat)) =
    (if length dat \<le> room then Inr (extended fs l dat)
     else append_blocks (extended fs l (take room dat)) (int l) (drop room dat)
       (of_nat (length (drop room dat))))"
proof -
  let ?sz = "b_size (bm fs ! l)" and ?bs = "block_size (sblock fs)" and ?n = "of_nat (length dat) :: u32"
  have sb: "sb_ok (sblock fs)" using ok by (simp add: blocks_ok_def)
  obtain b bs where xs: "xs = b # bs" using ch by (cases xs) (auto simp: file_chain_def)
  have c: "chain (bm fs) (int b) (b # bs)" "root_block (im fs ! nat (uint inode_id)) = int b" "b < length (bm fs)"
    using ch xs by (auto simp: file_chain_def)
  have "length (b # bs) \<le> length (bm fs)" using ch xs c by (intro distinct_chain_length) (auto simp: file_chain_def)
  then have lb: "last_block (Suc (length (bm fs))) fs (int b) (bm fs ! b) = Inr (int l, bm fs ! l)"
    using last_block_chain [OF c(1), of "Suc (length (bm fs))"] by (simp add: l_def xs)
  have "l \<in> set xs" using xs by (simp add: l_def)
  then have bl: "block_in fs l" using ch by (auto simp: file_chain_def)
  then have l: "l < length (bm fs)" "unat ?sz \<le> bsz fs" by (auto simp: block_in_def)
  have un: "unat ?n = length dat" using len by (simp add: unat_of_nat)
  have rm: "unat (?bs - ?sz) = room" using l(2) by (simp add: room_def l_def unat_sub word_le_nat_alt)
  have room_w: "?bs - ?sz = of_nat room" unfolding rm [symmetric] by simp
  have le: "?n \<le> ?bs - ?sz \<longleftrightarrow> length dat \<le> room" using un rm by (simp add: word_le_nat_alt)
  have off: "unat (minifs_block_body_offset fs (of_nat l) + ?sz) = pos fs l + unat ?sz"
  proof -
    have o: "unat (minifs_block_body_offset fs (of_nat l)) = pos fs l"
      using sb l(1) by (intro body_offset) simp_all
    have "pos fs l + unat ?sz \<le> pos fs (Suc l)" using l(2) by (simp add: body_pos_Suc)
    also have "\<dots> \<le> pos fs (length (bm fs))" using l(1) by (intro body_pos_le) simp
    finally have "pos fs l + unat ?sz < 4294967296" using sb_okD(4) [OF sb] by simp
    then show ?thesis by (simp add: unat_word_ariths o)
  qed
  have w: "minifs_write_block (fd fs) dat n (minifs_block_body_offset fs (of_nat l) + ?sz) =
      Inr (pwrite (pos fs l + unat ?sz) (take (unat n) dat) (fd fs))" if "unat n \<le> length dat" for n
    using that off by (simp add: minifs_write_block_eq)
  have start: "minifs_append_data fs inode_id dat ?n =
      (if ?bs - ?sz \<ge> ?n then
         rbind (minifs_write_block (fd fs) dat ?n (minifs_block_body_offset fs (of_nat l) + ?sz)) (\<lambda>d.
         upd_block (fs\<lparr>fd := d\<rparr>) (int l) (\<lambda>b. b\<lparr>b_size := b_size b + ?n\<rparr>))
       else if ?sz < ?bs then
         rbind (minifs_write_block (fd fs) dat (?bs - ?sz) (minifs_block_body_offset fs (of_nat l) + ?sz)) (\<lambda>d.
         rbind (upd_block (fs\<lparr>fd := d\<rparr>) (int l) (\<lambda>b. b\<lparr>b_size := ?bs\<rparr>)) (\<lambda>fs.
         append_blocks fs (int l) (drop (unat (?bs - ?sz)) dat) (?n - (?bs - ?sz))))
       else append_blocks fs (int l) dat ?n)"
    using i c lb by (simp add: minifs_append_data_def get_inode_def get_block_int Let_def)
  show ?thesis
  proof (cases "length dat \<le> room")
    case True
    with start le w [of ?n] un l(1) show ?thesis
      by (simp add: upd_block_int put_block_def extended_def)
  next
    case False
    have n': "of_nat (length (drop room dat)) = ?n - (?bs - ?sz)"
      unfolding room_w length_drop using False by (intro of_nat_diff) simp
    show ?thesis
    proof (cases "room = 0")
      case True
      then have "\<not> ?sz < ?bs" using l(2) by (simp add: room_def l_def word_less_nat_alt)
      moreover have "extended fs l [] = fs" using l(1) by (simp add: extended_def)
      ultimately show ?thesis using start le False True by simp
    next
      case room: False
      then have lt: "?sz < ?bs" using l(2) by (simp add: room_def l_def word_less_nat_alt)
      have "?sz + of_nat room = ?bs" unfolding room_w [symmetric] by simp
      moreover have "length (take room dat) = room" using False by simp
      ultimately have "upd_block (fs\<lparr>fd := pwrite (pos fs l + unat ?sz) (take room dat) (fd fs)\<rparr>) (int l)
          (\<lambda>b. b\<lparr>b_size := ?bs\<rparr>) = Inr (extended fs l (take room dat))"
        using l(1) by (simp add: upd_block_int put_block_def extended_def)
      with start le False lt w [of "?bs - ?sz"] rm show ?thesis unfolding n' by simp
    qed
  qed
qed

text \<open>Success: the chain grows by blocks that were free, its content by the data.\<close>

lemma append_data_ok:
  assumes ok: "blocks_ok fs" and i: "nat (uint inode_id) < length (im fs)"
    and ch: "file_chain fs (root_block (im fs ! nat (uint inode_id))) xs"
    and len: "length dat < 4294967296"
    and fits: "length dat \<le> bsz fs - unat (b_size (bm fs ! last xs)) + bsz fs * free_blocks fs"
  shows "\<exists>fs' ys. minifs_append_data fs inode_id dat (of_nat (length dat)) = Inr fs' \<and> blocks_ok fs' \<and>
    frame fs fs' (insert (last xs) (set ys))
      (region (sblock fs) (last xs) (unat (b_size (bm fs ! last xs))) \<union> bodies (sblock fs) (set ys)) \<and>
    set ys \<subseteq> empty_set fs \<and> empty_set fs' = empty_set fs - set ys \<and>
    file_chain fs' (root_block (im fs ! nat (uint inode_id))) (xs @ ys) \<and>
    content fs' (xs @ ys) = content fs xs @ dat"
proof -
  let ?r = "root_block (im fs ! nat (uint inode_id))" and ?l = "last xs"
  let ?k = "unat (b_size (bm fs ! last xs))"
  let ?room = "bsz fs - ?k"
  have c: "chain (bm fs) ?r xs" "xs \<noteq> []" "distinct xs" "full fs xs" and bin: "\<forall>b\<in>set xs. block_in fs b"
    using ch by (auto simp: file_chain_def)
  have lin: "?l \<in> set xs" using c(2) by simp
  then have bl: "block_in fs ?l" using bin by blast
  then have kb: "?k \<le> bsz fs" by (simp add: block_in_def)
  have snoc: "xs = butlast xs @ [?l]" using c(2) by simp
  have b0: "0 < bsz fs" using ok by (simp add: blocks_ok_def)
  note eq = append_data_eq [OF ok i ch len]
  \<comment> \<open>the blocks of the chain before the last one are not touched\<close>
  have keep: "content g (butlast xs) = content fs (butlast xs) \<and> (\<forall>b\<in>set (butlast xs). block_in g b \<and> bm g ! b = bm fs ! b)"
    if fr: "frame fs g (insert ?l Y) (region (sblock fs) ?l ?k \<union> bodies (sblock fs) Y)" and Y: "Y \<subseteq> empty_set fs" for g Y
  proof -
    have one: "body g b = body fs b \<and> block_in g b \<and> bm g ! b = bm fs ! b" if b: "b \<in> set (butlast xs)" for b
    proof -
      have bx: "b \<in> set xs" using b by (rule in_set_butlastD)
      then have bb: "block_in fs b" using bin by blast
      have bY: "b \<notin> Y" using Y bb by (auto simp: empty_set_def block_in_def)
      have "b \<noteq> ?l" using c(3) snoc b by (metis distinct_append disjoint_iff list.set_intros(1))
      then have nB: "b \<notin> insert ?l Y" using bY by simp
      have "{pos fs b..<pos fs b + unat (b_size (bm fs ! b))} \<subseteq> region (sblock fs) b 0"
        using bb by (intro body_range) (simp add: block_in_def)
      moreover have "region (sblock fs) b 0 \<inter> (region (sblock fs) ?l ?k \<union> bodies (sblock fs) Y) = {}"
        using region_disjoint [OF \<open>b \<noteq> ?l\<close>, of "sblock fs" 0 ?k] bodies_disjoint [OF bY, of "sblock fs" 0] by auto
      ultimately have "{pos fs b..<pos fs b + unat (b_size (bm fs ! b))} \<inter>
          (region (sblock fs) ?l ?k \<union> bodies (sblock fs) Y) = {}" by blast
      with frame_body [OF fr bb nB] frame_block [OF fr _ nB] bb show ?thesis by (simp add: block_in_def)
    qed
    then have "content g (butlast xs) = content fs (butlast xs)"
      unfolding content_def by (intro arg_cong [where f = concat] map_cong) auto
    with one show ?thesis by blast
  qed
  have cont: "content fs xs = content fs (butlast xs) @ body fs ?l"
    using content_append [of fs "butlast xs" "[?l]"] snoc by (simp add: content_Cons)
  show ?thesis
  proof (cases "length dat \<le> ?room")
    case True
    let ?g = "extended fs ?l dat"
    have "?k + length dat \<le> bsz fs" using True kb by simp
    note e = extended_facts [OF ok bl this]
    note f = frame_simps [OF e(1)]
    have fr: "frame fs ?g (insert ?l (set [])) (region (sblock fs) ?l ?k \<union> bodies (sblock fs) (set []))"
      using e(1) by simp
    note kp = keep [OF fr]
    have nx: "next_block (bm ?g ! b) = next_block (bm fs ! b)" if "b \<in> set xs" for b
      using that kp e(3) snoc by (metis Block.select_convs(1) Block.surjective Block.update_convs(2) Un_iff
          empty_subsetI list.set(1) set_append set_ConsD append_Nil2 empty_iff)
    have "chain (bm ?g) ?r xs" using c(1) f(5) nx by (rule chain_cong)
    moreover have "\<forall>b\<in>set xs. block_in ?g b" using kp e(5) snoc by (metis Un_iff empty_iff empty_subsetI list.set(1) set_ConsD set_append)
    moreover have "full ?g xs" using c(4) kp f(3) by (simp add: full_def)
    ultimately have "file_chain ?g ?r (xs @ [])" using c by (simp add: file_chain_def)
    moreover have "content ?g (xs @ []) = content fs xs @ dat"
      using kp content_append [of ?g "butlast xs" "[?l]"] snoc e(2) cont by (simp add: content_Cons)
    ultimately show ?thesis
      using True eq e fr b0 by (intro exI [of _ ?g] exI [of _ "[]"]) simp
  next
    case False
    let ?chunk = "take ?room dat" and ?rest = "drop ?room dat"
    let ?f1 = "extended fs ?l ?chunk"
    have lc: "length ?chunk = ?room" using False by simp
    then have "?k + length ?chunk \<le> bsz fs" using kb by simp
    note e = extended_facts [OF ok bl this]
    note f = frame_simps [OF e(1)]
    have l1: "?l < length (bm ?f1)" "b_type (bm ?f1 ! ?l) = MINIFS_BLOCK_USED"
      using e(5) by (simp_all add: block_in_def)
    have rest: "?rest \<noteq> []" "length ?rest < 4294967296" "length ?rest \<le> bsz ?f1 * free_blocks ?f1"
      using False len fits f(3) e(8) by auto
    from append_blocks_ok [OF e(6) l1 rest] obtain g ys where
      g: "append_blocks ?f1 (int ?l) ?rest (of_nat (length ?rest)) = Inr g" "blocks_ok g"
        "frame ?f1 g (insert ?l (set ys)) (bodies (sblock ?f1) (set ys))" "distinct ys"
        "set ys \<subseteq> empty_set ?f1" "ys \<noteq> []" "bm g ! ?l = (bm ?f1 ! ?l)\<lparr>next_block := int (hd ys)\<rparr>"
        "chain (bm g) (int (hd ys)) ys" "\<forall>y\<in>set ys. block_in g y" "full g ys" "content g ys = ?rest"
        "empty_set g = empty_set ?f1 - set ys" by blast
    note fg = frame_simps [OF g(3)]
    have bod: "bodies (sblock ?f1) = bodies (sblock fs)" by (simp add: bodies_def f fun_eq_iff)
    have ys: "set ys \<subseteq> empty_set fs" using g(5) e(7) by simp
    have fr: "frame fs g (insert ?l (set ys)) (region (sblock fs) ?l ?k \<union> bodies (sblock fs) (set ys))"
      by (rule frame_trans [OF e(1) g(3)]) (auto simp: bod)
    note kp = keep [OF fr ys]
    have ly: "?l \<notin> set ys" using ys bl by (auto simp: empty_set_def block_in_def)
    have szl: "unat (b_size (bm g ! ?l)) = bsz fs" using g(7) e(4) lc kb by simp
    have in1: "pos ?f1 ?l + bsz fs \<le> length (fd ?f1)" using e(5,4) lc kb b0 by (auto simp: block_in_def)
    have "{pos ?f1 ?l..<pos ?f1 ?l + bsz fs} \<inter> bodies (sblock ?f1) (set ys) = {}"
      using bodies_disjoint [OF ly, of "sblock ?f1" 0] body_range [of "bsz fs" "sblock ?f1" ?l] f(3) by auto
    with pread_same_but [OF frame_disk [OF g(3)] in1] have "body g ?l = body ?f1 ?l"
      using szl e(4) lc kb by (simp add: body_def fg(6))
    then have body_l: "body g ?l = body fs ?l @ ?chunk" using e(2) by simp
    have "length (fd ?f1) \<le> length (fd g)" using frame_disk [OF g(3)] by (simp add: same_but_def)
    then have inl: "block_in g ?l" using in1 l1 szl g(7) f fg by (auto simp: block_in_def)
    have all_in: "\<forall>b\<in>set (xs @ ys). block_in g b"
      using kp inl g(9) snoc by (metis Un_iff empty_iff list.set(1) set_ConsD set_append)
    have "chain (bm g) ?r (xs @ ys)"
    proof (rule chain_extend [OF c(1,2,3)])
      show "length (bm g) = length (bm fs)" using fg f by simp
      show "next_block (bm g ! b) = next_block (bm fs ! b)" if "b \<in> set (butlast xs)" for b
        using kp that by simp
      show "chain (bm g) (next_block (bm g ! last xs)) ys" using g(7,8) by simp
    qed
    moreover have "distinct (xs @ ys)" using c(3) g(4) ys bin by (auto simp: empty_set_def block_in_def)
    moreover have "full g (xs @ ys)"
    proof -
      have "butlast (xs @ ys) = xs @ butlast ys" using g(6) by (simp add: butlast_append)
      moreover have "unat (b_size (bm g ! b)) = bsz g" if "b \<in> set xs" for b
        using that snoc kp c(4) szl f(3) fg(3) unfolding full_def
        by (metis Un_iff empty_iff list.set(1) set_ConsD set_append)
      ultimately show ?thesis using g(10) by (auto simp: full_def)
    qed
    ultimately have "file_chain g ?r (xs @ ys)" using c(2) all_in by (simp add: file_chain_def)
    moreover have "content g (xs @ ys) = content fs xs @ dat"
      using kp content_append [of g "butlast xs" "[?l]"] snoc body_l cont g(11)
      by (simp add: content_append content_Cons)
    ultimately show ?thesis
      using False eq g fr ys e(7) by (intro exI [of _ g] exI [of _ ys]) simp
  qed
qed

text \<open>Failure: the recorded bytes of every block in use and the tables are as before.\<close>

lemma append_data_full:
  assumes ok: "blocks_ok fs" and i: "nat (uint inode_id) < length (im fs)"
    and ch: "file_chain fs (root_block (im fs ! nat (uint inode_id))) xs"
    and len: "length dat < 4294967296"
    and no: "bsz fs - unat (b_size (bm fs ! last xs)) + bsz fs * free_blocks fs < length dat"
  shows "\<exists>d. minifs_append_data fs inode_id dat (of_nat (length dat)) = Inl (Exit (-1), d) \<and>
    same_but (region (sblock fs) (last xs) (unat (b_size (bm fs ! last xs))) \<union>
      bodies (sblock fs) (empty_set fs)) (fd fs) d"
proof -
  let ?l = "last xs" and ?k = "unat (b_size (bm fs ! last xs))"
  let ?room = "bsz fs - ?k"
  have bl: "block_in fs ?l" using ch by (simp add: file_chain_def)
  then have kb: "?k \<le> bsz fs" by (simp add: block_in_def)
  let ?chunk = "take ?room dat" and ?rest = "drop ?room dat"
  let ?f1 = "extended fs ?l ?chunk"
  have nle: "\<not> length dat \<le> ?room" using no by linarith
  then have lc: "length ?chunk = ?room" by simp
  then have "?k + length ?chunk \<le> bsz fs" using kb by simp
  note e = extended_facts [OF ok bl this]
  note f = frame_simps [OF e(1)]
  have l1: "?l < length (bm ?f1)" "b_type (bm ?f1 ! ?l) = MINIFS_BLOCK_USED"
    using e(5) by (simp_all add: block_in_def)
  have rest: "?rest \<noteq> []" "length ?rest < 4294967296" "bsz ?f1 * free_blocks ?f1 < length ?rest"
    using nle len no f(3) e(8) by auto
  from append_blocks_full [OF e(6) l1 rest] obtain d where
    d: "append_blocks ?f1 (int ?l) ?rest (of_nat (length ?rest)) = Inl (Exit (-1), d)"
      "same_but (bodies (sblock ?f1) (empty_set ?f1)) (fd ?f1) d" by blast
  have "bodies (sblock ?f1) (empty_set ?f1) = bodies (sblock fs) (empty_set fs)"
    using e(7) by (simp add: bodies_def f)
  with d same_but_trans [OF frame_disk [OF e(1)] d(2) subset_refl] append_data_eq [OF ok i ch len] nle
  show ?thesis by simp
qed

end
