(* ===== verification/Fs_Read.thy ===== *)
theory Fs_Read
  imports Fs_Append
begin

text \<open>
  Reading: \<open>minifs_read_data\<close> returns the content of a chain, \<open>minifs_read_dir\<close> the entries
  that the content of a directory holds, 32 bytes each.
\<close>


section \<open>Files\<close>

lemma read_body:
  assumes "sb_ok (sblock fs)" and "block_in fs b"
  shows "minifs_read_block (fd fs) (b_size (bm fs ! b)) (minifs_block_body_offset fs (of_nat b)) = Inr (body fs b)"
  using assms body_offset [OF assms(1), of b]
  by (auto simp: block_in_def body_def minifs_read_block_eq)

lemma read_data_loop_chain:
  assumes "sb_ok (sblock fs)"
  shows "chain (bm fs) r xs \<Longrightarrow> 0 \<notin> set xs \<Longrightarrow> \<forall>b\<in>set xs. block_in fs b \<Longrightarrow> length xs < fuel \<Longrightarrow>
    length buffer + length (content fs xs) \<le> unat cap \<Longrightarrow>
    \<exists>final<0. read_data_loop fuel fs cap r buffer = Inr (buffer @ content fs xs, final)"
proof (induction xs arbitrary: r fuel buffer)
  case Nil
  then show ?case by (subst read_data_loop.simps) simp
next
  case (Cons b xs)
  obtain k where k: "fuel = Suc k" using Cons.prems(4) by (cases fuel) auto
  have b: "b < length (bm fs)" "r = int b" "0 < b" and bin: "block_in fs b" using Cons.prems by auto
  have len: "length (body fs b) = unat (b_size (bm fs ! b))" using bin by (rule length_body)
  have "\<exists>final<0. read_data_loop k fs cap (next_block (bm fs ! b)) (buffer @ body fs b) =
      Inr ((buffer @ body fs b) @ content fs xs, final)"
    using Cons.prems k by (intro Cons.IH) (auto simp: content_Cons)
  then obtain final where f: "final < 0" "read_data_loop k fs cap (next_block (bm fs ! b)) (buffer @ body fs b) =
      Inr (buffer @ content fs (b # xs), final)" by (auto simp: content_Cons)
  have "read_data_loop fuel fs cap r buffer =
      read_data_loop k fs cap (next_block (bm fs ! b)) (buffer @ body fs b)"
  proof (cases "b_size (bm fs ! b) = 0")
    case True
    with len have "body fs b = []" by simp
    with True b k show ?thesis by (subst read_data_loop.simps) (simp add: get_block_int)
  next
    case False
    then have "0 < b_size (bm fs ! b)" by (simp add: word_neq_0_conv)
    moreover have "\<not> unat cap < length buffer + unat (b_size (bm fs ! b))"
      using Cons.prems(5) len by (simp add: content_Cons)
    ultimately show ?thesis
      using b k read_body [OF assms bin] by (subst read_data_loop.simps) (simp add: get_block_int)
  qed
  with f show ?case by auto
qed

lemma chain_fuel_enough:
  "chain (bm fs) r xs \<Longrightarrow> distinct xs \<Longrightarrow> length xs < chain_fuel fs cap"
proof -
  assume "chain (bm fs) r xs" "distinct xs"
  then have "length xs \<le> length (bm fs)" by (rule distinct_chain_length)
  also have "\<dots> < Suc (length (bm fs)) * (unat cap + 2)" by simp
  finally show ?thesis by (simp add: chain_fuel_def)
qed

lemma read_data_chain:
  assumes "sb_ok (sblock fs)" and "i < length (im fs)" and "file_chain fs (root_block (im fs ! i)) xs"
    and "0 \<notin> set xs" and "length (content fs xs) = unat (i_size (im fs ! i))"
  shows "minifs_read_data fs (int i) = Inr (content fs xs, sint (i_size (im fs ! i)), True)"
proof -
  let ?ino = "im fs ! i"
  have c: "chain (bm fs) (root_block ?ino) xs" "distinct xs" "\<forall>b\<in>set xs. block_in fs b"
    using assms(3) by (auto simp: file_chain_def)
  have fits: "length ([] :: char list) + length (content fs xs) \<le> unat (i_size ?ino)" using assms(5) by simp
  from read_data_loop_chain [OF assms(1) c(1) assms(4) c(3) chain_fuel_enough [OF c(1,2), of "i_size ?ino"] fits]
  obtain final where "final < 0" "read_data_loop (chain_fuel fs (i_size ?ino)) fs (i_size ?ino) (root_block ?ino) [] =
      Inr (content fs xs, final)" by auto
  then show ?thesis using assms(2) by (simp add: minifs_read_data_def get_inode_def)
qed


section \<open>Directories\<close>

text \<open>An entry: the \<open>used\<close> byte, the name field, the inode.\<close>

type_synonym dentry = "char \<times> char list \<times> u32"

definition enc_entry :: "dentry \<Rightarrow> char list" where
  "enc_entry e = (case e of (u, name, i) \<Rightarrow> u # name @ le32 i)"

definition dec_entry :: "char list \<Rightarrow> dentry" where
  "dec_entry cs = (cs ! 0, take 27 (drop 1 cs), un32 (take 4 (drop 28 cs)))"

definition entries :: "char list \<Rightarrow> dentry list" where
  "entries cs = dec_table dec_entry 32 (length cs div 32) cs"

definition dirmap :: "dentry list \<Rightarrow> DirectoryMap" where
  "dirmap es = \<lparr>names = map (\<lambda>(u, name, i). name) es, inodes = map (\<lambda>(u, name, i). i) es,
     used = map (\<lambda>(u, name, i). u) es\<rparr>"

lemma dec_enc_entry: "length name = 27 \<Longrightarrow> dec_entry (enc_entry (u, name, i)) = (u, name, i)"
  by (simp add: dec_entry_def enc_entry_def)

lemma length_enc_entry: "length name = 27 \<Longrightarrow> length (enc_entry (u, name, i)) = 32"
  by (simp add: enc_entry_def)

lemma dec_table_append:
  "length xs = n * k \<Longrightarrow> dec_table f n (k + m) (xs @ ys) = dec_table f n k xs @ dec_table f n m ys"
proof (induction k arbitrary: xs)
  case 0
  then show ?case by simp
next
  case (Suc k)
  then have "length xs = n + n * k" by simp
  then have le: "n \<le> length xs" and len: "length (drop n xs) = n * k" by simp_all
  from le have "take n (xs @ ys) = take n xs" "drop n (xs @ ys) = drop n xs @ ys" by simp_all
  then show ?case using Suc.IH [OF len] by (simp del: take_append drop_append)
qed

lemma entries_append:
  "length xs mod 32 = 0 \<Longrightarrow> entries (xs @ ys) = entries xs @ entries ys"
proof -
  assume "length xs mod 32 = 0"
  then obtain k where k: "length xs = 32 * k" by auto
  then have "(length xs + length ys) div 32 = k + length ys div 32" by simp
  then show ?thesis using dec_table_append [OF k] k by (simp add: entries_def)
qed

lemma entries_Nil [simp]: "entries [] = []"
  by (simp add: entries_def)

lemma length_entries: "length (entries cs) = length cs div 32"
  by (simp add: entries_def)

lemma entries_enc: "length name = 27 \<Longrightarrow> entries (enc_entry (u, name, i)) = [(u, name, i)]"
proof -
  assume n: "length name = 27"
  then have "length (enc_entry (u, name, i)) div 32 = Suc 0" by (simp add: length_enc_entry)
  with n show ?thesis by (simp add: entries_def length_enc_entry dec_enc_entry)
qed

lemma pread_sub: "i + j \<le> n \<Longrightarrow> take j (drop i (pread a n d)) = pread (a + i) j d"
  by (simp add: pread_def drop_take min.absorb1 add.commute)

text \<open>The inner loop reads the entries of a stretch of the file.\<close>

lemma read_entries_run:
  assumes "at + 32 * n \<le> length (fd fs)" and "at + 32 * n < 4294967296" and "unat off = at"
    and "k \<le> n" and "length (names m) + (n - k) \<le> unat cap"
    and m: "m = dirmap (es @ dec_table dec_entry 32 k (pread at (32 * n) (fd fs)))"
  shows "read_entries fs cap off [k..<n] m =
    Inr (dirmap (es @ dec_table dec_entry 32 n (pread at (32 * n) (fd fs))))"
  using assms(4-6)
proof (induction "n - k" arbitrary: k m)
  case 0
  then show ?case by simp
next
  case (Suc j)
  let ?cs = "pread at (32 * n) (fd fs)"
  have kn: "k < n" using Suc.hyps(2) by simp
  then have up: "[k..<n] = k # [Suc k..<n]" by (simp add: upt_conv_Cons)
  let ?lo = "off + of_nat (k * entry_size)"
  define w where "w = (of_nat (at + 32 * n) :: u32)"
  have uw: "unat w = at + 32 * n" unfolding w_def by (rule of_nat_u32 [OF assms(2)])
  have "unat (off + of_nat (32 * k)) = unat off + 32 * k"
    using kn uw assms(3) by (intro unat_plus_nat [of off "32 * k" w]) simp
  then have l0: "unat ?lo = at + 32 * k" by (simp add: assms(3) entry_size_def mult.commute)
  have top: "unat (?lo + of_nat i) = at + 32 * k + i" if "i \<le> 32" for i
  proof -
    have "unat ?lo + i \<le> unat w" using l0 kn that uw by simp
    then have "unat (?lo + of_nat i) = unat ?lo + i" by (rule unat_plus_nat)
    then show ?thesis by (simp only: l0)
  qed
  have r1: "minifs_read_block (fd fs) 1 ?lo = Inr (pread (at + 32 * k) 1 (fd fs))"
    using assms(1) kn l0 read_block_ok [of 1 1 ?lo "fd fs"] by simp
  have r2: "minifs_read_block (fd fs) MAX_FILENAME_SIZE (?lo + 1) = Inr (pread (at + 32 * k + 1) 27 (fd fs))"
    using assms(1) kn top [of 1] read_block_ok [of MAX_FILENAME_SIZE 27 "?lo + 1" "fd fs"]
    by (simp add: MAX_FILENAME_SIZE_def)
  have e28: "?lo + 1 + MAX_FILENAME_SIZE = ?lo + of_nat 28" by (simp add: MAX_FILENAME_SIZE_def)
  have u28: "unat (?lo + 1 + MAX_FILENAME_SIZE) = at + 32 * k + 28" unfolding e28 by (rule top) simp
  have r3: "minifs_read_block (fd fs) 4 (?lo + 1 + MAX_FILENAME_SIZE) = Inr (pread (at + 32 * k + 28) 4 (fd fs))"
    using read_block_ok [where n = 4 and k = 4 and offset = "?lo + 1 + MAX_FILENAME_SIZE" and fd = "fd fs",
        unfolded u28] assms(1) kn by simp
  let ?e = "take 32 (drop (32 * k) ?cs)"
  have e: "?e = pread (at + 32 * k) 32 (fd fs)"
  proof -
    have "32 \<le> 32 * n - 32 * k" using kn by simp
    then show ?thesis by (simp add: pread_def drop_take min.absorb1 add.commute)
  qed
  have de: "dec_entry ?e = (hd (pread (at + 32 * k) 1 (fd fs)), pread (at + 32 * k + 1) 27 (fd fs),
      un32 (pread (at + 32 * k + 28) 4 (fd fs)))"
  proof -
    have "drop (at + 32 * k) (fd fs) \<noteq> []" using assms(1) kn by simp
    then have "hd (pread (at + 32 * k) 1 (fd fs)) = pread (at + 32 * k) 32 (fd fs) ! 0"
      by (simp add: pread_def hd_conv_nth)
    then show ?thesis
      using pread_sub [of 1 27 32 "at + 32 * k" "fd fs"] pread_sub [of 28 4 32 "at + 32 * k" "fd fs"]
      unfolding e dec_entry_def by simp
  qed
  have lt: "length (names m) < unat cap" using Suc.prems(2) kn by simp
  let ?m' = "dirmap (es @ dec_table dec_entry 32 (Suc k) ?cs)"
  have snoc: "dec_table dec_entry 32 (Suc k) ?cs = dec_table dec_entry 32 k ?cs @ [dec_entry ?e]"
  proof -
    have "length ?cs = 32 * n" using assms(1) by (simp add: length_pread)
    then have "length (take (32 * k) ?cs) = 32 * k" using kn by simp
    from dec_table_append [OF this, of dec_entry 1 "drop (32 * k) ?cs"]
      dec_table_append [OF this, of dec_entry 0 "drop (32 * k) ?cs"] show ?thesis by simp
  qed
  have "read_entries fs cap off [k..<n] m = read_entries fs cap off [Suc k..<n] ?m'"
    using r1 r2 r3 lt unfolding up by (simp add: Let_def snoc de Suc.prems(3) dirmap_def del: dec_table.simps)
  also have "\<dots> = Inr (dirmap (es @ dec_table dec_entry 32 n ?cs))"
    using Suc kn by (intro Suc.hyps(1)) (auto simp: dirmap_def)
  finally show ?case .
qed

lemma entries_body:
  assumes "block_in fs b" and "unat (b_size (bm fs ! b)) mod 32 = 0"
  shows "entries (body fs b) =
    dec_table dec_entry 32 (unat (b_size (bm fs ! b)) div 32)
      (pread (pos fs b) (32 * (unat (b_size (bm fs ! b)) div 32)) (fd fs))"
proof -
  have "32 * (unat (b_size (bm fs ! b)) div 32) = unat (b_size (bm fs ! b))" using assms(2) by auto
  then show ?thesis using length_body [OF assms(1)] by (simp add: entries_def body_def)
qed

lemma read_dir_loop_chain:
  assumes "sb_ok (sblock fs)"
  shows "chain (bm fs) r xs \<Longrightarrow> \<forall>b\<in>set xs. block_in fs b \<and> unat (b_size (bm fs ! b)) mod 32 = 0 \<Longrightarrow>
    length xs < fuel \<Longrightarrow> length es + length (entries (content fs xs)) \<le> unat cap \<Longrightarrow>
    read_dir_loop fuel fs cap r (dirmap es) = Inr (dirmap (es @ entries (content fs xs)))"
proof (induction xs arbitrary: r fuel es)
  case Nil
  then show ?case by (subst read_dir_loop.simps) simp
next
  case (Cons b xs)
  obtain k where k: "fuel = Suc k" using Cons.prems(3) by (cases fuel) auto
  have b: "b < length (bm fs)" "r = int b" and bin: "block_in fs b"
    and m0: "unat (b_size (bm fs ! b)) mod 32 = 0" using Cons.prems by auto
  let ?n = "unat (b_size (bm fs ! b)) div 32"
  have n32: "32 * ?n = unat (b_size (bm fs ! b))" using m0 by auto
  have ent: "entries (content fs (b # xs)) = entries (body fs b) @ entries (content fs xs)"
    using entries_append [of "body fs b" "content fs xs"] length_body [OF bin] m0 by (simp add: content_Cons)
  have le: "length (entries (body fs b)) = ?n" using length_body [OF bin] by (simp add: length_entries)
  have off: "unat (minifs_block_body_offset fs (of_nat b)) = pos fs b" using body_offset [OF assms, of b] b by simp
  have inb: "?n = 0 \<or> pos fs b + 32 * ?n \<le> length (fd fs)" using bin n32 by (auto simp: block_in_def)
  have "pos fs b + 32 * ?n \<le> pos fs (Suc b)" using bin n32 by (simp add: block_in_def body_pos_Suc)
  also have "\<dots> \<le> pos fs (length (bm fs))" using b by (intro body_pos_le) simp
  finally have bound: "pos fs b + 32 * ?n < 4294967296" using sb_okD(4) [OF assms] by simp
  have "read_entries fs cap (minifs_block_body_offset fs (of_nat b)) [0..<?n] (dirmap es) =
      Inr (dirmap (es @ entries (body fs b)))"
  proof (cases "?n = 0")
    case True
    then show ?thesis by (simp add: entries_body [OF bin m0])
  next
    case False
    with inb have "pos fs b + 32 * ?n \<le> length (fd fs)" by simp
    from read_entries_run [OF this bound off, of 0 "dirmap es" cap es] Cons.prems(4) ent le show ?thesis
      by (simp add: entries_body [OF bin m0] dirmap_def)
  qed
  then have "read_dir_loop fuel fs cap r (dirmap es) =
      read_dir_loop k fs cap (next_block (bm fs ! b)) (dirmap (es @ entries (body fs b)))"
    using b k by (subst read_dir_loop.simps) (simp add: get_block_int Let_def entry_size_def)
  also have "\<dots> = Inr (dirmap ((es @ entries (body fs b)) @ entries (content fs xs)))"
    using Cons.prems k ent by (intro Cons.IH) auto
  finally show ?case by (simp add: ent)
qed

lemma read_dir_chain:
  assumes "sb_ok (sblock fs)" and "nat (uint d) < length (im fs)"
    and "file_chain fs (root_block (im fs ! nat (uint d))) xs"
    and "\<forall>b\<in>set xs. unat (b_size (bm fs ! b)) mod 32 = 0"
    and "length (content fs xs) = 32 * unat (i_size (im fs ! nat (uint d)))"
  shows "minifs_read_dir fs d = Inr (dirmap (entries (content fs xs)))"
proof -
  let ?ino = "im fs ! nat (uint d)"
  have c: "chain (bm fs) (root_block ?ino) xs" "distinct xs"
      "\<forall>b\<in>set xs. block_in fs b \<and> unat (b_size (bm fs ! b)) mod 32 = 0"
    using assms(3,4) by (auto simp: file_chain_def)
  have fits: "length ([] :: dentry list) + length (entries (content fs xs)) \<le> unat (i_size ?ino)"
    using assms(5) by (simp add: length_entries)
  from read_dir_loop_chain [OF assms(1) c(1,3) chain_fuel_enough [OF c(1,2)] fits]
  show ?thesis using assms(2) by (simp add: minifs_read_dir_def get_inode_def dirmap_def)
qed

text \<open>The blocks of a directory hold whole entries.\<close>

lemma content_full_length:
  "xs \<noteq> [] \<Longrightarrow> \<forall>b\<in>set xs. block_in fs b \<Longrightarrow> full fs xs \<Longrightarrow>
    length (content fs xs) = bsz fs * (length xs - 1) + unat (b_size (bm fs ! last xs))"
proof (induction xs)
  case Nil
  then show ?case by simp
next
  case (Cons b xs)
  show ?case
  proof (cases xs)
    case Nil
    with Cons show ?thesis by (simp add: content_Cons length_body)
  next
    case (Cons c cs)
    with Cons.prems have "unat (b_size (bm fs ! b)) = bsz fs" "full fs xs" "\<forall>b\<in>set xs. block_in fs b"
      by (simp_all add: full_def)
    with Cons Cons.IH Cons.prems show ?thesis by (simp add: content_Cons length_body)
  qed
qed

lemma dir_blocks_whole:
  assumes "file_chain fs r xs" and "bsz fs mod 32 = 0" and "length (content fs xs) mod 32 = 0"
  shows "\<forall>b\<in>set xs. unat (b_size (bm fs ! b)) mod 32 = 0"
proof
  fix b assume b: "b \<in> set xs"
  have c: "xs \<noteq> []" "\<forall>b\<in>set xs. block_in fs b" "full fs xs" using assms(1) by (auto simp: file_chain_def)
  from assms(2) obtain j where j: "bsz fs = 32 * j" by auto
  have "(bsz fs * (length xs - 1) + unat (b_size (bm fs ! last xs))) mod 32 = 0"
    using content_full_length [OF c] assms(3) by simp
  then have last: "unat (b_size (bm fs ! last xs)) mod 32 = 0" by (simp add: j mult.assoc)
  show "unat (b_size (bm fs ! b)) mod 32 = 0"
  proof (cases "b \<in> set (butlast xs)")
    case True
    with c(3) assms(2) show ?thesis by (simp add: full_def)
  next
    case False
    with b c(1) have "b = last xs" by (metis Un_iff append_butlast_last_id empty_iff list.set(1) set_ConsD set_append)
    with last show ?thesis by simp
  qed
qed

end
