(* ===== verification/Fs_Inv.thy ===== *)
theory Fs_Inv
  imports Fs_Read
begin

text \<open>
  The structure of a file system: every inode in use has a chain of blocks in use, and no two
  share a block. On such a file system \<open>minifs_append_data\<close> implements an interface of
  independent byte sequences, the locale \<open>byte_store\<close>.
\<close>


section \<open>The byte store\<close>

text \<open>
  \<open>ids\<close> are the sequences, \<open>bytes\<close> their content, \<open>avail\<close> the number of bytes that still fit and
  \<open>same\<close> what an append does not change otherwise. \<open>lost s d\<close> is what may be left on the disk
  when the process ends.
\<close>

locale byte_store =
  fixes inv :: "'s \<Rightarrow> bool"
    and ids :: "'s \<Rightarrow> nat set"
    and bytes :: "'s \<Rightarrow> nat \<Rightarrow> char list"
    and avail :: "'s \<Rightarrow> nat \<Rightarrow> nat"
    and append :: "nat \<Rightarrow> char list \<Rightarrow> 's \<Rightarrow> (stop \<times> disk) + 's"
    and same :: "'s \<Rightarrow> 's \<Rightarrow> bool"
    and lost :: "'s \<Rightarrow> disk \<Rightarrow> bool"
  assumes append_law: "inv s \<Longrightarrow> i \<in> ids s \<Longrightarrow> length dat < 4294967296 \<Longrightarrow> length dat \<le> avail s i \<Longrightarrow>
      \<exists>s'. append i dat s = Inr s' \<and> inv s' \<and> ids s' = ids s \<and> same s s' \<and>
        bytes s' i = bytes s i @ dat \<and> (\<forall>j\<in>ids s. j \<noteq> i \<longrightarrow> bytes s' j = bytes s j) \<and>
        avail s' i + length dat = avail s i"
    and full_law: "inv s \<Longrightarrow> i \<in> ids s \<Longrightarrow> length dat < 4294967296 \<Longrightarrow> avail s i < length dat \<Longrightarrow>
      \<exists>d. append i dat s = Inl (Exit (-1), d) \<and> lost s d"
    and same_trans: "same s s' \<Longrightarrow> same s' s'' \<Longrightarrow> same s s''"
begin

text \<open>Three appends to one sequence, as \<open>mkdir\<close> and \<open>touch\<close> make them, are one of the whole.\<close>

lemma append_three:
  assumes "inv s" and "i \<in> ids s" and "length a < 4294967296" "length b < 4294967296" "length c < 4294967296"
    and "length a + length b + length c \<le> avail s i"
  shows "\<exists>s1 s2 s3. append i a s = Inr s1 \<and> append i b s1 = Inr s2 \<and> append i c s2 = Inr s3 \<and>
    inv s3 \<and> ids s3 = ids s \<and> same s s1 \<and> same s s2 \<and> same s s3 \<and>
    bytes s3 i = bytes s i @ a @ b @ c \<and> (\<forall>j\<in>ids s. j \<noteq> i \<longrightarrow> bytes s3 j = bytes s j) \<and>
    avail s3 i + length (a @ b @ c) = avail s i"
proof -
  from append_law [OF assms(1-3)] assms(6) obtain s1 where
    1: "append i a s = Inr s1" "inv s1" "ids s1 = ids s" "same s s1" "bytes s1 i = bytes s i @ a"
      "\<forall>j\<in>ids s. j \<noteq> i \<longrightarrow> bytes s1 j = bytes s j" "avail s1 i + length a = avail s i" by auto
  with append_law [OF 1(2) _ assms(4), of i] assms(2,6) obtain s2 where
    2: "append i b s1 = Inr s2" "inv s2" "ids s2 = ids s1" "same s1 s2" "bytes s2 i = bytes s1 i @ b"
      "\<forall>j\<in>ids s1. j \<noteq> i \<longrightarrow> bytes s2 j = bytes s1 j" "avail s2 i + length b = avail s1 i" by auto
  with append_law [OF 2(2) _ assms(5), of i] 1 assms(2,6) obtain s3 where
    3: "append i c s2 = Inr s3" "inv s3" "ids s3 = ids s2" "same s2 s3" "bytes s3 i = bytes s2 i @ c"
      "\<forall>j\<in>ids s2. j \<noteq> i \<longrightarrow> bytes s3 j = bytes s2 j" "avail s3 i + length c = avail s2 i" by auto
  from 1 2 3 show ?thesis by (auto intro: same_trans)
qed

text \<open>Any number of appends, each to its own sequence: every sequence gets its own data in order.\<close>

primrec appends :: "(nat \<times> char list) list \<Rightarrow> 's \<Rightarrow> (stop \<times> disk) + 's" where
  "appends [] s = Inr s"
| "appends (x # xs) s = rbind (append (fst x) (snd x) s) (appends xs)"

lemma appends_law:
  "inv s \<Longrightarrow> \<forall>x\<in>set xs. fst x \<in> ids s \<and> length (snd x) < 4294967296 \<Longrightarrow> appends xs s = Inr s' \<Longrightarrow>
    inv s' \<and> ids s' = ids s \<and>
    (\<forall>j\<in>ids s. bytes s' j = bytes s j @ concat (map snd (filter (\<lambda>x. fst x = j) xs)))"
proof (induction xs arbitrary: s)
  case Nil
  then show ?case by simp
next
  case (Cons x xs)
  let ?i = "fst x" and ?dat = "snd x"
  have x: "?i \<in> ids s" "length ?dat < 4294967296" using Cons.prems(2) by auto
  have "length ?dat \<le> avail s ?i"
  proof (rule ccontr)
    assume "\<not> ?thesis"
    with full_law [OF Cons.prems(1) x] obtain d where "append ?i ?dat s = Inl (Exit (-1), d)" by auto
    with Cons.prems(3) show False by simp
  qed
  with append_law [OF Cons.prems(1) x] obtain s1 where
    1: "append ?i ?dat s = Inr s1" "inv s1" "ids s1 = ids s" "bytes s1 ?i = bytes s ?i @ ?dat"
      "\<forall>j\<in>ids s. j \<noteq> ?i \<longrightarrow> bytes s1 j = bytes s j" by auto
  have "inv s' \<and> ids s' = ids s1 \<and>
      (\<forall>j\<in>ids s1. bytes s' j = bytes s1 j @ concat (map snd (filter (\<lambda>x. fst x = j) xs)))"
    using Cons.prems 1 by (intro Cons.IH) auto
  with 1 show ?case by auto
qed

end


section \<open>Chains as functions of the state\<close>

fun follow :: "nat \<Rightarrow> Block list \<Rightarrow> int \<Rightarrow> nat list" where
  "follow 0 m i = []"
| "follow (Suc n) m i = (if i < 0 then [] else nat i # follow n m (next_block (m ! nat i)))"

definition blocks_of :: "Filesystem \<Rightarrow> nat \<Rightarrow> nat list" where
  "blocks_of fs i = follow (length (bm fs)) (bm fs) (root_block (im fs ! i))"

definition bytes_of :: "Filesystem \<Rightarrow> nat \<Rightarrow> char list" where
  "bytes_of fs i = content fs (blocks_of fs i)"

lemma follow_chain: "chain m i xs \<Longrightarrow> length xs \<le> n \<Longrightarrow> follow n m i = xs"
proof (induction n arbitrary: i xs)
  case 0
  then show ?case by simp
next
  case (Suc n)
  then show ?case by (cases xs) auto
qed

lemma blocks_of_eq: "file_chain fs (root_block (im fs ! i)) xs \<Longrightarrow> blocks_of fs i = xs"
  unfolding blocks_of_def file_chain_def by (intro follow_chain distinct_chain_length) auto

definition used_set :: "Filesystem \<Rightarrow> nat set" where
  "used_set fs = {i. i < length (im fs) \<and> i_type (im fs ! i) \<noteq> MINIFS_INODE_EMPTY}"

definition tree_ok :: "Filesystem \<Rightarrow> bool" where
  "tree_ok fs \<longleftrightarrow> blocks_ok fs \<and>
     (\<forall>i\<in>used_set fs. file_chain fs (root_block (im fs ! i)) (blocks_of fs i)) \<and>
     (\<forall>i\<in>used_set fs. \<forall>j\<in>used_set fs. i \<noteq> j \<longrightarrow> set (blocks_of fs i) \<inter> set (blocks_of fs j) = {})"

definition avail :: "Filesystem \<Rightarrow> nat \<Rightarrow> nat" where
  "avail fs i = bsz fs - unat (b_size (bm fs ! last (blocks_of fs i))) + bsz fs * free_blocks fs"

definition append_to :: "nat \<Rightarrow> char list \<Rightarrow> Filesystem \<Rightarrow> Filesystem fres" where
  "append_to i dat fs = minifs_append_data fs (of_nat i) dat (of_nat (length dat))"

text \<open>What an append leaves alone beside the other sequences.\<close>

definition same_tables :: "Filesystem \<Rightarrow> Filesystem \<Rightarrow> bool" where
  "same_tables fs fs' \<longleftrightarrow> im fs' = im fs \<and> current_dir fs' = current_dir fs \<and>
     inode_count (sblock fs') = inode_count (sblock fs) \<and> block_count (sblock fs') = block_count (sblock fs) \<and>
     used_inode_count (sblock fs') = used_inode_count (sblock fs) \<and>
     block_size (sblock fs') = block_size (sblock fs) \<and> length (bm fs') = length (bm fs) \<and>
     sb_repr (sblock fs') = sb_repr (sblock fs) \<and>
     same_but (\<Union>b. region (sblock fs) b 0) (fd fs) (fd fs')"

text \<open>The bytes on the disk that count: the tables and the content of the inodes in use.\<close>

definition recorded :: "Filesystem \<Rightarrow> nat set" where
  "recorded fs = {0..<meta_size (sblock fs)} \<union>
     (\<Union>i\<in>used_set fs. \<Union>b\<in>set (blocks_of fs i). {pos fs b..<pos fs b + unat (b_size (bm fs ! b))})"

definition kept_disk :: "Filesystem \<Rightarrow> disk \<Rightarrow> bool" where
  "kept_disk fs d \<longleftrightarrow> same_but (- recorded fs) (fd fs) d"

lemma frame_chain_bytes:
  assumes "frame fs fs' B P" and "file_chain fs r xs" and "set xs \<inter> B = {}"
    and "\<And>b. b \<in> set xs \<Longrightarrow> {pos fs b..<pos fs b + unat (b_size (bm fs ! b))} \<inter> P = {}"
  shows "file_chain fs' r xs" and "content fs' xs = content fs xs"
proof -
  have one: "body fs' b = body fs b \<and> block_in fs' b \<and> bm fs' ! b = bm fs ! b" if b: "b \<in> set xs" for b
  proof -
    have bb: "block_in fs b" using assms(2) b by (simp add: file_chain_def)
    have nB: "b \<notin> B" using assms(3) b by blast
    from frame_body [OF assms(1) bb nB assms(4) [OF b]] frame_block [OF assms(1) _ nB] bb
    show ?thesis by (simp add: block_in_def)
  qed
  then show "content fs' xs = content fs xs"
    unfolding content_def by (intro arg_cong [where f = concat] map_cong) auto
  have "chain (bm fs') r xs"
    using assms(2) frame_simps(5) [OF assms(1)] one
    by (intro chain_cong [of "bm fs" r xs "bm fs'"]) (auto simp: file_chain_def)
  moreover have "bm fs' ! b = bm fs ! b" if "b \<in> set (butlast xs)" for b
    using one [OF in_set_butlastD [OF that]] by simp
  then have "full fs' xs"
    using assms(2) frame_simps(3) [OF assms(1)] by (simp add: file_chain_def full_def)
  ultimately show "file_chain fs' r xs" using assms(2) one by (simp add: file_chain_def)
qed

lemma frame_chain:
  assumes "frame fs fs' B P" and "file_chain fs r xs" and "set xs \<inter> B = {}"
    and "\<And>b. b \<in> set xs \<Longrightarrow> region (sblock fs) b 0 \<inter> P = {}"
  shows "file_chain fs' r xs" and "content fs' xs = content fs xs"
proof -
  have "{pos fs b..<pos fs b + unat (b_size (bm fs ! b))} \<inter> P = {}" if b: "b \<in> set xs" for b
  proof -
    have "block_in fs b" using assms(2) b by (simp add: file_chain_def)
    then have "{pos fs b..<pos fs b + unat (b_size (bm fs ! b))} \<subseteq> region (sblock fs) b 0"
      by (intro body_range) (simp add: block_in_def)
    with assms(4) [OF b] show ?thesis by blast
  qed
  then show "file_chain fs' r xs" and "content fs' xs = content fs xs"
    using frame_chain_bytes [OF assms(1-3)] by blast+
qed

lemma frame_blocks_of:
  assumes "frame fs fs' B P" and "file_chain fs' (root_block (im fs ! i)) xs"
  shows "blocks_of fs' i = xs"
  using assms(2) frame_simps(1) [OF assms(1)] by (intro blocks_of_eq) simp

lemma avail_eq:
  assumes "file_chain fs (root_block (im fs ! i)) (blocks_of fs i)"
  shows "avail fs i + length (bytes_of fs i) = bsz fs * (length (blocks_of fs i) + free_blocks fs)"
proof -
  let ?xs = "blocks_of fs i"
  have c: "?xs \<noteq> []" "\<forall>b\<in>set ?xs. block_in fs b" "full fs ?xs" using assms by (auto simp: file_chain_def)
  have k: "unat (b_size (bm fs ! last ?xs)) \<le> bsz fs" using c by (simp add: block_in_def)
  obtain n where n: "length ?xs = Suc n" using c(1) by (cases ?xs) auto
  show ?thesis
    using content_full_length [OF c] k n by (simp add: avail_def bytes_of_def algebra_simps)
qed

lemma of_nat_inode: "i < length (im fs) \<Longrightarrow> sb_ok (sblock fs) \<Longrightarrow> nat (uint (of_nat i :: u32)) = i"
  using inodes_few [of "sblock fs"] by (simp flip: unat_eq_nat_uint add: of_nat_u32)


section \<open>The append implements the byte store\<close>

lemma used_block:
  "tree_ok fs \<Longrightarrow> i \<in> used_set fs \<Longrightarrow> b \<in> set (blocks_of fs i) \<Longrightarrow> block_in fs b"
  by (simp add: tree_ok_def file_chain_def)

lemma recorded_disjoint:
  assumes "tree_ok fs" and "i \<in> used_set fs"
  shows "(region (sblock fs) (last (blocks_of fs i)) (unat (b_size (bm fs ! last (blocks_of fs i)))) \<union>
    bodies (sblock fs) (empty_set fs)) \<inter> recorded fs = {}"
proof -
  let ?l = "last (blocks_of fs i)"
  let ?k = "unat (b_size (bm fs ! ?l))"
  have reg: "region (sblock fs) ?l ?k \<subseteq> bodies (sblock fs) {?l}"
    using region_subset by (simp add: bodies_def)
  have tab: "{0..<meta_size (sblock fs)} \<inter> (region (sblock fs) ?l ?k \<union> bodies (sblock fs) (empty_set fs)) = {}"
    using meta_bodies [of "sblock fs"] reg by blast
  have blk: "{pos fs b..<pos fs b + unat (b_size (bm fs ! b))} \<inter>
      (region (sblock fs) ?l ?k \<union> bodies (sblock fs) (empty_set fs)) = {}"
    if "j \<in> used_set fs" "b \<in> set (blocks_of fs j)" for j b
  proof -
    have bb: "block_in fs b" using used_block [OF assms(1) that] .
    then have ne: "b \<notin> empty_set fs" by (simp add: block_in_def empty_set_def)
    have sub: "{pos fs b..<pos fs b + unat (b_size (bm fs ! b))} \<subseteq> region (sblock fs) b 0"
      using bb by (intro body_range) (simp add: block_in_def)
    have "{pos fs b..<pos fs b + unat (b_size (bm fs ! b))} \<inter> region (sblock fs) ?l ?k = {}"
    proof (cases "b = ?l")
      case True
      then show ?thesis by (auto simp: region_def)
    next
      case False
      with sub region_disjoint [OF False, of "sblock fs" 0 ?k] show ?thesis by blast
    qed
    with sub bodies_disjoint [OF ne, of "sblock fs" 0] show ?thesis by blast
  qed
  show ?thesis using tab blk unfolding recorded_def by blast
qed

lemma append_to_ok:
  assumes tree: "tree_ok fs" and i: "i \<in> used_set fs" and len: "length dat < 4294967296"
    and fits: "length dat \<le> avail fs i"
  shows "\<exists>fs'. append_to i dat fs = Inr fs' \<and> tree_ok fs' \<and> used_set fs' = used_set fs \<and> same_tables fs fs' \<and>
    bytes_of fs' i = bytes_of fs i @ dat \<and> (\<forall>j\<in>used_set fs. j \<noteq> i \<longrightarrow> bytes_of fs' j = bytes_of fs j) \<and>
    avail fs' i + length dat = avail fs i"
proof -
  let ?xs = "blocks_of fs i" and ?l = "last (blocks_of fs i)"
  let ?k = "unat (b_size (bm fs ! last (blocks_of fs i)))"
  have ok: "blocks_ok fs" and il: "i < length (im fs)" using tree i by (auto simp: tree_ok_def used_set_def)
  then have n: "nat (uint (of_nat i :: u32)) = i" by (intro of_nat_inode [of i fs]) (auto simp: blocks_ok_def)
  have ch: "file_chain fs (root_block (im fs ! i)) ?xs" using tree i by (simp add: tree_ok_def)
  from append_data_ok [OF ok, of "of_nat i" ?xs dat] obtain g ys where
    g: "append_to i dat fs = Inr g" "blocks_ok g"
      "frame fs g (insert ?l (set ys)) (region (sblock fs) ?l ?k \<union> bodies (sblock fs) (set ys))"
      "set ys \<subseteq> empty_set fs" "empty_set g = empty_set fs - set ys"
      "file_chain g (root_block (im fs ! i)) (?xs @ ys)" "content g (?xs @ ys) = content fs ?xs @ dat"
    using n il ch len fits by (auto simp: append_to_def avail_def)
  note f = frame_simps [OF g(3)]
  have us: "used_set g = used_set fs" by (simp add: used_set_def f)
  have bi: "blocks_of g i = ?xs @ ys" using g(3,6) by (rule frame_blocks_of)
  have lx: "?l \<in> set ?xs" using ch by (simp add: file_chain_def)
  have other: "file_chain g (root_block (im fs ! j)) (blocks_of fs j) \<and> content g (blocks_of fs j) = content fs (blocks_of fs j) \<and>
      blocks_of g j = blocks_of fs j" if j: "j \<in> used_set fs" "j \<noteq> i" for j
  proof -
    let ?js = "blocks_of fs j"
    have cj: "file_chain fs (root_block (im fs ! j)) ?js" using tree j by (simp add: tree_ok_def)
    have dl: "?l \<notin> set ?js" using tree i j lx by (auto simp: tree_ok_def)
    have dy: "b \<notin> set ys" if "b \<in> set ?js" for b
      using used_block [OF tree j(1) that] g(4) by (auto simp: block_in_def empty_set_def)
    have B: "set ?js \<inter> insert ?l (set ys) = {}" using dl dy by blast
    have P: "region (sblock fs) b 0 \<inter> (region (sblock fs) ?l ?k \<union> bodies (sblock fs) (set ys)) = {}" if "b \<in> set ?js" for b
    proof -
      have "b \<noteq> ?l" "b \<notin> set ys" using that dl dy by auto
      then show ?thesis
        using region_disjoint [of b ?l "sblock fs" 0 ?k] bodies_disjoint [of b "set ys" "sblock fs" 0] by blast
    qed
    note fc = frame_chain [OF g(3) cj B P]
    show ?thesis using fc frame_blocks_of [OF g(3) fc(1)] by simp
  qed
  have tree': "tree_ok g"
    unfolding tree_ok_def us
  proof (intro conjI ballI impI)
    show "blocks_ok g" by (rule g(2))
    show "file_chain g (root_block (im g ! j)) (blocks_of g j)" if "j \<in> used_set fs" for j
      using that other [of j] g(6) bi f(1) by (cases "j = i") auto
    show "set (blocks_of g j) \<inter> set (blocks_of g k) = {}" if "j \<in> used_set fs" "k \<in> used_set fs" "j \<noteq> k" for j k
    proof -
      have free: "set (blocks_of fs m) \<inter> set ys = {}" if "m \<in> used_set fs" for m
        using used_block [OF tree that] g(4) by (auto simp: block_in_def empty_set_def)
      have "set (blocks_of fs j) \<inter> set (blocks_of fs k) = {}" using tree that by (simp add: tree_ok_def)
      with that other [of j] other [of k] bi free [of j] free [of k]
      show ?thesis by (cases "j = i"; cases "k = i") auto
    qed
  qed
  have "same_but (\<Union>b. region (sblock fs) b 0) (fd fs) (fd g)"
    by (rule same_but_mono [OF frame_disk [OF g(3)]]) (use region_subset [of "sblock fs" "last (blocks_of fs i)"] in \<open>auto simp: bodies_def\<close>)
  then have st: "same_tables fs g" by (simp add: same_tables_def f)
  have cont: "bytes_of g i = bytes_of fs i @ dat" using g(7) bi by (simp add: bytes_of_def)
  have "free_blocks h = card (empty_set h)" for h
    by (simp add: free_blocks_def length_filter_conv_card empty_set_def)
  moreover have "card (empty_set g) + length ys = card (empty_set fs)"
  proof -
    have fin: "finite (empty_set fs)" by (simp add: empty_set_def)
    have "distinct ys" using g(6) by (simp add: file_chain_def)
    then have "card (set ys) = length ys" by (rule distinct_card)
    with card_Diff_subset [of "set ys" "empty_set fs"] card_mono [OF fin g(4)] g(4,5) show ?thesis by simp
  qed
  ultimately have fb: "free_blocks g + length ys = free_blocks fs" by simp
  have "file_chain g (root_block (im g ! i)) (blocks_of g i)" using g(6) bi f(1) by simp
  from avail_eq [OF this] have "avail g i + (length (bytes_of fs i) + length dat) =
      bsz fs * (length ?xs + length ys + free_blocks g)"
    by (simp only: cont bi f(3) length_append)
  moreover have "length ?xs + length ys + free_blocks g = length ?xs + free_blocks fs" using fb by simp
  ultimately have "avail g i + (length (bytes_of fs i) + length dat) = avail fs i + length (bytes_of fs i)"
    using avail_eq [OF ch] by (simp only:)
  then show ?thesis using g(1) tree' us st cont other by (intro exI [of _ g]) (auto simp: bytes_of_def)
qed

lemma append_to_full:
  assumes tree: "tree_ok fs" and i: "i \<in> used_set fs" and len: "length dat < 4294967296"
    and no: "avail fs i < length dat"
  shows "\<exists>d. append_to i dat fs = Inl (Exit (-1), d) \<and> kept_disk fs d"
proof -
  let ?xs = "blocks_of fs i"
  have ok: "blocks_ok fs" and il: "i < length (im fs)" using tree i by (auto simp: tree_ok_def used_set_def)
  then have n: "nat (uint (of_nat i :: u32)) = i" by (intro of_nat_inode [of i fs]) (auto simp: blocks_ok_def)
  have ch: "file_chain fs (root_block (im fs ! i)) ?xs" using tree i by (simp add: tree_ok_def)
  from append_data_full [OF ok, of "of_nat i" ?xs dat] obtain d where
    d: "append_to i dat fs = Inl (Exit (-1), d)"
      "same_but (region (sblock fs) (last ?xs) (unat (b_size (bm fs ! last ?xs))) \<union>
        bodies (sblock fs) (empty_set fs)) (fd fs) d"
    using n il ch len no by (auto simp: append_to_def avail_def)
  have "kept_disk fs d"
    unfolding kept_disk_def
    by (rule same_but_mono [OF d(2)]) (use recorded_disjoint [OF tree i] in blast)
  with d(1) show ?thesis by blast
qed

lemma same_tables_trans: "same_tables fs fs1 \<Longrightarrow> same_tables fs1 fs2 \<Longrightarrow> same_tables fs fs2"
proof -
  assume a: "same_tables fs fs1" "same_tables fs1 fs2"
  then have "body_pos (sblock fs1) = body_pos (sblock fs)"
    using body_pos_cong [of "sblock fs1" "sblock fs"] by (simp add: same_tables_def)
  then have "region (sblock fs1) = region (sblock fs)" by (simp add: region_def fun_eq_iff)
  with a show ?thesis by (auto simp: same_tables_def intro: same_but_trans)
qed

interpretation st: byte_store tree_ok used_set bytes_of avail append_to same_tables kept_disk
proof (unfold_locales, goal_cases)
  case (1 s i dat)
  then show ?case by (rule append_to_ok)
next
  case (2 s i dat)
  then show ?case by (rule append_to_full)
next
  case (3 s s' s'')
  then show ?case by (rule same_tables_trans)
qed

end
