(* ===== verification/Commands.thy ===== *)
theory Commands
  imports Fs_Core
begin

text \<open>
  The commands of internal/commands/execute.c on a session: the file system, the lines that
  \<open>readline\<close> will still return (\<open>None\<close> is the end of the input) and what was written to the
  standard output and the standard error so far. \<open>s_stray\<close> counts the loads outside \<open>block_map\<close> that
  \<open>read\<close> makes and whose value it does not use: they are undefined in C and have no effect here. The
  tokens of the command line are strings, the command's own name first.
\<close>

record session =
  s_fs :: Filesystem
  s_in :: "string option list"
  s_out :: string
  s_err :: string
  s_stray :: nat

definition out :: "string \<Rightarrow> session \<Rightarrow> session" where
  "out str s = s\<lparr>s_out := s_out s @ str\<rparr>"

definition err :: "string \<Rightarrow> session \<Rightarrow> session" where
  "err str s = s\<lparr>s_err := s_err s @ str\<rparr>"

definition strayed :: "session \<Rightarrow> session" where
  "strayed s = s\<lparr>s_stray := Suc (s_stray s)\<rparr>"

abbreviation sdisk :: "session \<Rightarrow> disk" where
  "sdisk s \<equiv> fd (s_fs s)"

text \<open>A step on the file system within a session.\<close>

definition on_fs :: "(Filesystem \<Rightarrow> Filesystem fres) \<Rightarrow> session \<Rightarrow> session fres" where
  "on_fs f s = rbind (f (s_fs s)) (\<lambda>fs. Inr (s\<lparr>s_fs := fs\<rparr>))"

text \<open>The test \<open>strcmp(a, b) == 0\<close> of a token and a name of 27 bytes.\<close>

definition name_is :: "Filesystem \<Rightarrow> string \<Rightarrow> char list \<Rightarrow> bool fres" where
  "name_is fs token name = need (OutOfBounds, fd fs) (strcmp0 (token @ [NUL]) name)"

text \<open>The entries of a directory map, with their index.\<close>

definition rows :: "DirectoryMap \<Rightarrow> (nat \<times> char list \<times> u32 \<times> char) list" where
  "rows m = zip [0..<length (names m)] (zip (names m) (zip (inodes m) (used m)))"

text \<open>Decimal output of \<open>printf\<close>.\<close>

fun digits :: "nat \<Rightarrow> string" where
  "digits n = (if n < 10 then [char_of (48 + n)] else digits (n div 10) @ [char_of (48 + n mod 10)])"

declare digits.simps [simp del]

definition show_u32 :: "u32 \<Rightarrow> string" where
  "show_u32 w = digits (unat w)"

definition show_int :: "int \<Rightarrow> string" where
  "show_int i = (if i < 0 then CHR ''-'' # digits (nat (- i)) else digits (nat i))"

definition blue :: "string \<Rightarrow> string" where
  "blue str = CHR 0x1B # ''[34m'' @ str @ CHR 0x1B # ''[0m''"

abbreviation newline :: string where
  "newline \<equiv> [CHR 0x0A]"


section \<open>ls and cd\<close>

fun ls_loop :: "(nat \<times> char list \<times> u32 \<times> char) list \<Rightarrow> session \<Rightarrow> session fres" where
  "ls_loop [] s = Inr s"
| "ls_loop ((index, name, i, u) # rs) s =
     rbind (get_inode (s_fs s) (uint i)) (\<lambda>inode.
     if u = NUL then ls_loop rs s
     else if i_type inode = MINIFS_INODE_DIRECTORY then
       rbind (need (OutOfBounds, sdisk s) (c_str name)) (\<lambda>str. ls_loop rs (out (blue str @ '' '') s))
     else if i_type inode = MINIFS_INODE_FILE then
       rbind (need (OutOfBounds, sdisk s) (c_str name)) (\<lambda>str. ls_loop rs (out (str @ '' '') s))
     else ls_loop rs s)"

definition minifs_ls :: "string list \<Rightarrow> session \<Rightarrow> session fres" where
  "minifs_ls data s =
     rbind (minifs_read_dir (s_fs s) (current_dir (s_fs s))) (\<lambda>content.
     rbind (ls_loop (rows content) (out (blue ''.'' @ '' '' @ blue ''..'' @ '' '') s)) (\<lambda>s.
     Inr (out newline s)))"

text \<open>The loop of \<open>cd\<close>: the inode of the first directory entry with the name.\<close>

fun cd_loop :: "Filesystem \<Rightarrow> string \<Rightarrow> (nat \<times> char list \<times> u32 \<times> char) list \<Rightarrow> u32 option fres" where
  "cd_loop fs token [] = Inr None"
| "cd_loop fs token ((index, name, i, u) # rs) =
     rbind (get_inode fs (uint i)) (\<lambda>inode.
     if i_type inode = MINIFS_INODE_DIRECTORY then
       rbind (name_is fs token name) (\<lambda>eq. if eq then Inr (Some i) else cd_loop fs token rs)
     else cd_loop fs token rs)"

definition minifs_cd :: "string list \<Rightarrow> session \<Rightarrow> session fres" where
  "minifs_cd data s =
     (let fs = s_fs s in
      if length data < 2 then Inr (err (''format: '' @ data ! 0 @ '' <dirname>'' @ newline) s)
      else if data ! 1 = ''.'' then Inr s
      else if data ! 1 = ''..'' then
        rbind (get_inode fs (uint (current_dir fs))) (\<lambda>c_inode.
        Inr (s\<lparr>s_fs := fs\<lparr>current_dir := of_int (parent c_inode)\<rparr>\<rparr>))
      else
        rbind (minifs_read_dir fs (current_dir fs)) (\<lambda>content.
        rbind (cd_loop fs (data ! 1) (rows content)) (\<lambda>found.
        case found of
          Some i \<Rightarrow> Inr (s\<lparr>s_fs := fs\<lparr>current_dir := i\<rparr>\<rparr>)
        | None \<Rightarrow> Inr (err (''directory not found'' @ newline) s))))"


section \<open>mkdir and touch\<close>

text \<open>
  \<open>memset\<close> and \<open>snprintf(buffer, 27, "%s", name)\<close>: at most 26 characters, then zero bytes.
\<close>

definition name_field :: "string \<Rightarrow> char list" where
  "name_field str =
     (let n = unat MAX_FILENAME_SIZE; kept = take (n - 1) str in kept @ replicate (n - length kept) NUL)"

text \<open>The three appends of an entry, \<open>used\<close>, the name and the inode, and the update.\<close>

definition append_entry :: "char list \<Rightarrow> int \<Rightarrow> Filesystem \<Rightarrow> Filesystem fres" where
  "append_entry buffer inode_index fs =
     rbind (minifs_append_data fs (current_dir fs) [CHR 0x01] 1) (\<lambda>fs.
     rbind (minifs_append_data fs (current_dir fs) buffer MAX_FILENAME_SIZE) (\<lambda>fs.
     minifs_append_data fs (current_dir fs) (le32 (of_int inode_index)) 4))"

text \<open>
  \<open>mkdir\<close> and \<open>touch\<close> differ in the type and the parent they store: the rest of their text is
  this function of the two.
\<close>

definition make_inode :: "u32 \<Rightarrow> (Filesystem \<Rightarrow> int) \<Rightarrow> string \<Rightarrow> session \<Rightarrow> session fres" where
  "make_inode ty par name s =
     (if length name > unat MAX_FILENAME_SIZE then Inr (err (''filename is too long'' @ newline) s)
      else
        let fs = s_fs s;
            inode_index = minifs_find_free_inode fs;
            block_index = minifs_find_free_block fs in
        if inode_index < 0 then Inr (err (''Ran out of free inodes'' @ newline) s)
        else if block_index < 0 then Inr (err (''Ran out of free blocks'' @ newline) s)
        else
          on_fs (\<lambda>fs.
            rbind (upd_inode fs inode_index
              (\<lambda>i. \<lparr>i_size = 0, root_block = block_index, parent = par fs, i_type = ty\<rparr>)) (\<lambda>fs.
            rbind (upd_block fs block_index
              (\<lambda>b. \<lparr>next_block = -1, b_size = 0, b_type = MINIFS_BLOCK_USED\<rparr>)) (\<lambda>fs.
            let fs = add_used_blocks 1 (add_used_inodes 1 fs) in
            rbind (upd_inode fs (uint (current_dir fs)) (\<lambda>i. i\<lparr>i_size := i_size i + 1\<rparr>)) (\<lambda>fs.
            rbind (append_entry (name_field name) inode_index fs) minifs_update_superblock)))) s)"

definition minifs_mkdir :: "string list \<Rightarrow> session \<Rightarrow> session fres" where
  "minifs_mkdir data s =
     (if length data < 2 then Inr (err (''format: '' @ data ! 0 @ '' <dirname>'' @ newline) s)
      else make_inode MINIFS_INODE_DIRECTORY (\<lambda>fs. sint (current_dir fs)) (data ! 1) s)"

definition minifs_touch :: "string list \<Rightarrow> session \<Rightarrow> session fres" where
  "minifs_touch data s =
     (if length data < 2 then Inr (err (''format: '' @ data ! 0 @ '' <filename>'' @ newline) s)
      else make_inode MINIFS_INODE_FILE (\<lambda>fs. -1) (data ! 1) s)"


section \<open>rmdir and rm\<close>

text \<open>
  The loop over the entries: each entry of the type with the name is marked as unused on the
  disk; the last one decides which inode goes.
\<close>

fun unlink_loop ::
  "u32 \<Rightarrow> string \<Rightarrow> (nat \<times> char list \<times> u32 \<times> char) list \<Rightarrow> int \<Rightarrow> Filesystem \<Rightarrow> (int \<times> Filesystem) fres"
  where
  "unlink_loop ty token [] target fs = Inr (target, fs)"
| "unlink_loop ty token ((index, name, i, u) # rs) target fs =
     rbind (get_inode fs (uint i)) (\<lambda>inode.
     if i_type inode = ty then
       rbind (name_is fs token name) (\<lambda>eq.
       if eq then
         rbind (minifs_remove_from_dir fs (current_dir fs) (of_nat index)) (\<lambda>fs.
         unlink_loop ty token rs (sint i) fs)
       else unlink_loop ty token rs target fs)
     else unlink_loop ty token rs target fs)"

text \<open>
  The loop that releases the blocks of a chain. It clears \<open>next_block\<close> as it goes, so that it
  ends on a cycle as well.
\<close>

definition links :: "Filesystem \<Rightarrow> nat" where
  "links fs = length (filter (\<lambda>b. next_block b > 0) (block_map (sblock fs)))"

function release_chain :: "int \<Rightarrow> Filesystem \<Rightarrow> Filesystem fres" where
  "release_chain current_block fs =
     (if current_block > 0 then
        rbind (get_block fs current_block) (\<lambda>b.
        rbind (upd_block fs current_block (\<lambda>b. zero_Block)) (\<lambda>fs.
        release_chain (next_block b) (add_used_blocks (-1) fs)))
      else Inr fs)"
  by pat_completeness auto
termination
proof (relation "measure (\<lambda>(cur, fs). 2 * links fs + (if cur > 0 then 1 else 0))", goal_cases)
  case 1
  show ?case by simp
next
  case (2 cur fs b fs')
  from 2 have b: "nat cur < length (block_map (sblock fs))" "b = block_map (sblock fs) ! nat cur"
      "fs' = put_block fs (nat cur) zero_Block"
    by (auto simp: get_block_def upd_block_def split: if_splits)
  have l: "links (add_used_blocks (-1) fs') =
      length (filter (\<lambda>b. next_block b > 0) ((block_map (sblock fs))[nat cur := zero_Block]))"
    using b by (simp add: links_def put_block_def add_used_blocks_def)
  show ?case
  proof (cases "next_block b > 0")
    case True
    have "length (filter (\<lambda>b. next_block b > 0) ((block_map (sblock fs))[nat cur := zero_Block])) < links fs"
      using b True unfolding links_def by (intro filter_update_less) (auto simp: zero_Block_def)
    with l 2 show ?thesis by simp
  next
    case False
    have "length (filter (\<lambda>b. next_block b > 0) ((block_map (sblock fs))[nat cur := zero_Block])) = links fs"
      using b False unfolding links_def by (intro filter_update_same) (auto simp: zero_Block_def)
    with l 2 False show ?thesis by simp
  qed
qed

declare release_chain.simps [simp del]

definition release_inode :: "int \<Rightarrow> Filesystem \<Rightarrow> Filesystem fres" where
  "release_inode target_inode fs =
     rbind (get_inode fs target_inode) (\<lambda>inode.
     rbind (release_chain (root_block inode) fs) (\<lambda>fs.
     rbind (upd_inode fs target_inode (\<lambda>i. zero_Inode)) (\<lambda>fs.
     minifs_update_superblock (add_used_inodes (-1) fs))))"

definition minifs_rmdir :: "string list \<Rightarrow> session \<Rightarrow> session fres" where
  "minifs_rmdir data s =
     (if length data < 2 then Inr (err (''format: '' @ data ! 0 @ '' <dirname>'') s)
      else
        rbind (minifs_read_dir (s_fs s) (current_dir (s_fs s))) (\<lambda>content.
        rbind (unlink_loop MINIFS_INODE_DIRECTORY (data ! 1) (rows content) (-1) (s_fs s)) (\<lambda>(target_inode, fs).
        let s = s\<lparr>s_fs := fs\<rparr> in
        if target_inode = -1 then Inr (err (''no such directory'' @ newline) s)
        else on_fs (release_inode target_inode) s)))"

definition minifs_rm :: "string list \<Rightarrow> session \<Rightarrow> session fres" where
  "minifs_rm data s =
     (if length data < 2 then Inr (err (''format: '' @ data ! 0 @ '' <filename>'') s)
      else
        rbind (minifs_read_dir (s_fs s) (current_dir (s_fs s))) (\<lambda>content.
        rbind (unlink_loop MINIFS_INODE_FILE (data ! 1) (rows content) (-1) (s_fs s)) (\<lambda>(target_inode, fs).
        let s = s\<lparr>s_fs := fs\<rparr> in
        if target_inode = -1 then Inr (err (''no such file'' @ newline) s)
        else
          on_fs (\<lambda>fs.
            rbind (minifs_remove_from_dir fs (current_dir fs) (of_int target_inode)) (\<lambda>fs.
            release_inode target_inode fs)) s)))"


section \<open>write and read\<close>

text \<open>The inode of the last entry of a file with the name, -1 when there is none.\<close>

fun find_file :: "Filesystem \<Rightarrow> string \<Rightarrow> (nat \<times> char list \<times> u32 \<times> char) list \<Rightarrow> int \<Rightarrow> int fres" where
  "find_file fs token [] target = Inr target"
| "find_file fs token ((index, name, i, u) # rs) target =
     rbind (get_inode fs (uint i)) (\<lambda>inode.
     if i_type inode = MINIFS_INODE_FILE then
       rbind (name_is fs token name) (\<lambda>eq. find_file fs token rs (if eq then sint i else target))
     else find_file fs token rs target)"

text \<open>
  \<open>write\<close> calls \<open>strlen\<close> on the line it has just released; \<open>after_free\<close> is what that call
  returns, cut to 32 bits.
\<close>

definition minifs_write :: "(string \<Rightarrow> u32) \<Rightarrow> string list \<Rightarrow> session \<Rightarrow> session fres" where
  "minifs_write after_free data s =
     (if length data < 2 then Inr (err (''format: '' @ data ! 0 @ '' <filename>'') s)
      else
        rbind (minifs_read_dir (s_fs s) (current_dir (s_fs s))) (\<lambda>content.
        rbind (find_file (s_fs s) (data ! 1) (rows content) (-1)) (\<lambda>target_inode.
        if target_inode = -1 then Inr (err (''No such file'' @ newline) s)
        else
          (case s_in s of
             [] \<Rightarrow> Inl (Waits, sdisk s)
           | line # ls \<Rightarrow>
               let s = s\<lparr>s_in := ls, s_out := s_out s @ ''Enter data: ''\<rparr> in
               rbind (need (NullDeref, sdisk s) line) (\<lambda>input.
               on_fs (\<lambda>fs.
                 rbind (minifs_append_data fs (of_int target_inode) input (of_nat (length input))) (\<lambda>fs.
                 rbind (upd_inode fs target_inode (\<lambda>i. i\<lparr>i_size := i_size i + after_free input\<rparr>)) (\<lambda>fs.
                 minifs_update_superblock fs))) s)))))"

definition minifs_read :: "string list \<Rightarrow> session \<Rightarrow> session fres" where
  "minifs_read data s =
     (if length data < 2 then Inr (err (''format: '' @ data ! 0 @ '' <filename>'') s)
      else
        rbind (minifs_read_dir (s_fs s) (current_dir (s_fs s))) (\<lambda>content.
        rbind (find_file (s_fs s) (data ! 1) (rows content) (-1)) (\<lambda>target_inode.
        if target_inode = -1 then Inr (err (''No such file'' @ newline) s)
        else
          rbind (minifs_read_data (s_fs s) target_inode) (\<lambda>(file_content, dsize, stray).
          if nat dsize \<le> length file_content then
            Inr (out (take (nat dsize) file_content @ newline) (if stray then strayed s else s))
          else Inl (Uninit, sdisk s)))))"

end
