(* ===== verification/Utils.thy ===== *)
theory Utils
  imports Words
begin

text \<open>
  \<open>split_line\<close> and \<open>free_lines\<close> of internal/utils/utils.c, and the proof that the tokens are the
  words of the line. A token is the memory of its copy, the terminator included. The number of
  blocks taken by \<open>malloc\<close> and released by \<open>free\<close> is part of the results.
\<close>

text \<open>The white space of the C locale.\<close>

definition isspace :: "char \<Rightarrow> bool" where
  "isspace c \<longleftrightarrow> c \<in> {CHR '' '', CHR 0x09, CHR 0x0A, CHR 0x0B, CHR 0x0C, CHR 0x0D}"

text \<open>\<^verbatim>\<open>while (isspace(*data)) ++data;\<close>\<close>

function skip_white :: "char list \<Rightarrow> nat \<Rightarrow> nat res" where
  "skip_white dat pos =
     (if pos < length dat then if isspace (dat ! pos) then skip_white dat (Suc pos) else Inr pos
      else Inl OutOfBounds)"
  by pat_completeness auto
termination
  by (relation "measure (\<lambda>(dat, pos). length dat - pos)") auto

declare skip_white.simps [simp del]

text \<open>The loop over the tokens: \<open>n\<close> are still to be copied, the pointer is at \<open>pos\<close>.\<close>

fun line_tokens :: "nat \<Rightarrow> char list \<Rightarrow> nat \<Rightarrow> char list list res" where
  "line_tokens 0 dat pos = Inr []"
| "line_tokens (Suc n) dat pos =
     rbind (skip_white dat pos) (\<lambda>begin.
     rbind (scan_word isspace dat begin) (\<lambda>pos.
     rbind (line_tokens n dat pos) (\<lambda>ts.
     Inr ((take (pos - begin) (drop begin dat) @ [NUL]) # ts))))"

text \<open>
  \<open>None\<close> as input is a null pointer, which is what \<open>readline\<close> returns at the end of the input.
  The result is the array (\<open>None\<close> for null), the count and the number of blocks taken.
\<close>

definition split_line :: "char list option \<Rightarrow> (char list list option \<times> nat \<times> nat) res" where
  "split_line memory =
     rbind (need NullDeref memory) (\<lambda>dat.
     rbind (need OutOfBounds (c_str dat)) (\<lambda>str.
     let len = length str in
     if len = 0 then Inr (None, 0, 0)
     else
       let count = count_ends isspace dat len 1 0;
           count = (if \<not> isspace (dat ! (len - 1)) then Suc count else count) in
       rbind (line_tokens count dat 0) (\<lambda>result. Inr (Some result, count, Suc count))))"

text \<open>The number of blocks released; \<open>free\<close> of a null pointer does nothing.\<close>

fun free_lines :: "char list list option \<Rightarrow> nat \<Rightarrow> nat res" where
  "free_lines None count = (if count = 0 then Inr 0 else Inl NullDeref)"
| "free_lines (Some lines) count = (if count \<le> length lines then Inr (Suc count) else Inl OutOfBounds)"


section \<open>The tokens are the words\<close>

lemma not_space_NUL [simp]: "\<not> isspace NUL"
  by (simp add: isspace_def)

lemma skip_white_run:
  "\<forall>c\<in>set b. isspace c \<Longrightarrow> r \<noteq> [] \<Longrightarrow> \<not> isspace (hd r) \<Longrightarrow>
    skip_white (l @ b @ r) (length l) = Inr (length l + length b)"
proof (induction b arbitrary: l)
  case Nil
  then show ?case by (subst skip_white.simps) (auto simp: nth_append hd_conv_nth)
next
  case (Cons c b)
  have "skip_white ((l @ [c]) @ b @ r) (length (l @ [c])) = Inr (length (l @ [c]) + length b)"
    using Cons.prems by (intro Cons.IH) auto
  with Cons.prems show ?case by (subst skip_white.simps) simp
qed

lemma line_tokens_words:
  "NUL \<notin> set s \<Longrightarrow>
    line_tokens (length (words isspace s)) (l @ s @ NUL # e) (length l) =
      Inr (map (\<lambda>w. w @ [NUL]) (words isspace s))"
proof (induction s arbitrary: l rule: line_induct [where sp = isspace])
  case (blank s)
  then show ?case by (simp add: words_blank)
next
  case (word b w r)
  let ?dat = "l @ (b @ w @ r) @ NUL # e"
  have w0: "\<not> isspace (hd w)" using word.hyps by (cases w) auto
  have ws: "words isspace (b @ w @ r) = w # words isspace r"
    using word.hyps by (simp add: words_split)
  have skip: "skip_white ?dat (length l) = Inr (length l + length b)"
    using skip_white_run [of b "w @ r @ NUL # e" l] word.hyps w0 by simp
  have "scan_word isspace ((l @ b) @ w @ (r @ NUL # e)) (length (l @ b)) = Inr (length (l @ b) + length w)"
    using word.hyps word.prems by (intro scan_word_run) (auto simp: hd_append)
  then have scan: "scan_word isspace ?dat (length l + length b) = Inr (length l + length b + length w)"
    by simp
  have "line_tokens (length (words isspace r)) ((l @ b @ w) @ r @ NUL # e) (length (l @ b @ w)) =
      Inr (map (\<lambda>w. w @ [NUL]) (words isspace r))"
    using word.prems by (intro word.IH) auto
  then have rest: "line_tokens (length (words isspace r)) ?dat (length l + length b + length w) =
      Inr (map (\<lambda>w. w @ [NUL]) (words isspace r))"
    by (simp add: add.assoc)
  from ws skip scan rest show ?case by simp
qed

lemma split_line_words:
  assumes "NUL \<notin> set s"
  shows "split_line (Some (s @ NUL # e)) =
    Inr (if s = [] then (None, 0, 0)
         else (Some (map (\<lambda>w. w @ [NUL]) (words isspace s)), length (words isspace s),
           Suc (length (words isspace s))))"
proof (cases "s = []")
  case True
  then show ?thesis by (simp add: split_line_def)
next
  case False
  have "(let count = count_ends isspace (s @ NUL # e) (length s) 1 0 in
      if \<not> isspace ((s @ NUL # e) ! (length s - 1)) then Suc count else count) = length (words isspace s)"
    using count_ends_words_nth [OF False, of isspace "NUL # e"] by (simp add: Let_def split: if_splits)
  with False line_tokens_words [OF assms, of "[]" e] show ?thesis
    by (simp add: split_line_def c_str_append [OF assms] Let_def)
qed

text \<open>What a command gets to see: the tokens as strings.\<close>

definition token_strings :: "char list list option \<Rightarrow> string list" where
  "token_strings lines = (case lines of None \<Rightarrow> [] | Some ls \<Rightarrow> map (\<lambda>l. the (c_str l)) ls)"

lemma token_strings_words:
  assumes "NUL \<notin> set s"
  shows "token_strings (Some (map (\<lambda>w. w @ [NUL]) (words isspace s))) = words isspace s"
proof -
  have "the (c_str (w @ [NUL])) = w" if "w \<in> set (words isspace s)" for w
  proof -
    have "NUL \<notin> set w" using words_chars [OF that] assms by blast
    then show ?thesis using c_str_append [of w "[]"] by simp
  qed
  then show ?thesis by (simp add: token_strings_def map_idI)
qed

end
