(* ===== verification/Shell.thy ===== *)
theory Shell
  imports Commands Utils
begin

text \<open>
  The rest of internal/commands/execute.c, the dispatch over the table of commands, and
  src/main.c: opening the file system and the loop that reads and executes lines.
\<close>


section \<open>help, exit and debug\<close>

type_synonym command = "string list \<Rightarrow> session \<Rightarrow> session fres"

text \<open>\<open>printf("%s\t - %s\n", name, description)\<close> for each line of the table.\<close>

definition help_text :: "(string \<times> string) list \<Rightarrow> string" where
  "help_text cs = ''Command list:'' @ newline @
     concat (map (\<lambda>(name, description). name @ CHR 0x09 # '' - '' @ description @ newline) cs)"

definition minifs_help :: "(string \<times> string) list \<Rightarrow> command" where
  "minifs_help cs data s = Inr (out (help_text cs) s)"

definition minifs_exit :: command where
  "minifs_exit data s = Inl (Exit 0, sdisk s)"

text \<open>A cell of an array of symbols that is indexed by an enumeration.\<close>

definition symbol :: "disk \<Rightarrow> string \<Rightarrow> u32 \<Rightarrow> char fres" where
  "symbol d symbols ty = (if unat ty < length symbols then Inr (symbols ! unat ty) else Inl (OutOfBounds, d))"

fun symbols_text :: "disk \<Rightarrow> string \<Rightarrow> u32 list \<Rightarrow> string fres" where
  "symbols_text d symbols [] = Inr []"
| "symbols_text d symbols (ty # tys) =
     rbind (symbol d symbols ty) (\<lambda>c. rbind (symbols_text d symbols tys) (\<lambda>cs. Inr (c # cs)))"

definition inode_text :: "Inode \<Rightarrow> string" where
  "inode_text i =
     (if i_type i \<noteq> MINIFS_INODE_EMPTY then
        ''Inode {size: '' @ show_u32 (i_size i) @ '', root_block '' @ show_int (root_block i) @
        '', type: '' @ show_int (sint (i_type i)) @ ''}'' @ newline
      else [])"

definition block_text :: "Block \<Rightarrow> string" where
  "block_text b =
     (if b_type b \<noteq> MINIFS_BLOCK_EMPTY then
        ''Block {size: '' @ show_u32 (b_size b) @ '', next_block: '' @ show_int (next_block b) @ ''}'' @ newline
      else [])"

definition minifs_debug :: command where
  "minifs_debug data s =
     (let sb = sblock (s_fs s) in
      rbind (symbols_text (sdisk s) ''.fd'' (map i_type (inode_map sb))) (\<lambda>is.
      rbind (symbols_text (sdisk s) ''.#'' (map b_type (block_map sb))) (\<lambda>bs.
      Inr (out
        (''====== [Superblock] ======'' @ newline @
         ''inode_count: '' @ show_u32 (inode_count sb) @ newline @
         ''block_count: '' @ show_u32 (block_count sb) @ newline @
         ''used_inode_count: '' @ show_u32 (used_inode_count sb) @ newline @
         ''used_block_count: '' @ show_u32 (used_block_count sb) @ newline @
         ''block_size: '' @ show_u32 (block_size sb) @ newline @
         ''===== [Inode map] ======'' @ newline @ is @ newline @
         ''===== [Block map] ======'' @ newline @ bs @ newline @
         ''===== [Inodes] ====== '' @ newline @ concat (map inode_text (inode_map sb)) @
         ''===== [Blocks] ====== '' @ newline @ concat (map block_text (block_map sb))) s))))"


section \<open>The table of commands\<close>

definition command_texts :: "(string \<times> string) list" where
  "command_texts =
    [(''cd'', ''change directory''), (''ls'', ''list directory''), (''mkdir'', ''create directory''),
     (''rmdir'', ''remove directory''), (''touch'', ''create file''), (''rm'', ''remove file''),
     (''write'', ''write to file''), (''read'', ''read from file''), (''help'', ''print help menu''),
     (''exit'', ''quit minifs''), (''debug'', ''debug fs'')]"

definition commands :: "(string \<Rightarrow> u32) \<Rightarrow> (string \<times> command) list" where
  "commands after_free = zip (map fst command_texts)
     [minifs_cd, minifs_ls, minifs_mkdir, minifs_rmdir, minifs_touch, minifs_rm,
      minifs_write after_free, minifs_read, minifs_help command_texts, minifs_exit, minifs_debug]"

text \<open>The dispatch: the first command of the table with the name; no command, no effect.\<close>

definition minifs_execute :: "(string \<Rightarrow> u32) \<Rightarrow> command" where
  "minifs_execute after_free data s =
     (if length data \<le> 0 then Inr s
      else case find_first (\<lambda>c. fst c = data ! 0) (commands after_free) of
             Some index \<Rightarrow> snd (commands after_free ! index) data s
           | None \<Rightarrow> Inr s)"


section \<open>What a command may change\<close>

text \<open>The lines still to be read: only \<open>write\<close> takes one.\<close>

lemma out_in [simp]: "s_in (out str s) = s_in s"
  by (simp add: out_def)

lemma err_in [simp]: "s_in (err str s) = s_in s"
  by (simp add: err_def)

lemma out_fs [simp]: "s_fs (out str s) = s_fs s"
  by (simp add: out_def)

lemma err_fs [simp]: "s_fs (err str s) = s_fs s"
  by (simp add: err_def)

lemma strayed_simps [simp]:
  "s_in (strayed s) = s_in s" "s_fs (strayed s) = s_fs s" "s_out (strayed s) = s_out s" "s_err (strayed s) = s_err s"
  "s_stray (strayed s) = Suc (s_stray s)"
  by (simp_all add: strayed_def)

lemma on_fs_in: "on_fs f s = Inr s' \<Longrightarrow> s_in s' = s_in s"
  by (auto simp: on_fs_def res_simps)

lemma ls_loop_in: "ls_loop rs s = Inr s' \<Longrightarrow> s_in s' = s_in s \<and> s_fs s' = s_fs s"
proof (induction rs arbitrary: s)
  case Nil
  then show ?case by simp
next
  case (Cons r rs)
  obtain index name i u where "r = (index, name, i, u)" by (cases r) auto
  with Cons.prems show ?case
    by (auto simp: res_simps split: if_splits dest!: Cons.IH)
qed

lemma minifs_ls_in: "minifs_ls data s = Inr s' \<Longrightarrow> s_in s' = s_in s \<and> s_fs s' = s_fs s"
  by (auto simp: minifs_ls_def res_simps dest!: ls_loop_in)

lemma minifs_cd_in: "minifs_cd data s = Inr s' \<Longrightarrow> s_in s' = s_in s"
  by (auto simp: minifs_cd_def Let_def res_simps split: if_splits option.splits)

lemma make_inode_in: "make_inode ty par name s = Inr s' \<Longrightarrow> s_in s' = s_in s"
  by (auto simp: make_inode_def Let_def split: if_splits dest: on_fs_in)

lemma minifs_mkdir_in: "minifs_mkdir data s = Inr s' \<Longrightarrow> s_in s' = s_in s"
  by (cases "length data < 2") (auto simp: minifs_mkdir_def intro: make_inode_in)

lemma minifs_touch_in: "minifs_touch data s = Inr s' \<Longrightarrow> s_in s' = s_in s"
  by (cases "length data < 2") (auto simp: minifs_touch_def intro: make_inode_in)

lemma minifs_rmdir_in: "minifs_rmdir data s = Inr s' \<Longrightarrow> s_in s' = s_in s"
  by (auto simp: minifs_rmdir_def Let_def res_simps split: if_splits dest!: on_fs_in)

lemma minifs_rm_in: "minifs_rm data s = Inr s' \<Longrightarrow> s_in s' = s_in s"
  by (auto simp: minifs_rm_def Let_def res_simps split: if_splits dest!: on_fs_in)

lemma minifs_write_in: "minifs_write af data s = Inr s' \<Longrightarrow> length (s_in s') \<le> length (s_in s)"
  by (auto simp: minifs_write_def Let_def res_simps split: if_splits list.splits dest!: on_fs_in)

lemma minifs_read_in: "minifs_read data s = Inr s' \<Longrightarrow> s_in s' = s_in s"
  by (auto simp: minifs_read_def Let_def res_simps split: if_splits)

lemma minifs_debug_in: "minifs_debug data s = Inr s' \<Longrightarrow> s_in s' = s_in s"
  by (auto simp: minifs_debug_def Let_def res_simps)

lemma commands_in:
  "(name, f) \<in> set (commands af) \<Longrightarrow> f data s = Inr s' \<Longrightarrow> length (s_in s') \<le> length (s_in s)"
  by (auto simp: commands_def command_texts_def minifs_help_def minifs_exit_def
      dest: minifs_ls_in minifs_cd_in minifs_mkdir_in minifs_touch_in minifs_rmdir_in minifs_rm_in minifs_write_in
        minifs_read_in minifs_debug_in)

lemma minifs_execute_in:
  assumes "minifs_execute af data s = Inr s'"
  shows "length (s_in s') \<le> length (s_in s)"
proof (cases "data = [] \<or> find_first (\<lambda>c. fst c = data ! 0) (commands af) = None")
  case True
  with assms show ?thesis by (auto simp: minifs_execute_def split: if_splits)
next
  case False
  then obtain i where i: "find_first (\<lambda>c. fst c = data ! 0) (commands af) = Some i" by auto
  then have "commands af ! i \<in> set (commands af)" by (auto dest: find_first_bound)
  moreover from assms False i have "snd (commands af ! i) data s = Inr s'"
    by (simp add: minifs_execute_def)
  ultimately show ?thesis by (metis commands_in prod.collapse)
qed


text \<open>Only \<open>read\<close> loads outside \<open>block_map\<close>, and once.\<close>

lemma out_stray [simp]: "s_stray (out str s) = s_stray s" "s_stray (err str s) = s_stray s"
  by (simp_all add: out_def err_def)

lemma on_fs_stray: "on_fs f s = Inr s' \<Longrightarrow> s_stray s' = s_stray s"
  by (auto simp: on_fs_def res_simps)

lemma ls_loop_stray: "ls_loop rs s = Inr s' \<Longrightarrow> s_stray s' = s_stray s"
proof (induction rs arbitrary: s)
  case Nil
  then show ?case by simp
next
  case (Cons r rs)
  obtain index name i u where "r = (index, name, i, u)" by (cases r) auto
  with Cons.prems show ?case
    by (auto simp: res_simps split: if_splits dest!: Cons.IH)
qed

lemma make_inode_stray: "make_inode ty par name s = Inr s' \<Longrightarrow> s_stray s' = s_stray s"
  by (auto simp: make_inode_def Let_def split: if_splits dest: on_fs_stray)

lemma commands_stray:
  "minifs_ls data s = Inr s' \<Longrightarrow> s_stray s' = s_stray s"
  "minifs_cd data s = Inr s' \<Longrightarrow> s_stray s' = s_stray s"
  "minifs_mkdir data s = Inr s' \<Longrightarrow> s_stray s' = s_stray s"
  "minifs_touch data s = Inr s' \<Longrightarrow> s_stray s' = s_stray s"
  "minifs_rmdir data s = Inr s' \<Longrightarrow> s_stray s' = s_stray s"
  "minifs_rm data s = Inr s' \<Longrightarrow> s_stray s' = s_stray s"
  "minifs_write af data s = Inr s' \<Longrightarrow> s_stray s' = s_stray s"
  "minifs_debug data s = Inr s' \<Longrightarrow> s_stray s' = s_stray s"
proof -
  show "minifs_ls data s = Inr s' \<Longrightarrow> s_stray s' = s_stray s"
    by (auto simp: minifs_ls_def res_simps dest!: ls_loop_stray)
  show "minifs_cd data s = Inr s' \<Longrightarrow> s_stray s' = s_stray s"
    by (auto simp: minifs_cd_def Let_def res_simps split: if_splits option.splits)
  show "minifs_mkdir data s = Inr s' \<Longrightarrow> s_stray s' = s_stray s"
    by (cases "length data < 2") (auto simp: minifs_mkdir_def intro: make_inode_stray)
  show "minifs_touch data s = Inr s' \<Longrightarrow> s_stray s' = s_stray s"
    by (cases "length data < 2") (auto simp: minifs_touch_def intro: make_inode_stray)
  show "minifs_rmdir data s = Inr s' \<Longrightarrow> s_stray s' = s_stray s"
    by (auto simp: minifs_rmdir_def Let_def res_simps split: if_splits dest!: on_fs_stray)
  show "minifs_rm data s = Inr s' \<Longrightarrow> s_stray s' = s_stray s"
    by (auto simp: minifs_rm_def Let_def res_simps split: if_splits dest!: on_fs_stray)
  show "minifs_write af data s = Inr s' \<Longrightarrow> s_stray s' = s_stray s"
    by (auto simp: minifs_write_def Let_def res_simps split: if_splits list.splits dest!: on_fs_stray)
  show "minifs_debug data s = Inr s' \<Longrightarrow> s_stray s' = s_stray s"
    by (auto simp: minifs_debug_def Let_def res_simps)
qed

lemma minifs_read_stray: "minifs_read data s = Inr s' \<Longrightarrow> s_stray s' \<le> Suc (s_stray s)"
  by (auto simp: minifs_read_def Let_def res_simps split: if_splits)


section \<open>The main loop\<close>

definition lift_stop :: "disk \<Rightarrow> 'a res \<Rightarrow> 'a fres" where
  "lift_stop d m = (case m of Inl e \<Rightarrow> Inl (e, d) | Inr x \<Rightarrow> Inr x)"

text \<open>
  The loop until the lines given are used up: the program then waits in \<open>readline\<close>. Each turn
  takes a line, so the lines bound the turns.
\<close>

function main_loop :: "(string \<Rightarrow> u32) \<Rightarrow> session \<Rightarrow> session fres" where
  "main_loop after_free s =
     (case s_in s of
        [] \<Rightarrow> Inr s
      | input # rest \<Rightarrow>
          let s = out ''$ '' (s\<lparr>s_in := rest\<rparr>) in
          rbind (lift_stop (sdisk s) (split_line (map_option (\<lambda>l. l @ [NUL]) input))) (\<lambda>(tokens, count, taken).
          rbind (minifs_execute after_free (token_strings tokens) s) (\<lambda>s.
          rbind (lift_stop (sdisk s) (free_lines tokens count)) (\<lambda>released.
          main_loop after_free s))))"
  by pat_completeness auto
termination
  by (relation "measure (\<lambda>(af, s). length (s_in s))") (auto dest!: minifs_execute_in)

declare main_loop.simps [simp del]

text \<open>
  \<open>main\<close>: \<open>file\<close> is the file named by the argument, \<open>ok_init\<close> and \<open>ok_open\<close> say whether it can
  be opened, \<open>pad\<close> and \<open>ptrs\<close> are the bytes the program does not determine.
\<close>

definition minifs_main ::
  "(string \<Rightarrow> u32) \<Rightarrow> bool \<Rightarrow> bool \<Rightarrow> char list \<Rightarrow> char list \<Rightarrow> nat \<Rightarrow> disk option \<Rightarrow>
   string option list \<Rightarrow> session fres"
  where
  "minifs_main after_free ok_init ok_open pad ptrs argc file input =
     (if argc \<noteq> 2 then Inl (Exit (-1), case file of None \<Rightarrow> [] | Some d \<Rightarrow> d)
      else
        rbind (if check_exists file then Inr (the file) else minifs_init ok_init pad file) (\<lambda>d.
        rbind (minifs_open ok_open ptrs (Some d)) (\<lambda>fs.
        main_loop after_free \<lparr>s_fs = fs, s_in = input, s_out = [], s_err = [], s_stray = 0\<rparr>)))"

end
