(* ===== verification/Cmd_Inv.thy ===== *)
theory Cmd_Inv
  imports Fs_Inv Shell
begin

text \<open>
  The invariant of a MiniFS session and the commands: directories hold whole entries that
  point to inodes of the table, files have the size of their content, the current directory
  and every parent are directories, and the tables in memory are those on the disk.
\<close>


section \<open>The invariant\<close>

definition is_dir :: "Filesystem \<Rightarrow> nat \<Rightarrow> bool" where
  "is_dir fs i \<longleftrightarrow> i < length (im fs) \<and> i_type (im fs ! i) = MINIFS_INODE_DIRECTORY"

text \<open>An entry as the commands write it: a terminated name, an inode of the table.\<close>

definition dentry_ok :: "nat \<Rightarrow> dentry \<Rightarrow> bool" where
  "dentry_ok n e \<longleftrightarrow> (case e of (u, name, i) \<Rightarrow> NUL \<in> set name \<and> unat i < n)"

definition dir_ok :: "Filesystem \<Rightarrow> nat \<Rightarrow> bool" where
  "dir_ok fs i \<longleftrightarrow>
     length (bytes_of fs i) = 32 * unat (i_size (im fs ! i)) \<and>
     (\<forall>e\<in>set (entries (bytes_of fs i)). dentry_ok (length (im fs)) e) \<and>
     0 \<le> parent (im fs ! i) \<and> is_dir fs (nat (parent (im fs ! i)))"

definition inode_inv :: "Filesystem \<Rightarrow> nat \<Rightarrow> bool" where
  "inode_inv fs i \<longleftrightarrow>
     (i_type (im fs ! i) = MINIFS_INODE_DIRECTORY \<and> dir_ok fs i) \<or>
     (i_type (im fs ! i) = MINIFS_INODE_FILE \<and> length (bytes_of fs i) = unat (i_size (im fs ! i)))"

definition free_inodes :: "Filesystem \<Rightarrow> nat" where
  "free_inodes fs = length (filter (\<lambda>i. i_type i = MINIFS_INODE_EMPTY) (im fs))"

definition fs_ok :: "Filesystem \<Rightarrow> bool" where
  "fs_ok fs \<longleftrightarrow> tree_ok fs \<and> bsz fs mod 32 = 0 \<and> (\<forall>i\<in>used_set fs. inode_inv fs i) \<and>
     is_dir fs 0 \<and> root_block (im fs ! 0) = 0 \<and> is_dir fs (unat (current_dir fs)) \<and>
     Suc (unat (used_inode_count (sblock fs))) + free_inodes fs = length (im fs)"

text \<open>The tables are on the disk; the representation of the pointers may be from another run.\<close>

definition synced :: "Filesystem \<Rightarrow> bool" where
  "synced fs \<longleftrightarrow> (\<exists>r. length r = 20 \<and> stored ((sblock fs)\<lparr>sb_repr := r\<rparr>) (fd fs))"

lemma is_dir_used: "is_dir fs i \<Longrightarrow> i \<in> used_set fs"
  by (simp add: is_dir_def used_set_def)

lemma fs_okD:
  assumes "fs_ok fs"
  shows "tree_ok fs" and "blocks_ok fs" and "sb_ok (sblock fs)" and "bsz fs mod 32 = 0"
    and "is_dir fs (unat (current_dir fs))" and "is_dir fs 0" and "root_block (im fs ! 0) = 0"
    and "i \<in> used_set fs \<Longrightarrow> inode_inv fs i"
  using assms by (auto simp: fs_ok_def tree_ok_def blocks_ok_def)

lemma dir_inv: "fs_ok fs \<Longrightarrow> is_dir fs i \<Longrightarrow> dir_ok fs i"
  using fs_okD(8) [of fs i] is_dir_used [of fs i] by (auto simp: inode_inv_def is_dir_def)

lemma file_inv:
  "fs_ok fs \<Longrightarrow> i < length (im fs) \<Longrightarrow> i_type (im fs ! i) = MINIFS_INODE_FILE \<Longrightarrow>
    i \<in> used_set fs \<and> length (bytes_of fs i) = unat (i_size (im fs ! i))"
  using fs_okD(8) [of fs i] by (auto simp: inode_inv_def used_set_def)

lemma get_inode_u32: "unat i < length (im fs) \<Longrightarrow> get_inode fs (uint i) = Inr (im fs ! unat i)"
  by (simp add: get_inode_def)

text \<open>No content is as long as the offsets reach.\<close>

lemma bytes_bound:
  assumes "tree_ok fs" and "i \<in> used_set fs"
  shows "length (bytes_of fs i) + 40 < 4294967296"
proof -
  let ?xs = "blocks_of fs i"
  have c: "chain (bm fs) (root_block (im fs ! i)) ?xs" "?xs \<noteq> []" "distinct ?xs" "\<forall>b\<in>set ?xs. block_in fs b" "full fs ?xs"
    using assms by (auto simp: tree_ok_def file_chain_def)
  obtain n where n: "length ?xs = Suc n" using c(2) by (cases ?xs) auto
  have "unat (b_size (bm fs ! last ?xs)) \<le> bsz fs" using c(2,4) by (simp add: block_in_def)
  then have "length (bytes_of fs i) \<le> bsz fs * length ?xs"
    using content_full_length [OF c(2,4,5)] n by (simp add: bytes_of_def)
  also have "\<dots> \<le> bsz fs * length (bm fs)" using distinct_chain_length [OF c(1,3)] by simp
  finally have "length (bytes_of fs i) + 40 \<le> pos fs (length (bm fs))" by (simp add: body_pos_def meta_size_def)
  also have "\<dots> < 4294967296" using assms(1) sb_okD(4) by (simp add: tree_ok_def blocks_ok_def)
  finally show ?thesis .
qed


section \<open>Reading directories and names\<close>

text \<open>What \<open>ls\<close>, \<open>cd\<close> and the others read of a directory.\<close>

lemma read_dir_tree:
  assumes "tree_ok fs" and "bsz fs mod 32 = 0" and "is_dir fs (unat d)" and "dir_ok fs (unat d)"
  shows "minifs_read_dir fs d = Inr (dirmap (entries (bytes_of fs (unat d))))"
proof -
  let ?i = "unat d"
  have u: "?i \<in> used_set fs" using assms(3) by (rule is_dir_used)
  have ch: "file_chain fs (root_block (im fs ! ?i)) (blocks_of fs ?i)" and sb: "sb_ok (sblock fs)"
    using assms(1) u by (simp_all add: tree_ok_def blocks_ok_def)
  have len: "length (content fs (blocks_of fs ?i)) = 32 * unat (i_size (im fs ! ?i))"
    using assms(4) by (simp add: dir_ok_def bytes_of_def)
  then have "length (content fs (blocks_of fs ?i)) mod 32 = 0" by simp
  from dir_blocks_whole [OF ch assms(2) this]
  have w: "\<forall>b\<in>set (blocks_of fs ?i). unat (b_size (bm fs ! b)) mod 32 = 0" .
  have "nat (uint d) < length (im fs)" using assms(3) by (simp add: is_dir_def)
  from read_dir_chain [OF sb this _ w] ch len show ?thesis
    by (simp add: bytes_of_def)
qed

lemma read_dir_ok:
  assumes "fs_ok fs" and "is_dir fs (unat d)"
  shows "minifs_read_dir fs d = Inr (dirmap (entries (bytes_of fs (unat d))))"
  using fs_okD(1,4) [OF assms(1)] assms(2) dir_inv [OF assms] by (rule read_dir_tree)

text \<open>The rows of a directory map, for directories as the invariant describes them.\<close>

definition row_ok :: "Filesystem \<Rightarrow> nat \<times> char list \<times> u32 \<times> char \<Rightarrow> bool" where
  "row_ok fs r \<longleftrightarrow> (case r of (index, name, i, u) \<Rightarrow> NUL \<in> set name \<and> unat i < length (im fs))"

lemma rows_dirmap:
  "rows (dirmap es) = map (\<lambda>(index, u, name, i). (index, name, i, u)) (zip [0..<length es] es)"
proof -
  have "zip (map (\<lambda>(u, name, i). name) es) (zip (map (\<lambda>(u, name, i). i) es) (map (\<lambda>(u, name, i). u) es)) =
      map (\<lambda>(u, name, i). (name, i, u)) es"
    by (induction es) auto
  then show ?thesis by (simp add: rows_def dirmap_def zip_map2 split_def)
qed

lemma rows_ok:
  assumes "dir_ok fs i"
  shows "\<forall>r\<in>set (rows (dirmap (entries (bytes_of fs i)))). row_ok fs r"
proof
  fix r
  assume "r \<in> set (rows (dirmap (entries (bytes_of fs i))))"
  then obtain index u name k where r: "r = (index, name, k, u)" "(u, name, k) \<in> set (entries (bytes_of fs i))"
    unfolding rows_dirmap by (auto dest: set_zip_rightD)
  with assms show "row_ok fs r" by (auto simp: dir_ok_def dentry_ok_def row_ok_def)
qed

lemma row_name:
  "row_ok fs (index, name, i, u) \<Longrightarrow> \<exists>str. c_str name = Some str"
  using c_str_None_iff [of name] by (auto simp: row_ok_def)

lemma name_is_ok:
  assumes "NUL \<notin> set token" and "c_str name = Some str"
  shows "name_is fs token name = Inr (token = str)"
  using strcmp0_c_str [OF c_str_append [OF assms(1), of "[]"] assms(2)] by (simp add: name_is_def)

text \<open>What the three searches compute: the first directory, or the last file, with the name.\<close>

definition row_is :: "Filesystem \<Rightarrow> u32 \<Rightarrow> string \<Rightarrow> nat \<times> char list \<times> u32 \<times> char \<Rightarrow> bool" where
  "row_is fs ty token r \<longleftrightarrow>
     (case r of (index, name, i, u) \<Rightarrow> i_type (im fs ! unat i) = ty \<and> c_str name = Some token)"

lemma row_is_simp:
  "row_is fs ty token (index, name, i, u) \<longleftrightarrow> i_type (im fs ! unat i) = ty \<and> c_str name = Some token"
  by (simp add: row_is_def)

fun row_inode :: "nat \<times> char list \<times> u32 \<times> char \<Rightarrow> u32" where
  "row_inode (index, name, i, u) = i"

lemma cd_loop_ok:
  assumes "NUL \<notin> set token" and "\<forall>r\<in>set rs. row_ok fs r"
  shows "cd_loop fs token rs =
    Inr (map_option (\<lambda>k. row_inode (rs ! k)) (find_first (row_is fs MINIFS_INODE_DIRECTORY token) rs))"
  using assms(2)
proof (induction rs)
  case Nil
  then show ?case by simp
next
  case (Cons r rs)
  obtain index name i u where r: "r = (index, name, i, u)" by (cases r) auto
  with Cons.prems obtain str where str: "c_str name = Some str" "unat i < length (im fs)"
    using row_name [of fs index name i u] by (auto simp: row_ok_def)
  have n: "name_is fs token name = Inr (token = str)" using assms(1) str(1) by (rule name_is_ok)
  have IH: "cd_loop fs token rs =
      Inr (map_option (\<lambda>k. row_inode (rs ! k)) (find_first (row_is fs MINIFS_INODE_DIRECTORY token) rs))"
    using Cons by auto
  show ?case
    using str n IH by (simp add: r get_inode_u32 row_is_simp option.map_comp comp_def eq_commute [of token])
qed

definition last_row :: "(nat \<times> char list \<times> u32 \<times> char \<Rightarrow> bool) \<Rightarrow> (nat \<times> char list \<times> u32 \<times> char) list \<Rightarrow> u32 option" where
  "last_row P rs = (case filter P rs of [] \<Rightarrow> None | r # rs' \<Rightarrow> Some (row_inode (last (r # rs'))))"

lemma find_file_ok:
  assumes "NUL \<notin> set token" and "\<forall>r\<in>set rs. row_ok fs r"
  shows "find_file fs token rs target =
    Inr (case last_row (row_is fs MINIFS_INODE_FILE token) rs of None \<Rightarrow> target | Some i \<Rightarrow> sint i)"
  using assms(2)
proof (induction rs arbitrary: target)
  case Nil
  then show ?case by (simp add: last_row_def)
next
  case (Cons r rs)
  obtain index name i u where r: "r = (index, name, i, u)" by (cases r) auto
  with Cons.prems obtain str where str: "c_str name = Some str" "unat i < length (im fs)"
    using row_name [of fs index name i u] by (auto simp: row_ok_def)
  have n: "name_is fs token name = Inr (token = str)" using assms(1) str(1) by (rule name_is_ok)
  have IH: "find_file fs token rs t =
      Inr (case last_row (row_is fs MINIFS_INODE_FILE token) rs of None \<Rightarrow> t | Some i \<Rightarrow> sint i)" for t
    using Cons by auto
  show ?case
    using str n IH
    by (auto simp: r get_inode_u32 row_is_simp last_row_def split: list.splits)
qed

lemma last_row_Some:
  assumes "last_row (row_is fs ty token) rs = Some i" and "\<forall>r\<in>set rs. row_ok fs r"
  shows "unat i < length (im fs) \<and> i_type (im fs ! unat i) = ty"
proof -
  from assms(1) obtain r rs' where f: "filter (row_is fs ty token) rs = r # rs'" and i: "i = row_inode (last (r # rs'))"
    by (auto simp: last_row_def split: list.splits)
  have "last (r # rs') \<in> set (filter (row_is fs ty token) rs)" unfolding f by (rule last_in_set) simp
  then have l: "row_is fs ty token (last (r # rs'))" "last (r # rs') \<in> set rs" by simp_all
  with assms(2) i show ?thesis
    by (cases "last (r # rs')") (auto simp: row_is_def row_ok_def simp del: last.simps)
qed

lemma find_row_Some:
  assumes "find_first (row_is fs ty token) rs = Some k" and "\<forall>r\<in>set rs. row_ok fs r"
  shows "unat (row_inode (rs ! k)) < length (im fs) \<and> i_type (im fs ! unat (row_inode (rs ! k))) = ty"
proof -
  have k: "k < length rs" "row_is fs ty token (rs ! k)" using assms(1) by (auto simp: find_first_Some_iff)
  then have "row_ok fs (rs ! k)" using assms(2) by simp
  with k(2) show ?thesis by (cases "rs ! k") (auto simp: row_is_def row_ok_def)
qed

text \<open>The names \<open>ls\<close> prints: the entries in use, directories in blue.\<close>

definition ls_text :: "Filesystem \<Rightarrow> nat \<times> char list \<times> u32 \<times> char \<Rightarrow> string" where
  "ls_text fs r = (case r of (index, name, i, u) \<Rightarrow>
     if u = NUL then []
     else if i_type (im fs ! unat i) = MINIFS_INODE_DIRECTORY then blue (the (c_str name)) @ '' ''
     else if i_type (im fs ! unat i) = MINIFS_INODE_FILE then the (c_str name) @ '' '' else [])"

lemma ls_text_simp:
  "ls_text fs (index, name, i, u) =
     (if u = NUL then []
      else if i_type (im fs ! unat i) = MINIFS_INODE_DIRECTORY then blue (the (c_str name)) @ '' ''
      else if i_type (im fs ! unat i) = MINIFS_INODE_FILE then the (c_str name) @ '' '' else [])"
  by (simp add: ls_text_def)

lemma ls_loop_ok:
  "\<forall>r\<in>set rs. row_ok (s_fs s) r \<Longrightarrow> ls_loop rs s = Inr (out (concat (map (ls_text (s_fs s)) rs)) s)"
proof (induction rs arbitrary: s)
  case Nil
  then show ?case by (simp add: out_def)
next
  case (Cons r rs)
  obtain index name i u where r: "r = (index, name, i, u)" by (cases r) auto
  with Cons.prems obtain str where str: "c_str name = Some str" "unat i < length (im (s_fs s))"
    using row_name [of "s_fs s" index name i u] by (auto simp: row_ok_def)
  have IH: "ls_loop rs (out t s) = Inr (out (t @ concat (map (ls_text (s_fs s)) rs)) s)" for t
    using Cons.IH [of "out t s"] Cons.prems by (simp add: out_def)
  have IH0: "ls_loop rs s = Inr (out (concat (map (ls_text (s_fs s)) rs)) s)" using Cons by simp
  show ?case
    using str IH IH0 by (simp add: r get_inode_u32 ls_text_simp)
qed

end
