(* ===== verification/Cmd_Make.thy ===== *)
theory Cmd_Make
  imports Cmd_Inv
begin

text \<open>
  \<open>mkdir\<close> and \<open>touch\<close>: the new inode, its block and the entry in the current directory, with
  the invariant before and after, and what is left when the blocks run out half-way.
\<close>


section \<open>Writing the tables keeps the contents\<close>

definition updated :: "Filesystem \<Rightarrow> Filesystem" where
  "updated fs = fs\<lparr>fd := pwrite 0 (meta (sblock fs)) (fd fs)\<rparr>"

lemma update_ok: "sb_ok (sblock fs) \<Longrightarrow> minifs_update_superblock fs = Inr (updated fs)"
  by (simp add: update_superblock_eq updated_def)

lemma updated_simps [simp]:
  "sblock (updated fs) = sblock fs" "current_dir (updated fs) = current_dir fs"
  by (simp_all add: updated_def)

text \<open>Any change of the bytes of the tables on the disk leaves the contents alone.\<close>

lemma table_bytes:
  assumes "tree_ok fs" and d: "same_but {0..<meta_size (sblock fs)} (fd fs) d"
  shows "tree_ok (fs\<lparr>fd := d\<rparr>)" and "i \<in> used_set fs \<Longrightarrow> bytes_of (fs\<lparr>fd := d\<rparr>) i = bytes_of fs i"
    and "used_set (fs\<lparr>fd := d\<rparr>) = used_set fs"
proof -
  let ?g = "fs\<lparr>fd := d\<rparr>"
  have ok: "blocks_ok fs" using assms(1) by (simp add: tree_ok_def)
  have fr: "frame fs ?g {} {0..<meta_size (sblock fs)}"
    unfolding frame_def using d
    by (intro exI [of _ "used_block_count (sblock fs)"] exI [of _ "bm fs"] exI [of _ d]) simp
  have reg: "region (sblock fs) b 0 \<inter> {0..<meta_size (sblock fs)} = {}" for b
    using meta_bodies [of "sblock fs" "{b}"] by (auto simp: bodies_def)
  have bl: "blocks_of ?g i = blocks_of fs i" for i by (simp add: blocks_of_def)
  have one: "file_chain ?g (root_block (im fs ! i)) (blocks_of fs i) \<and> bytes_of ?g i = bytes_of fs i"
    if "i \<in> used_set fs" for i
  proof -
    have "file_chain fs (root_block (im fs ! i)) (blocks_of fs i)" using assms(1) that by (simp add: tree_ok_def)
    from frame_chain [OF fr this] reg show ?thesis by (simp add: bytes_of_def bl)
  qed
  show us: "used_set ?g = used_set fs" by (simp add: used_set_def)
  show "bytes_of ?g i = bytes_of fs i" if "i \<in> used_set fs" using one [OF that] by simp
  have "meta_size (sblock fs) \<le> length d" using ok d by (auto simp: blocks_ok_def same_but_def)
  then have "blocks_ok ?g" using ok by (simp add: blocks_ok_def free_blocks_def)
  with one assms(1) show "tree_ok ?g" by (simp add: tree_ok_def us bl)
qed

lemma inode_inv_cong:
  assumes "im fs' = im fs" and "bytes_of fs' i = bytes_of fs i"
  shows "inode_inv fs' i = inode_inv fs i"
  using assms by (simp add: inode_inv_def dir_ok_def is_dir_def)

lemma table_bytes_ok:
  assumes ok: "fs_ok fs" and d: "same_but {0..<meta_size (sblock fs)} (fd fs) d"
  shows "fs_ok (fs\<lparr>fd := d\<rparr>)"
proof -
  note u = table_bytes [OF fs_okD(1) [OF ok] d]
  have "inode_inv (fs\<lparr>fd := d\<rparr>) i" if "i \<in> used_set fs" for i
    using inode_inv_cong [of "fs\<lparr>fd := d\<rparr>" fs i] u(2) [OF that] fs_okD(8) [OF ok that] by simp
  with ok u(1,3) show ?thesis by (simp add: fs_ok_def is_dir_def free_inodes_def)
qed

lemma updated_same:
  assumes "sb_ok (sblock fs)"
  shows "same_but {0..<meta_size (sblock fs)} (fd fs) (pwrite 0 (meta (sblock fs)) (fd fs))"
  using length_meta [OF sb_okD(3) [OF assms]] by (auto intro: same_but_pwrite)

lemma updated_tree:
  assumes "tree_ok fs"
  shows "tree_ok (updated fs)" and "i \<in> used_set fs \<Longrightarrow> bytes_of (updated fs) i = bytes_of fs i"
    and "used_set (updated fs) = used_set fs"
proof -
  have "sb_ok (sblock fs)" using assms by (simp add: tree_ok_def blocks_ok_def)
  from table_bytes [OF assms updated_same [OF this]]
  show "tree_ok (updated fs)" and "i \<in> used_set fs \<Longrightarrow> bytes_of (updated fs) i = bytes_of fs i"
    and "used_set (updated fs) = used_set fs" unfolding updated_def by blast+
qed

lemma updated_synced: "sb_ok (sblock fs) \<Longrightarrow> synced (updated fs)"
  using stored_pwrite [of "sblock fs" "fd fs"] sb_okD(3) [of "sblock fs"]
  unfolding synced_def updated_def by (intro exI [of _ "sb_repr (sblock fs)"]) simp

lemma updated_fs_ok: "fs_ok fs \<Longrightarrow> fs_ok (updated fs)"
  unfolding updated_def by (rule table_bytes_ok) (simp_all add: updated_same fs_okD(3))


section \<open>The free inode\<close>

lemma find_free_inode_ok:
  assumes "fs_ok fs"
  shows "if free_inodes fs = 0 then minifs_find_free_inode fs = -1
    else \<exists>i. minifs_find_free_inode fs = int i \<and> i < length (im fs) \<and> i_type (im fs ! i) = MINIFS_INODE_EMPTY"
proof -
  have sb: "sb_ok (sblock fs)" using assms by (rule fs_okD)
  have ic: "unat (inode_count (sblock fs)) = length (im fs)" using sb_okD(1) [OF sb] by simp
  have lt: "\<not> inode_count (sblock fs) \<le> used_inode_count (sblock fs)"
    using assms ic by (simp add: word_le_nat_alt fs_ok_def)
  let ?f = "find_first (\<lambda>i. i_type i = MINIFS_INODE_EMPTY) (im fs)"
  have eq: "minifs_find_free_inode fs = (case ?f of Some i \<Rightarrow> sint (of_nat i :: u32) | None \<Rightarrow> -1)"
    using lt ic by (simp add: minifs_find_free_inode_def Let_def)
  show ?thesis
  proof (cases ?f)
    case None
    then have "free_inodes fs = 0" unfolding free_inodes_def by (simp add: find_first_None_iff)
    with eq None show ?thesis by simp
  next
    case (Some i)
    then have i: "i < length (im fs)" "i_type (im fs ! i) = MINIFS_INODE_EMPTY" by (simp_all add: find_first_Some_iff)
    then have "im fs ! i \<in> set (filter (\<lambda>i. i_type i = MINIFS_INODE_EMPTY) (im fs))" by simp
    then have "free_inodes fs \<noteq> 0" unfolding free_inodes_def by (metis length_0_conv list.set(1) empty_iff)
    moreover have "sint (of_nat i :: u32) = int i"
      using i inodes_few [OF sb] by (simp add: sint_of_nat_u32)
    ultimately show ?thesis using eq Some i by simp
  qed
qed


section \<open>Taking an inode and a block\<close>

definition taken :: "Filesystem \<Rightarrow> nat \<Rightarrow> nat \<Rightarrow> u32 \<Rightarrow> int \<Rightarrow> Filesystem" where
  "taken fs i b ty par =
     (let cd = unat (current_dir fs);
          new = \<lparr>i_size = 0, root_block = int b, parent = par, i_type = ty\<rparr> in
      fs\<lparr>sblock := (sblock fs)\<lparr>used_inode_count := used_inode_count (sblock fs) + 1,
           used_block_count := used_block_count (sblock fs) + 1,
           inode_map := (im fs)[i := new, cd := (im fs ! cd)\<lparr>i_size := i_size (im fs ! cd) + 1\<rparr>],
           block_map := (bm fs)[b := \<lparr>next_block = -1, b_size = 0, b_type = MINIFS_BLOCK_USED\<rparr>]\<rparr>\<rparr>)"

text \<open>What the searches for a free inode and a free block have found.\<close>

definition can_take :: "Filesystem \<Rightarrow> nat \<Rightarrow> nat \<Rightarrow> u32 \<Rightarrow> int \<Rightarrow> bool" where
  "can_take fs i b ty par \<longleftrightarrow> fs_ok fs \<and> i < length (im fs) \<and> i_type (im fs ! i) = MINIFS_INODE_EMPTY \<and>
     b \<in> empty_set fs \<and> (ty = MINIFS_INODE_FILE \<or> ty = MINIFS_INODE_DIRECTORY) \<and> int32 par"

lemma can_takeD:
  assumes "can_take fs i b ty par"
  shows "fs_ok fs" and "i < length (im fs)" and "i_type (im fs ! i) = MINIFS_INODE_EMPTY"
    and "b \<in> empty_set fs" and "ty = MINIFS_INODE_FILE \<or> ty = MINIFS_INODE_DIRECTORY" and "int32 par"
    and "tree_ok fs" and "sb_ok (sblock fs)" and "is_dir fs (unat (current_dir fs))"
    and "b < length (bm fs)" and "b_type (bm fs ! b) = MINIFS_BLOCK_EMPTY" and "i \<noteq> unat (current_dir fs)"
    and "i \<notin> used_set fs" and "j \<in> used_set fs \<Longrightarrow> b \<notin> set (blocks_of fs j)"
proof -
  show ok: "fs_ok fs" and i: "i < length (im fs)" "i_type (im fs ! i) = MINIFS_INODE_EMPTY"
    and b: "b \<in> empty_set fs" and "ty = MINIFS_INODE_FILE \<or> ty = MINIFS_INODE_DIRECTORY" and "int32 par"
    using assms by (auto simp: can_take_def)
  show tree: "tree_ok fs" and "sb_ok (sblock fs)" and cd: "is_dir fs (unat (current_dir fs))"
    using ok by (rule fs_okD)+
  show bl: "b < length (bm fs)" "b_type (bm fs ! b) = MINIFS_BLOCK_EMPTY" using b by (simp_all add: empty_set_def)
  show "i \<noteq> unat (current_dir fs)" using i cd by (auto simp: is_dir_def)
  show "i \<notin> used_set fs" using i by (simp add: used_set_def)
  show "b \<notin> set (blocks_of fs j)" if "j \<in> used_set fs"
    using used_block [OF tree that] bl by (force simp: block_in_def)
qed

lemma taken_lengths [simp]:
  "length (im (taken fs i b ty par)) = length (im fs)" "length (bm (taken fs i b ty par)) = length (bm fs)"
  "fd (taken fs i b ty par) = fd fs" "current_dir (taken fs i b ty par) = current_dir fs"
  "block_size (sblock (taken fs i b ty par)) = block_size (sblock fs)"
  "inode_count (sblock (taken fs i b ty par)) = inode_count (sblock fs)"
  "block_count (sblock (taken fs i b ty par)) = block_count (sblock fs)"
  "sb_repr (sblock (taken fs i b ty par)) = sb_repr (sblock fs)"
  by (simp_all add: taken_def Let_def)

lemma taken_pos [simp]: "pos (taken fs i b ty par) = pos fs" "meta_size (sblock (taken fs i b ty par)) = meta_size (sblock fs)"
  using body_pos_cong [of "sblock (taken fs i b ty par)" "sblock fs"] by simp_all

lemma taken_inode:
  assumes "can_take fs i b ty par"
  shows "im (taken fs i b ty par) ! i = \<lparr>i_size = 0, root_block = int b, parent = par, i_type = ty\<rparr>"
    and "im (taken fs i b ty par) ! unat (current_dir fs) =
      (im fs ! unat (current_dir fs))\<lparr>i_size := i_size (im fs ! unat (current_dir fs)) + 1\<rparr>"
    and "j \<noteq> i \<Longrightarrow> j \<noteq> unat (current_dir fs) \<Longrightarrow> im (taken fs i b ty par) ! j = im fs ! j"
    and "j \<noteq> i \<Longrightarrow> i_type (im (taken fs i b ty par) ! j) = i_type (im fs ! j)"
    and "j \<noteq> i \<Longrightarrow> root_block (im (taken fs i b ty par) ! j) = root_block (im fs ! j)"
    and "j \<noteq> i \<Longrightarrow> parent (im (taken fs i b ty par) ! j) = parent (im fs ! j)"
proof -
  show a: "im (taken fs i b ty par) ! i = \<lparr>i_size = 0, root_block = int b, parent = par, i_type = ty\<rparr>"
    and c: "im (taken fs i b ty par) ! unat (current_dir fs) =
      (im fs ! unat (current_dir fs))\<lparr>i_size := i_size (im fs ! unat (current_dir fs)) + 1\<rparr>"
    using can_takeD(2,9,12) [OF assms] by (simp_all add: taken_def Let_def is_dir_def)
  show o: "im (taken fs i b ty par) ! j = im fs ! j" if "j \<noteq> i" "j \<noteq> unat (current_dir fs)"
    using that by (simp add: taken_def Let_def)
  show "i_type (im (taken fs i b ty par) ! j) = i_type (im fs ! j)"
    "root_block (im (taken fs i b ty par) ! j) = root_block (im fs ! j)"
    "parent (im (taken fs i b ty par) ! j) = parent (im fs ! j)" if "j \<noteq> i"
    using c o that by (cases "j = unat (current_dir fs)"; simp)+
qed

lemma taken_block:
  assumes "can_take fs i b ty par"
  shows "bm (taken fs i b ty par) ! b = \<lparr>next_block = -1, b_size = 0, b_type = MINIFS_BLOCK_USED\<rparr>"
    and "c \<noteq> b \<Longrightarrow> bm (taken fs i b ty par) ! c = bm fs ! c"
  using can_takeD(10) [OF assms] by (simp_all add: taken_def Let_def)

lemma taken_used:
  assumes "can_take fs i b ty par"
  shows "used_set (taken fs i b ty par) = insert i (used_set fs)"
proof (rule set_eqI)
  fix j
  show "j \<in> used_set (taken fs i b ty par) \<longleftrightarrow> j \<in> insert i (used_set fs)"
    using taken_inode(1) [OF assms] taken_inode(4) [OF assms, of j] can_takeD(2,5) [OF assms]
    by (cases "j = i") (auto simp: used_set_def)
qed

lemma taken_chain:
  assumes t: "can_take fs i b ty par" and "file_chain fs r xs" and "b \<notin> set xs"
  shows "file_chain (taken fs i b ty par) r xs" and "content (taken fs i b ty par) xs = content fs xs"
proof -
  have blk: "bm (taken fs i b ty par) ! c = bm fs ! c" if "c \<in> set xs" for c
  proof -
    have "c \<noteq> b" using that assms(3) by blast
    then show ?thesis by (rule taken_block [OF t])
  qed
  show "content (taken fs i b ty par) xs = content fs xs"
    unfolding content_def by (intro arg_cong [where f = concat] map_cong) (simp_all add: body_def blk)
  have "chain (bm (taken fs i b ty par)) r xs"
    using assms(2) blk by (intro chain_cong [of "bm fs" r xs "bm (taken fs i b ty par)"]) (simp_all add: file_chain_def)
  moreover have "full (taken fs i b ty par) xs"
    using assms(2) blk by (simp add: file_chain_def full_def in_set_butlastD)
  ultimately show "file_chain (taken fs i b ty par) r xs"
    using assms(2) blk by (simp add: file_chain_def block_in_def)
qed

lemma taken_old:
  assumes t: "can_take fs i b ty par" and "j \<in> used_set fs"
  shows "file_chain (taken fs i b ty par) (root_block (im fs ! j)) (blocks_of fs j)"
    and "blocks_of (taken fs i b ty par) j = blocks_of fs j"
    and "bytes_of (taken fs i b ty par) j = bytes_of fs j"
proof -
  have c: "file_chain fs (root_block (im fs ! j)) (blocks_of fs j)"
    using can_takeD(7) [OF t] assms(2) by (simp add: tree_ok_def)
  have ji: "j \<noteq> i" using assms(2) can_takeD(13) [OF t] by auto
  note tc = taken_chain [OF t c can_takeD(14) [OF t assms(2)]]
  show "file_chain (taken fs i b ty par) (root_block (im fs ! j)) (blocks_of fs j)" by (rule tc)
  then show e: "blocks_of (taken fs i b ty par) j = blocks_of fs j"
    using taken_inode(5) [OF t ji] by (intro blocks_of_eq) simp
  show "bytes_of (taken fs i b ty par) j = bytes_of fs j" by (simp add: bytes_of_def e tc)
qed

lemma taken_new:
  assumes t: "can_take fs i b ty par"
  shows "file_chain (taken fs i b ty par) (int b) [b]" and "blocks_of (taken fs i b ty par) i = [b]"
    and "bytes_of (taken fs i b ty par) i = []"
proof -
  show c: "file_chain (taken fs i b ty par) (int b) [b]"
    using can_takeD(10) [OF t] by (simp add: file_chain_def full_def block_in_def taken_block(1) [OF t])
  then show e: "blocks_of (taken fs i b ty par) i = [b]"
    using taken_inode(1) [OF t] by (intro blocks_of_eq) simp
  show "bytes_of (taken fs i b ty par) i = []"
    by (simp add: bytes_of_def e content_Cons body_def taken_block(1) [OF t])
qed

lemma taken_free:
  assumes t: "can_take fs i b ty par"
  shows "Suc (free_blocks (taken fs i b ty par)) = free_blocks fs"
proof -
  have "empty_set (taken fs i b ty par) = empty_set fs - {b}"
  proof (rule set_eqI)
    fix c
    show "c \<in> empty_set (taken fs i b ty par) \<longleftrightarrow> c \<in> empty_set fs - {b}"
      using taken_block(1) [OF t] taken_block(2) [OF t, of c] by (cases "c = b") (auto simp: empty_set_def)
  qed
  moreover have "free_blocks g = card (empty_set g)" for g
    by (simp add: free_blocks_def empty_set_def length_filter_conv_card)
  moreover have "finite (empty_set fs)" by (simp add: empty_set_def)
  ultimately show ?thesis using can_takeD(4) [OF t] by (simp add: card_Suc_Diff1 del: card_Diff_insert)
qed

lemma set_two_updates:
  "set (xs[i := x, j := y]) \<subseteq> insert x (insert y (set xs))"
  using set_update_subset_insert [of "xs[i := x]" j y] set_update_subset_insert [of xs i x] by blast

lemma taken_sb_ok:
  assumes t: "can_take fs i b ty par"
  shows "sb_ok (sblock (taken fs i b ty par))"
proof -
  let ?cd = "unat (current_dir fs)"
  let ?new = "\<lparr>i_size = 0, root_block = int b, parent = par, i_type = ty\<rparr> :: Inode"
  let ?cdi = "(im fs ! ?cd)\<lparr>i_size := i_size (im fs ! ?cd) + 1\<rparr>"
  have sb: "sb_ok (sblock fs)" by (rule can_takeD(8) [OF t])
  have "im (taken fs i b ty par) = (im fs)[i := ?new, ?cd := ?cdi]" by (simp add: taken_def Let_def)
  then have si: "set (im (taken fs i b ty par)) \<subseteq> insert ?new (insert ?cdi (set (im fs)))"
    by (simp only: set_two_updates)
  have "int32 (int b)" using can_takeD(10) [OF t] blocks_few [OF sb] by (simp add: int32_def)
  then have "inode_ok ?new" using can_takeD(6) [OF t] by (simp add: inode_ok_def)
  moreover have "inode_ok (im fs ! ?cd)" using sb can_takeD(9) [OF t] by (simp add: sb_ok_def is_dir_def)
  then have "inode_ok ?cdi" by (simp add: inode_ok_def)
  moreover have "\<forall>x\<in>set (im fs). inode_ok x" using sb unfolding sb_ok_def by blast
  ultimately have oi: "\<forall>x\<in>set (im (taken fs i b ty par)). inode_ok x" using si by blast
  have "set (bm (taken fs i b ty par)) \<subseteq> insert \<lparr>next_block = -1, b_size = 0, b_type = MINIFS_BLOCK_USED\<rparr> (set (bm fs))"
    by (simp add: taken_def Let_def set_update_subset_insert)
  moreover have "block_ok \<lparr>next_block = -1, b_size = 0, b_type = MINIFS_BLOCK_USED\<rparr>"
    by (simp add: block_ok_def int32_def)
  moreover have "\<forall>x\<in>set (bm fs). block_ok x" using sb unfolding sb_ok_def by blast
  ultimately have ob: "\<forall>x\<in>set (bm (taken fs i b ty par)). block_ok x" by blast
  show ?thesis
    unfolding sb_ok_def using oi ob sb_okD(1-4) [OF sb] by (simp del: sb_okD)
qed

lemma taken_blocks_ok:
  assumes t: "can_take fs i b ty par"
  shows "blocks_ok (taken fs i b ty par)"
proof -
  have bok: "blocks_ok fs" using can_takeD(7) [OF t] by (simp add: tree_ok_def)
  have "unat (used_block_count (sblock fs)) + 1 \<le> unat (block_count (sblock fs))"
    using bok sb_okD(2) [OF can_takeD(8) [OF t]] by (simp add: blocks_ok_def)
  then have used: "unat (used_block_count (sblock (taken fs i b ty par))) = Suc (unat (used_block_count (sblock fs)))"
    using unat_plus_nat [of "used_block_count (sblock fs)" 1 "block_count (sblock fs)"]
    by (simp add: taken_def Let_def)
  have "set (bm (taken fs i b ty par)) \<subseteq> insert \<lparr>next_block = -1, b_size = 0, b_type = MINIFS_BLOCK_USED\<rparr> (set (bm fs))"
    by (simp add: taken_def Let_def set_update_subset_insert)
  then have "\<forall>x\<in>set (bm (taken fs i b ty par)). b_type x = MINIFS_BLOCK_EMPTY \<or> b_type x = MINIFS_BLOCK_USED"
    using bok by (auto simp: blocks_ok_def)
  then show ?thesis using bok used taken_free [OF t] taken_sb_ok [OF t] by (simp add: blocks_ok_def)
qed

lemma taken_tree:
  assumes t: "can_take fs i b ty par"
  shows "tree_ok (taken fs i b ty par)"
  unfolding tree_ok_def taken_used [OF t]
proof (intro conjI ballI impI)
  show "blocks_ok (taken fs i b ty par)" using t by (rule taken_blocks_ok)
  show "file_chain (taken fs i b ty par) (root_block (im (taken fs i b ty par) ! j)) (blocks_of (taken fs i b ty par) j)"
    if "j \<in> insert i (used_set fs)" for j
  proof (cases "j = i")
    case True
    then show ?thesis using taken_new [OF t] taken_inode(1) [OF t] by simp
  next
    case False
    with that have "j \<in> used_set fs" by simp
    then show ?thesis using taken_old [OF t] taken_inode(5) [OF t False] by simp
  qed
  show "set (blocks_of (taken fs i b ty par) j) \<inter> set (blocks_of (taken fs i b ty par) k) = {}"
    if j: "j \<in> insert i (used_set fs)" and k: "k \<in> insert i (used_set fs)" and jk: "j \<noteq> k" for j k
  proof -
    have old: "set (blocks_of fs j) \<inter> set (blocks_of fs k) = {}" if "j \<in> used_set fs" "k \<in> used_set fs"
      using can_takeD(7) [OF t] that jk by (simp add: tree_ok_def)
    consider "j = i" "k \<in> used_set fs" | "k = i" "j \<in> used_set fs" | "j \<in> used_set fs" "k \<in> used_set fs"
      using j k jk by blast
    then show ?thesis
      using taken_new(2) [OF t] taken_old(2) [OF t] can_takeD(14) [OF t] old by cases auto
  qed
qed


section \<open>The entry\<close>

lemma name_field_ok: "length (name_field name) = 27 \<and> NUL \<in> set (name_field name)"
  by (simp add: name_field_def Let_def MAX_FILENAME_SIZE_def)

lemma c_str_name_field:
  "NUL \<notin> set name \<Longrightarrow> c_str (name_field name) = Some (take 26 name)"
proof -
  assume n: "NUL \<notin> set name"
  then have t: "NUL \<notin> set (take 26 name)" by (meson in_set_takeD)
  have "length (take 26 name) < 27" by simp
  then obtain k where "27 - length (take 26 name) = Suc k" by (metis Suc_diff_Suc)
  then have "name_field name = take 26 name @ NUL # replicate k NUL"
    by (simp add: name_field_def Let_def MAX_FILENAME_SIZE_def)
  then show ?thesis using c_str_append [OF t] by simp
qed

lemma append_entry_eq:
  "append_entry buffer inode_index fs =
    rbind (append_to (unat (current_dir fs)) [CHR 0x01] fs) (\<lambda>fs1.
    rbind (append_to (unat (current_dir fs1)) buffer fs1) (\<lambda>fs2.
    append_to (unat (current_dir fs2)) (le32 (of_int inode_index)) fs2))"
  if "length buffer = 27"
  using that by (simp add: append_entry_def append_to_def MAX_FILENAME_SIZE_def)

lemma avail_whole:
  assumes "tree_ok fs" and "i \<in> used_set fs" and "bsz fs mod 32 = 0" and "length (bytes_of fs i) mod 32 = 0"
  shows "avail fs i mod 32 = 0"
proof -
  have "file_chain fs (root_block (im fs ! i)) (blocks_of fs i)" using assms(1,2) by (simp add: tree_ok_def)
  from avail_eq [OF this] have "32 dvd avail fs i + length (bytes_of fs i)" using assms(3) by (simp add: mod_0_imp_dvd)
  moreover have "32 dvd length (bytes_of fs i)" using assms(4) by (simp add: mod_0_imp_dvd)
  ultimately show ?thesis by (simp add: dvd_add_left_iff dvd_imp_mod_0)
qed

lemma same_tables_simps:
  assumes "same_tables fs fs'"
  shows "im fs' = im fs" and "current_dir fs' = current_dir fs" and "bsz fs' = bsz fs"
    and "used_inode_count (sblock fs') = used_inode_count (sblock fs)" and "length (bm fs') = length (bm fs)"
    and "sb_repr (sblock fs') = sb_repr (sblock fs)"
  using assms by (auto simp: same_tables_def)

text \<open>The three appends, on the state with the inode and the block taken.\<close>

lemma append_entry_ok:
  assumes t: "can_take fs i b ty par" and room: "32 \<le> avail (taken fs i b ty par) (unat (current_dir fs))"
  shows "\<exists>fs'. append_entry (name_field name) (int i) (taken fs i b ty par) = Inr fs' \<and> tree_ok fs' \<and>
    used_set fs' = insert i (used_set fs) \<and> same_tables (taken fs i b ty par) fs' \<and>
    bytes_of fs' (unat (current_dir fs)) =
      bytes_of fs (unat (current_dir fs)) @ enc_entry (CHR 0x01, name_field name, of_nat i) \<and>
    bytes_of fs' i = [] \<and>
    (\<forall>j\<in>used_set fs. j \<noteq> unat (current_dir fs) \<longrightarrow> bytes_of fs' j = bytes_of fs j) \<and>
    free_blocks fs \<le> free_blocks fs' + 3"
proof -
  let ?cd = "unat (current_dir fs)" and ?fs1 = "taken fs i b ty par"
  let ?a = "[CHR 0x01]" and ?b = "name_field name" and ?c = "le32 (of_int (int i))"
  have cdu: "?cd \<in> used_set fs" using can_takeD(9) [OF t] by (rule is_dir_used)
  then have cd1: "?cd \<in> used_set ?fs1" by (simp add: taken_used [OF t])
  have lens: "length ?a < 4294967296" "length ?b < 4294967296" "length ?c < 4294967296"
    using name_field_ok [of name] by simp_all
  have "length ?a + length ?b + length ?c \<le> avail ?fs1 ?cd" using room name_field_ok [of name] by simp
  from st.append_three [OF taken_tree [OF t] cd1 lens this] obtain s1 s2 s3 where
    s: "append_to ?cd ?a ?fs1 = Inr s1" "append_to ?cd ?b s1 = Inr s2" "append_to ?cd ?c s2 = Inr s3"
      "tree_ok s3" "used_set s3 = used_set ?fs1" "same_tables ?fs1 s1" "same_tables ?fs1 s2" "same_tables ?fs1 s3"
      "bytes_of s3 ?cd = bytes_of ?fs1 ?cd @ ?a @ ?b @ ?c"
      "\<forall>j\<in>used_set ?fs1. j \<noteq> ?cd \<longrightarrow> bytes_of s3 j = bytes_of ?fs1 j"
      "avail s3 ?cd + length (?a @ ?b @ ?c) = avail ?fs1 ?cd" by blast
  have "append_entry ?b (int i) ?fs1 = Inr s3"
    using s(1-3) same_tables_simps(2) [OF s(6)] same_tables_simps(2) [OF s(7)] name_field_ok [of name]
    by (simp add: append_entry_eq)
  moreover have "bytes_of s3 ?cd = bytes_of fs ?cd @ enc_entry (CHR 0x01, ?b, of_nat i)"
    using s(9) taken_old(3) [OF t cdu] by (simp add: enc_entry_def)
  moreover have "bytes_of s3 i = []"
    using s(10) taken_new(3) [OF t] taken_used [OF t] can_takeD(12) [OF t] by simp
  moreover have "bytes_of s3 j = bytes_of fs j" if "j \<in> used_set fs" "j \<noteq> ?cd" for j
    using s(10) taken_old(3) [OF t that(1)] that taken_used [OF t] by simp
  moreover have "free_blocks fs \<le> free_blocks s3 + 3"
  proof -
    have bs: "bsz s3 = bsz fs" "32 \<le> bsz fs"
      using same_tables_simps(3) [OF s(8)] fs_okD(2,4) [OF can_takeD(1) [OF t]]
      by (auto simp: blocks_ok_def mod_eq_0_iff_dvd dest: dvd_imp_le)
    have "bsz fs * free_blocks ?fs1 \<le> avail s3 ?cd + 32"
      using s(11) name_field_ok [of name] by (simp add: avail_def)
    also have "\<dots> \<le> bsz fs * free_blocks s3 + 2 * bsz fs" using bs by (simp add: avail_def)
    also have "\<dots> = bsz fs * (free_blocks s3 + 2)" by (simp add: algebra_simps)
    finally have "0 < bsz fs \<longrightarrow> free_blocks ?fs1 \<le> free_blocks s3 + 2" by (simp only: mult_le_cancel1)
    then have "free_blocks ?fs1 \<le> free_blocks s3 + 2" using bs(2) by simp
    with taken_free [OF t] show ?thesis by simp
  qed
  ultimately show ?thesis using s(4,5,8) taken_used [OF t] by blast
qed

lemma append_entry_full:
  assumes t: "can_take fs i b ty par" and room: "avail (taken fs i b ty par) (unat (current_dir fs)) < 32"
  shows "\<exists>d. append_entry (name_field name) (int i) (taken fs i b ty par) = Inl (Exit (-1), d) \<and> kept_disk fs d"
proof -
  let ?cd = "unat (current_dir fs)" and ?fs1 = "taken fs i b ty par"
  have cdu: "?cd \<in> used_set fs" using can_takeD(9) [OF t] by (rule is_dir_used)
  then have cd1: "?cd \<in> used_set ?fs1" by (simp add: taken_used [OF t])
  have ok: "fs_ok fs" by (rule can_takeD(1) [OF t])
  have "length (bytes_of ?fs1 ?cd) mod 32 = 0"
    using dir_inv [OF ok fs_okD(5) [OF ok]] taken_old(3) [OF t cdu] by (simp add: dir_ok_def)
  with avail_whole [OF taken_tree [OF t] cd1] fs_okD(4) [OF ok] have "avail ?fs1 ?cd mod 32 = 0" by simp
  with room have "avail ?fs1 ?cd = 0" by (metis mod_less)
  with append_to_full [OF taken_tree [OF t] cd1, of "[CHR 0x01]"] obtain d where
    d: "append_to ?cd [CHR 0x01] ?fs1 = Inl (Exit (-1), d)" "kept_disk ?fs1 d" by auto
  have "recorded fs \<subseteq> recorded ?fs1"
  proof -
    have "unat (b_size (bm ?fs1 ! c)) = unat (b_size (bm fs ! c))" if "j \<in> used_set fs" "c \<in> set (blocks_of fs j)" for j c
      using taken_block(2) [OF t, of c] can_takeD(14) [OF t that(1)] that(2) by metis
    then show ?thesis
      unfolding recorded_def taken_used [OF t] using taken_old(2) [OF t] by auto
  qed
  with d(2) have "kept_disk fs d" unfolding kept_disk_def by (auto intro: same_but_mono)
  with d(1) name_field_ok [of name] show ?thesis by (simp add: append_entry_eq)
qed

text \<open>The invariant after the entry was written.\<close>

lemma entry_fs_ok:
  assumes t: "can_take fs i b ty par"
    and par: "ty = MINIFS_INODE_DIRECTORY \<longrightarrow> par = int (unat (current_dir fs))"
    and tree: "tree_ok fs'" and us: "used_set fs' = insert i (used_set fs)" and st: "same_tables (taken fs i b ty par) fs'"
    and cdb: "bytes_of fs' (unat (current_dir fs)) =
      bytes_of fs (unat (current_dir fs)) @ enc_entry (CHR 0x01, name_field name, of_nat i)"
    and ib: "bytes_of fs' i = []"
    and ob: "\<forall>j\<in>used_set fs. j \<noteq> unat (current_dir fs) \<longrightarrow> bytes_of fs' j = bytes_of fs j"
  shows "fs_ok fs'" and "entries (bytes_of fs' (unat (current_dir fs))) =
    entries (bytes_of fs (unat (current_dir fs))) @ [(CHR 0x01, name_field name, of_nat i)]"
proof -
  let ?cd = "unat (current_dir fs)"
  have ok: "fs_ok fs" by (rule can_takeD(1) [OF t])
  have cdir: "is_dir fs ?cd" using ok by (rule fs_okD)
  note cdok = dir_inv [OF ok cdir]
  note sim = same_tables_simps [OF st]
  have i: "i < length (im fs)" "i \<noteq> ?cd" using can_takeD(2,12) [OF t] by auto
  have imt: "im fs' = im (taken fs i b ty par)" by (rule sim)
  have dir: "is_dir fs' j" if "is_dir fs j" for j
  proof -
    have "j \<noteq> i" using that can_takeD(3) [OF t] by (auto simp: is_dir_def)
    with taken_inode(4) [OF t, of j] that show ?thesis by (simp add: is_dir_def imt)
  qed
  have l0: "length (bytes_of fs ?cd) mod 32 = 0" using cdok by (simp add: dir_ok_def)
  show ent: "entries (bytes_of fs' ?cd) = entries (bytes_of fs ?cd) @ [(CHR 0x01, name_field name, of_nat i)]"
    using entries_append [OF l0] entries_enc name_field_ok [of name] by (simp add: cdb)
  have small: "unat (of_nat i :: u32) = i" using i(1) inodes_few [OF can_takeD(8) [OF t]] by (intro of_nat_u32) simp
  have szcd: "unat (i_size (im fs ! ?cd) + 1) = Suc (unat (i_size (im fs ! ?cd)))"
  proof -
    have "32 * unat (i_size (im fs ! ?cd)) + 40 < 4294967296"
      using bytes_bound [OF can_takeD(7) [OF t] is_dir_used [OF cdir]] cdok by (simp add: dir_ok_def)
    then have "unat (i_size (im fs ! ?cd)) + 1 \<le> unat (4294967295 :: u32)" by simp
    then show ?thesis using unat_plus_nat [of "i_size (im fs ! ?cd)" 1 4294967295] by simp
  qed
  have "inode_inv fs' j" if j: "j \<in> insert i (used_set fs)" for j
  proof -
    consider "j = i" | "j = ?cd" | "j \<in> used_set fs" "j \<noteq> i" "j \<noteq> ?cd" using j by blast
    then show ?thesis
    proof cases
      case 1
      have new: "im fs' ! i = \<lparr>i_size = 0, root_block = int b, parent = par, i_type = ty\<rparr>"
        using taken_inode(1) [OF t] imt by simp
      then have "dir_ok fs' i" if "ty = MINIFS_INODE_DIRECTORY"
        using that par ib dir [OF cdir] by (simp add: dir_ok_def)
      with 1 new ib can_takeD(5) [OF t] show ?thesis by (auto simp: inode_inv_def)
    next
      case 2
      have new: "im fs' ! ?cd = (im fs ! ?cd)\<lparr>i_size := i_size (im fs ! ?cd) + 1\<rparr>"
        using taken_inode(2) [OF t] imt by simp
      have "length (bytes_of fs' ?cd) = 32 * unat (i_size (im fs' ! ?cd))"
        using cdok name_field_ok [of name] by (simp add: cdb new szcd dir_ok_def length_enc_entry)
      moreover have "\<forall>e\<in>set (entries (bytes_of fs' ?cd)). dentry_ok (length (im fs')) e"
        using cdok name_field_ok [of name] i(1) small by (auto simp: ent dir_ok_def dentry_ok_def imt)
      ultimately have "dir_ok fs' ?cd" using cdok dir by (simp add: dir_ok_def new)
      with 2 new cdir show ?thesis by (simp add: inode_inv_def is_dir_def)
    next
      case 3
      have new: "im fs' ! j = im fs ! j" using taken_inode(3) [OF t 3(2,3)] imt by simp
      have bj: "bytes_of fs' j = bytes_of fs j" using ob 3 by simp
      have "inode_inv fs j" using fs_okD(8) [OF ok 3(1)] .
      moreover have "length (im fs') = length (im fs)" by (simp add: imt)
      ultimately show ?thesis using dir by (auto simp: inode_inv_def dir_ok_def new bj)
    qed
  qed
  moreover have "Suc (unat (used_inode_count (sblock fs'))) + free_inodes fs' = length (im fs')"
  proof -
    have fi: "free_inodes g = card ({..<length (im g)} - used_set g)" for g
      unfolding free_inodes_def length_filter_conv_card used_set_def by (rule arg_cong [where f = card]) auto
    have "{..<length (im fs)} - used_set fs' = ({..<length (im fs)} - used_set fs) - {i}" using us by auto
    moreover have "i \<in> {..<length (im fs)} - used_set fs" using i(1) can_takeD(13) [OF t] by simp
    ultimately have f1: "Suc (free_inodes fs') = free_inodes fs"
      by (simp add: fi imt card_Suc_Diff1 del: card_Diff_insert)
    have cnt: "Suc (unat (used_inode_count (sblock fs))) + free_inodes fs = length (im fs)" using ok by (simp add: fs_ok_def)
    have "unat (used_inode_count (sblock fs)) + 1 \<le> unat (inode_count (sblock fs))"
      using cnt sb_okD(1) [OF can_takeD(8) [OF t]] by simp
    then have "unat (used_inode_count (sblock fs')) = Suc (unat (used_inode_count (sblock fs)))"
      using unat_plus_nat [of "used_inode_count (sblock fs)" 1 "inode_count (sblock fs)"] sim(4)
      by (simp add: taken_def Let_def)
    with f1 cnt show ?thesis by (simp add: imt)
  qed
  moreover have "root_block (im fs' ! 0) = 0"
  proof -
    have "0 \<noteq> i"
    proof
      assume "0 = i"
      then show False using fs_okD(6) [OF ok] can_takeD(3) [OF t] by (simp add: is_dir_def)
    qed
    then show ?thesis using taken_inode(5) [OF t, of 0] fs_okD(7) [OF ok] by (simp add: imt)
  qed
  ultimately show "fs_ok fs'"
    using tree us sim(2,3) fs_okD(4,6) [OF ok] dir cdir by (simp add: fs_ok_def)
qed


section \<open>The command\<close>

lemma upd_inode_int: "i < length (im fs) \<Longrightarrow> upd_inode fs (int i) f = Inr (put_inode fs i (f (im fs ! i)))"
  by (simp add: upd_inode_def get_inode_def)

text \<open>The updates before the appends, in the order of the code, give \<open>taken\<close>.\<close>

lemma make_inode_eq:
  assumes len: "length name \<le> 27" and fi: "minifs_find_free_inode (s_fs s) = int i"
    and fb: "minifs_find_free_block (s_fs s) = int b" and t: "can_take (s_fs s) i b ty (par (s_fs s))"
  shows "make_inode ty par name s =
    on_fs (\<lambda>fs. rbind (append_entry (name_field name) (int i) (taken fs i b ty (par fs))) minifs_update_superblock) s"
proof -
  let ?fs = "s_fs s"
  let ?new = "\<lparr>i_size = 0, root_block = int b, parent = par ?fs, i_type = ty\<rparr> :: Inode"
  let ?fs1 = "put_inode ?fs i ?new"
  let ?fs2 = "put_block ?fs1 b \<lparr>next_block = -1, b_size = 0, b_type = MINIFS_BLOCK_USED\<rparr>"
  let ?fs3 = "add_used_blocks 1 (add_used_inodes 1 ?fs2)"
  have i: "i < length (im ?fs)" "i \<noteq> unat (current_dir ?fs)" and b: "b < length (bm ?fs)"
    and cd: "unat (current_dir ?fs) < length (im ?fs)"
    using can_takeD(2,12,10,9) [OF t] by (auto simp: is_dir_def)
  have 1: "upd_inode ?fs (int i) (\<lambda>x. ?new) = Inr ?fs1" using i by (simp add: upd_inode_int)
  have 2: "upd_block ?fs1 (int b) (\<lambda>x. \<lparr>next_block = -1, b_size = 0, b_type = MINIFS_BLOCK_USED\<rparr>) = Inr ?fs2"
    using b by (simp add: upd_block_int put_inode_def)
  have 3: "upd_inode ?fs3 (uint (current_dir ?fs3)) (\<lambda>x. x\<lparr>i_size := i_size x + 1\<rparr>) = Inr (taken ?fs i b ty (par ?fs))"
    using i cd by (simp add: upd_inode_def get_inode_def put_inode_def put_block_def add_used_blocks_def
        add_used_inodes_def taken_def Let_def)
  show ?thesis
    using len fi fb 1 2 3
    by (simp add: make_inode_def Let_def MAX_FILENAME_SIZE_def on_fs_def put_inode_def [symmetric])
qed

text \<open>
  Everything \<open>mkdir\<close> and \<open>touch\<close> can do, from a session whose invariant holds: refuse, leave
  the process with the disk as it counts unchanged, or add one inode and one entry.
\<close>

definition added :: "Filesystem \<Rightarrow> Filesystem \<Rightarrow> nat \<Rightarrow> u32 \<Rightarrow> int \<Rightarrow> string \<Rightarrow> bool" where
  "added fs fs' i ty par name \<longleftrightarrow>
     i < length (im fs) \<and> i \<notin> used_set fs \<and> used_set fs' = insert i (used_set fs) \<and>
     current_dir fs' = current_dir fs \<and> block_size (sblock fs') = block_size (sblock fs) \<and>
     i_type (im fs' ! i) = ty \<and> parent (im fs' ! i) = par \<and>
     bytes_of fs' i = [] \<and>
     entries (bytes_of fs' (unat (current_dir fs))) =
       entries (bytes_of fs (unat (current_dir fs))) @ [(CHR 0x01, name_field name, of_nat i)] \<and>
     (\<forall>j\<in>used_set fs. j \<noteq> unat (current_dir fs) \<longrightarrow> bytes_of fs' j = bytes_of fs j) \<and>
     (\<forall>j. j \<noteq> i \<longrightarrow> i_type (im fs' ! j) = i_type (im fs ! j) \<and> parent (im fs' ! j) = parent (im fs ! j))"

text \<open>The last block of the current directory is full.\<close>

definition dir_full :: "Filesystem \<Rightarrow> bool" where
  "dir_full fs \<longleftrightarrow>
     unat (b_size (bm fs ! last (blocks_of fs (unat (current_dir fs))))) = bsz fs"

lemma taken_avail:
  assumes t: "can_take fs i b ty par"
  shows "avail (taken fs i b ty par) (unat (current_dir fs)) < 32 \<longleftrightarrow> free_blocks fs = 1 \<and> dir_full fs"
proof -
  let ?cd = "unat (current_dir fs)" and ?fs1 = "taken fs i b ty par"
  let ?l = "last (blocks_of fs ?cd)"
  have ok: "fs_ok fs" by (rule can_takeD(1) [OF t])
  have cdu: "?cd \<in> used_set fs" using can_takeD(9) [OF t] by (rule is_dir_used)
  have "file_chain fs (root_block (im fs ! ?cd)) (blocks_of fs ?cd)"
    using can_takeD(7) [OF t] cdu by (simp add: tree_ok_def)
  then have l: "?l \<in> set (blocks_of fs ?cd)" "block_in fs ?l" by (simp_all add: file_chain_def)
  have lb: "bm ?fs1 ! ?l = bm fs ! ?l" using taken_block(2) [OF t, of ?l] can_takeD(14) [OF t cdu] l(1) by metis
  have av: "avail ?fs1 ?cd = bsz fs - unat (b_size (bm fs ! ?l)) + bsz fs * free_blocks ?fs1"
    using taken_old(2) [OF t cdu] lb by (simp add: avail_def)
  have le: "unat (b_size (bm fs ! ?l)) \<le> bsz fs" using l(2) by (simp add: block_in_def)
  have bs: "32 \<le> bsz fs"
    using fs_okD(2,4) [OF ok] by (auto simp: blocks_ok_def mod_eq_0_iff_dvd dest: dvd_imp_le)
  have "avail ?fs1 ?cd mod 32 = 0"
  proof (rule avail_whole [OF taken_tree [OF t]])
    show "?cd \<in> used_set ?fs1" using cdu by (simp add: taken_used [OF t])
    show "bsz ?fs1 mod 32 = 0" using fs_okD(4) [OF ok] by simp
    show "length (bytes_of ?fs1 ?cd) mod 32 = 0"
      using taken_old(3) [OF t cdu] dir_inv [OF ok can_takeD(9) [OF t]] by (simp add: dir_ok_def)
  qed
  then have "avail ?fs1 ?cd < 32 \<longleftrightarrow> avail ?fs1 ?cd = 0" by (metis mod_less zero_less_numeral)
  also have "\<dots> \<longleftrightarrow> bsz fs * free_blocks ?fs1 = 0 \<and> unat (b_size (bm fs ! ?l)) = bsz fs" using av le by linarith
  also have "\<dots> \<longleftrightarrow> free_blocks ?fs1 = 0 \<and> unat (b_size (bm fs ! ?l)) = bsz fs" using bs by simp
  finally show ?thesis using taken_free [OF t] by (auto simp: dir_full_def)
qed

lemma make_inode_taken:
  assumes t: "can_take fs i b ty par" and par: "ty = MINIFS_INODE_DIRECTORY \<longrightarrow> par = int (unat (current_dir fs))"
  shows "if free_blocks fs = 1 \<and> dir_full fs
    then \<exists>d. rbind (append_entry (name_field name) (int i) (taken fs i b ty par)) minifs_update_superblock =
      Inl (Exit (-1), d) \<and> kept_disk fs d
    else \<exists>fs'. rbind (append_entry (name_field name) (int i) (taken fs i b ty par)) minifs_update_superblock = Inr fs' \<and>
      fs_ok fs' \<and> synced fs' \<and> added fs fs' i ty par name \<and> free_blocks fs \<le> free_blocks fs' + 3"
proof (cases "32 \<le> avail (taken fs i b ty par) (unat (current_dir fs))")
  case True
  from append_entry_ok [OF t this, of name] obtain g where
    g: "append_entry (name_field name) (int i) (taken fs i b ty par) = Inr g" "tree_ok g"
      "used_set g = insert i (used_set fs)" "same_tables (taken fs i b ty par) g"
      "bytes_of g (unat (current_dir fs)) =
        bytes_of fs (unat (current_dir fs)) @ enc_entry (CHR 0x01, name_field name, of_nat i)"
      "bytes_of g i = []" "\<forall>j\<in>used_set fs. j \<noteq> unat (current_dir fs) \<longrightarrow> bytes_of g j = bytes_of fs j"
      "free_blocks fs \<le> free_blocks g + 3" by blast
  note e = entry_fs_ok [OF t par g(2-7)]
  note u = updated_tree [OF g(2)]
  note sim = same_tables_simps [OF g(4)]
  have cdu: "unat (current_dir fs) \<in> used_set fs" using can_takeD(9) [OF t] by (rule is_dir_used)
  have "added fs (updated g) i ty par name"
    unfolding added_def
    using can_takeD(2,13) [OF t] e(2) g(3,4,6,7) u(2,3) sim(1,2) cdu taken_inode(1,4,6) [OF t]
    by (simp add: same_tables_def)
  moreover have "rbind (append_entry (name_field name) (int i) (taken fs i b ty par)) minifs_update_superblock = Inr (updated g)"
    using g(1) fs_okD(3) [OF e(1)] by (simp add: update_ok)
  moreover have "free_blocks (updated g) = free_blocks g" by (simp add: free_blocks_def)
  ultimately show ?thesis
    using True taken_avail [OF t] updated_fs_ok [OF e(1)] updated_synced fs_okD(3) [OF e(1)] g(8) by auto
next
  case False
  then have room: "avail (taken fs i b ty par) (unat (current_dir fs)) < 32" by simp
  from append_entry_full [OF t room, of name] show ?thesis using taken_avail [OF t] room by auto
qed

lemma make_inode_outcome:
  assumes ok: "fs_ok (s_fs s)"
    and ty: "ty = MINIFS_INODE_FILE \<or> ty = MINIFS_INODE_DIRECTORY" and ip: "int32 (par (s_fs s))"
    and par: "ty = MINIFS_INODE_DIRECTORY \<longrightarrow> par (s_fs s) = int (unat (current_dir (s_fs s)))"
  shows "if length name > 27 then make_inode ty par name s = Inr (err (''filename is too long'' @ newline) s)
    else if free_inodes (s_fs s) = 0 then make_inode ty par name s = Inr (err (''Ran out of free inodes'' @ newline) s)
    else if free_blocks (s_fs s) = 0 then make_inode ty par name s = Inr (err (''Ran out of free blocks'' @ newline) s)
    else if free_blocks (s_fs s) = 1 \<and> dir_full (s_fs s)
    then \<exists>d. make_inode ty par name s = Inl (Exit (-1), d) \<and> kept_disk (s_fs s) d
    else (\<exists>fs' i. make_inode ty par name s = Inr (s\<lparr>s_fs := fs'\<rparr>) \<and> fs_ok fs' \<and> synced fs' \<and>
        added (s_fs s) fs' i ty (par (s_fs s)) name \<and> free_blocks (s_fs s) \<le> free_blocks fs' + 3)"
proof -
  let ?fs = "s_fs s"
  note fi = find_free_inode_ok [OF ok] and fb = find_free_block_ok [OF fs_okD(2) [OF ok]]
  consider "length name > 27" | "length name \<le> 27" "free_inodes ?fs = 0"
    | "length name \<le> 27" "free_inodes ?fs \<noteq> 0" "free_blocks ?fs = 0"
    | "length name \<le> 27" "free_inodes ?fs \<noteq> 0" "free_blocks ?fs \<noteq> 0" by linarith
  then show ?thesis
  proof cases
    case 1
    then show ?thesis by (simp add: make_inode_def MAX_FILENAME_SIZE_def)
  next
    case 2
    with fi show ?thesis by (simp add: make_inode_def MAX_FILENAME_SIZE_def Let_def)
  next
    case 3
    with fi fb show ?thesis by (auto simp: make_inode_def MAX_FILENAME_SIZE_def Let_def)
  next
    case 4
    with fi fb obtain i b where f: "minifs_find_free_inode ?fs = int i" "i < length (im ?fs)"
        "i_type (im ?fs ! i) = MINIFS_INODE_EMPTY" "minifs_find_free_block ?fs = int b" "b \<in> empty_set ?fs" by auto
    then have t: "can_take ?fs i b ty (par ?fs)" using ok ty ip by (simp add: can_take_def)
    from make_inode_taken [OF t par, of name] 4 make_inode_eq [where par = par, OF 4(1) f(1,4) t]
    show ?thesis by (auto simp: on_fs_def split: if_splits)
  qed
qed

end
