(* ===== verification/Cmd_Safe.thy ===== *)
theory Cmd_Safe
  imports Cmd_Make
begin

text \<open>
  \<open>write\<close> and \<open>read\<close> on a session whose invariant holds: the file a name stands for, the data
  appended to it and its new size, and what \<open>read\<close> prints.
\<close>


section \<open>Changing the size of an inode\<close>

definition resized :: "Filesystem \<Rightarrow> nat \<Rightarrow> u32 \<Rightarrow> Filesystem" where
  "resized fs i n = put_inode fs i ((im fs ! i)\<lparr>i_size := n\<rparr>)"

lemma resized_simps [simp]:
  "bm (resized fs i n) = bm fs" "fd (resized fs i n) = fd fs" "current_dir (resized fs i n) = current_dir fs"
  "block_size (sblock (resized fs i n)) = block_size (sblock fs)"
  "used_inode_count (sblock (resized fs i n)) = used_inode_count (sblock fs)"
  "used_block_count (sblock (resized fs i n)) = used_block_count (sblock fs)"
  "inode_count (sblock (resized fs i n)) = inode_count (sblock fs)"
  "block_count (sblock (resized fs i n)) = block_count (sblock fs)"
  "sb_repr (sblock (resized fs i n)) = sb_repr (sblock fs)"
  "length (im (resized fs i n)) = length (im fs)"
  by (simp_all add: resized_def put_inode_def)

lemma resized_pos [simp]: "pos (resized fs i n) = pos fs" "meta_size (sblock (resized fs i n)) = meta_size (sblock fs)"
  using body_pos_cong [of "sblock (resized fs i n)" "sblock fs"] by simp_all

lemma resized_inode:
  "j < length (im fs) \<Longrightarrow> im (resized fs i n) ! j = (if j = i then (im fs ! j)\<lparr>i_size := n\<rparr> else im fs ! j)"
  by (simp add: resized_def put_inode_def)

lemma resized_root:
  "j < length (im fs) \<Longrightarrow> root_block (im (resized fs i n) ! j) = root_block (im fs ! j) \<and>
    i_type (im (resized fs i n) ! j) = i_type (im fs ! j) \<and> parent (im (resized fs i n) ! j) = parent (im fs ! j)"
  by (simp add: resized_inode)

lemma resized_used: "used_set (resized fs i n) = used_set fs"
  using resized_root [of _ fs i n] by (auto simp: used_set_def)

lemma resized_chains:
  "file_chain (resized fs i n) r xs = file_chain fs r xs" "content (resized fs i n) xs = content fs xs"
proof -
  have "body (resized fs i n) b = body fs b" for b by (simp add: body_def)
  then have "body (resized fs i n) = body fs" by (rule ext)
  then show "content (resized fs i n) xs = content fs xs" by (simp add: content_def)
qed (simp add: file_chain_def block_in_def full_def)

lemma resized_bytes:
  assumes "j \<in> used_set fs"
  shows "blocks_of (resized fs i n) j = blocks_of fs j" and "bytes_of (resized fs i n) j = bytes_of fs j"
  using assms resized_root [of j fs i n] by (simp_all add: blocks_of_def bytes_of_def resized_chains used_set_def)

lemma resized_tree:
  assumes "tree_ok fs"
  shows "tree_ok (resized fs i n)"
proof -
  have sb: "sb_ok (sblock fs)" using assms by (simp add: tree_ok_def blocks_ok_def)
  have "\<forall>x\<in>set (im (resized fs i n)). inode_ok x"
  proof
    fix x assume "x \<in> set (im (resized fs i n))"
    then obtain j where j: "j < length (im fs)" "x = im (resized fs i n) ! j" by (auto simp: in_set_conv_nth)
    then have "inode_ok (im fs ! j)" using sb by (simp add: sb_ok_def)
    with j show "inode_ok x" by (simp add: inode_ok_def resized_root)
  qed
  then have "sb_ok (sblock (resized fs i n))"
    using sb unfolding sb_ok_def by auto
  then have "blocks_ok (resized fs i n)" using assms by (simp add: tree_ok_def blocks_ok_def free_blocks_def)
  moreover have "j < length (im fs)" if "j \<in> used_set fs" for j using that by (simp add: used_set_def)
  ultimately show ?thesis
    using assms by (simp add: tree_ok_def resized_used resized_chains resized_bytes resized_root)
qed


section \<open>write\<close>

definition written :: "Filesystem \<Rightarrow> Filesystem \<Rightarrow> nat \<Rightarrow> string \<Rightarrow> bool" where
  "written fs fs' i dat \<longleftrightarrow>
     used_set fs' = used_set fs \<and> current_dir fs' = current_dir fs \<and> bytes_of fs' i = bytes_of fs i @ dat \<and>
     (\<forall>j\<in>used_set fs. j \<noteq> i \<longrightarrow> bytes_of fs' j = bytes_of fs j) \<and>
     (\<forall>j<length (im fs). i_type (im fs' ! j) = i_type (im fs ! j) \<and> parent (im fs' ! j) = parent (im fs ! j)) \<and>
     length (im fs') = length (im fs) \<and> bsz fs' = bsz fs \<and>
     bsz fs * free_blocks fs \<le> bsz fs * free_blocks fs' + bsz fs + length dat"

definition write_file :: "nat \<Rightarrow> string \<Rightarrow> u32 \<Rightarrow> Filesystem \<Rightarrow> Filesystem fres" where
  "write_file i dat n fs =
     rbind (append_to i dat fs) (\<lambda>fs.
     rbind (upd_inode fs (int i) (\<lambda>x. x\<lparr>i_size := i_size x + n\<rparr>)) minifs_update_superblock)"

text \<open>
  The tables after an append to \<open>i\<close> whose size grows by \<open>n\<close>, whatever \<open>n\<close> is.
\<close>

lemma write_file_any:
  assumes tree: "tree_ok fs" and iu: "i \<in> used_set fs" and len: "length dat < 4294967296" and fits: "length dat \<le> avail fs i"
  shows "\<exists>g h. h = resized g i (i_size (im fs ! i) + n) \<and> write_file i dat n fs = Inr (updated h) \<and> tree_ok g \<and>
    same_tables fs g \<and> bytes_of g i = bytes_of fs i @ dat \<and> tree_ok h \<and> used_set h = used_set fs \<and>
    written fs (updated h) i dat \<and> (\<forall>j\<in>used_set fs. bytes_of h j = bytes_of g j) \<and>
    (\<forall>j<length (im fs). im h ! j = (if j = i then (im fs ! j)\<lparr>i_size := i_size (im fs ! i) + n\<rparr> else im fs ! j))"
proof -
  from append_to_ok [OF tree iu len fits] obtain g where
    g: "append_to i dat fs = Inr g" "tree_ok g" "used_set g = used_set fs" "same_tables fs g"
      "bytes_of g i = bytes_of fs i @ dat" "\<forall>j\<in>used_set fs. j \<noteq> i \<longrightarrow> bytes_of g j = bytes_of fs j"
      "avail g i + length dat = avail fs i" by blast
  note sim = same_tables_simps [OF g(4)]
  let ?h = "resized g i (i_size (im fs ! i) + n)"
  have i: "i < length (im fs)" using iu by (simp add: used_set_def)
  have tree': "tree_ok ?h" using g(2) by (rule resized_tree)
  have us: "used_set ?h = used_set fs" using g(3) by (simp add: resized_used)
  have hb: "bytes_of ?h j = bytes_of g j" if "j \<in> used_set fs" for j
    using that g(3) by (intro resized_bytes) simp
  have im: "im ?h ! j = (if j = i then (im fs ! j)\<lparr>i_size := i_size (im fs ! i) + n\<rparr> else im fs ! j)"
    if "j < length (im fs)" for j using that sim(1) by (simp add: resized_inode)
  note u = updated_tree [OF tree']
  have bs: "bsz g = bsz fs" using sim by simp
  have "bsz fs * free_blocks fs \<le> avail g i + length dat" unfolding g(7) by (simp add: avail_def)
  also have "avail g i \<le> bsz fs + bsz fs * free_blocks g" by (simp add: avail_def bs)
  finally have "bsz fs * free_blocks fs \<le> bsz fs * free_blocks g + bsz fs + length dat" by simp
  moreover have "free_blocks (updated ?h) = free_blocks g" by (simp add: free_blocks_def)
  ultimately have w: "written fs (updated ?h) i dat"
    unfolding written_def using u(2,3) us g(5,6) hb iu im sim(1,2) bs by simp
  have "sb_ok (sblock ?h)" using tree' by (simp add: tree_ok_def blocks_ok_def)
  then have eq: "write_file i dat n fs = Inr (updated ?h)"
    using g(1) i sim(1) by (simp add: write_file_def upd_inode_int update_ok) (simp add: resized_def sim(1) update_ok)
  show ?thesis using eq g(2,4,5) tree' us w hb im by (intro exI [of _ g] exI [of _ ?h]) simp
qed

lemma write_file_ok:
  assumes ok: "fs_ok fs" and i: "i < length (im fs)" "i_type (im fs ! i) = MINIFS_INODE_FILE"
    and len: "length dat < 4294967296" and n: "n = of_nat (length dat)"
  shows "if length dat \<le> avail fs i
    then \<exists>fs'. write_file i dat n fs = Inr fs' \<and> fs_ok fs' \<and> synced fs' \<and> written fs fs' i dat
    else \<exists>d. write_file i dat n fs = Inl (Exit (-1), d) \<and> kept_disk fs d"
proof -
  have tree: "tree_ok fs" by (rule fs_okD(1) [OF ok])
  note fi = file_inv [OF ok i]
  have iu: "i \<in> used_set fs" using fi by simp
  show ?thesis
  proof (cases "length dat \<le> avail fs i")
    case False
    with append_to_full [OF tree iu len] show ?thesis by (auto simp: write_file_def)
  next
    case True
    from write_file_any [OF tree iu len True, of n] obtain g h where h: "h = resized g i (i_size (im fs ! i) + n)"
      and eq: "write_file i dat n fs = Inr (updated h)"
      and g: "tree_ok g" "same_tables fs g" "bytes_of g i = bytes_of fs i @ dat"
      and tree': "tree_ok h" and us: "used_set h = used_set fs" and w: "written fs (updated h) i dat"
      and hb: "\<forall>j\<in>used_set fs. bytes_of h j = bytes_of g j"
      and im: "\<forall>j<length (im fs). im h ! j = (if j = i then (im fs ! j)\<lparr>i_size := i_size (im fs ! i) + n\<rparr> else im fs ! j)"
      by blast
    note sim = same_tables_simps [OF g(2)]
    have gu: "used_set g = used_set fs" using us by (simp add: h resized_used)
    have hs: "length (im h) = length (im fs)" "free_blocks h = free_blocks g" "current_dir h = current_dir fs"
      "bsz h = bsz fs" "used_inode_count (sblock h) = used_inode_count (sblock fs)" using sim by (simp_all add: h free_blocks_def)
    have sz: "unat (i_size (im fs ! i) + n) = length (bytes_of g i)"
    proof -
      have "length (bytes_of g i) + 40 < 4294967296" using bytes_bound [OF g(1)] gu iu by simp
      then have "unat (i_size (im fs ! i)) + length dat \<le> unat (4294967295 :: u32)" using fi g(3) by simp
      then have "unat (i_size (im fs ! i) + of_nat (length dat)) = unat (i_size (im fs ! i)) + length dat"
        by (rule unat_plus_nat)
      then show ?thesis using fi g(3) n by simp
    qed
    have dirs: "is_dir h j = is_dir fs j" for j
      using im [rule_format, of j] hs by (auto simp: is_dir_def split: if_splits)
    have inv: "inode_inv h j" if j: "j \<in> used_set fs" for j
    proof (cases "j = i")
      case True
      with i im [rule_format, of i] sz bspec [OF hb iu] show ?thesis by (simp add: inode_inv_def)
    next
      case False
      have jl: "j < length (im fs)" using j by (simp add: used_set_def)
      have same: "im h ! j = im fs ! j" using False im jl by simp
      have "bytes_of (updated h) j = bytes_of fs j" using w False j by (simp add: written_def)
      then have "bytes_of h j = bytes_of fs j" using updated_tree(2) [OF tree'] j us by simp
      with fs_okD(8) [OF ok j] show ?thesis using same hs(1) by (simp add: inode_inv_def dir_ok_def dirs)
    qed
    have fr: "free_inodes h = free_inodes fs"
    proof -
      have fi: "free_inodes f = card ({..<length (im f)} - used_set f)" for f
        unfolding free_inodes_def length_filter_conv_card used_set_def by (rule arg_cong [where f = card]) auto
      show ?thesis using us hs(1) by (simp add: fi)
    qed
    have h_ok: "fs_ok h"
      using ok tree' inv fr hs us im [rule_format, of 0] fs_okD(6) [OF ok]
      by (simp add: fs_ok_def dirs) (simp add: is_dir_def)
    show ?thesis
      using True eq w updated_fs_ok [OF h_ok] updated_synced fs_okD(3) [OF h_ok] by auto
  qed
qed

text \<open>The commands with their look-up: the last file of that name in the current directory.\<close>

definition target_file :: "Filesystem \<Rightarrow> string \<Rightarrow> u32 option" where
  "target_file fs token =
     last_row (row_is fs MINIFS_INODE_FILE token) (rows (dirmap (entries (bytes_of fs (unat (current_dir fs))))))"

text \<open>
  What the look-up of a name needs of the invariant: nothing of the sizes of files.
\<close>

definition walkable :: "Filesystem \<Rightarrow> bool" where
  "walkable fs \<longleftrightarrow> tree_ok fs \<and> bsz fs mod 32 = 0 \<and> is_dir fs 0 \<and> root_block (im fs ! 0) = 0 \<and>
     is_dir fs (unat (current_dir fs)) \<and> dir_ok fs (unat (current_dir fs))"

lemma walkable_ok: "fs_ok fs \<Longrightarrow> walkable fs"
  using dir_inv [of fs "unat (current_dir fs)"] by (simp add: walkable_def fs_ok_def)

lemma walk_rows:
  assumes "walkable fs"
  shows "minifs_read_dir fs (current_dir fs) = Inr (dirmap (entries (bytes_of fs (unat (current_dir fs)))))"
    and "\<forall>r\<in>set (rows (dirmap (entries (bytes_of fs (unat (current_dir fs)))))). row_ok fs r"
  using assms read_dir_tree [of fs "current_dir fs"] rows_ok [of fs "unat (current_dir fs)"] by (auto simp: walkable_def)

lemmas cur_rows = walk_rows [OF walkable_ok]

lemma walk_target:
  assumes ok: "walkable fs" and "NUL \<notin> set token"
  shows "find_file fs token (rows (dirmap (entries (bytes_of fs (unat (current_dir fs)))))) (-1) =
      Inr (case target_file fs token of None \<Rightarrow> -1 | Some i \<Rightarrow> int (unat i))"
    and "target_file fs token = Some i \<Longrightarrow> unat i < length (im fs) \<and> i_type (im fs ! unat i) = MINIFS_INODE_FILE"
proof -
  show *: "unat i < length (im fs) \<and> i_type (im fs ! unat i) = MINIFS_INODE_FILE" if "target_file fs token = Some i" for i
    using last_row_Some that walk_rows(2) [OF ok] unfolding target_file_def by blast
  have "sb_ok (sblock fs)" using ok by (simp add: walkable_def tree_ok_def blocks_ok_def)
  then have "sint i = int (unat i)" if "target_file fs token = Some i" for i
    using * [OF that] inodes_few [of "sblock fs"] sint_of_nat_u32 [of "unat i"] by simp
  then show "find_file fs token (rows (dirmap (entries (bytes_of fs (unat (current_dir fs)))))) (-1) =
      Inr (case target_file fs token of None \<Rightarrow> -1 | Some i \<Rightarrow> int (unat i))"
    using find_file_ok [OF assms(2) walk_rows(2) [OF ok]] unfolding target_file_def [symmetric]
    by (auto split: option.split)
qed

lemmas target_file_ok = walk_target [OF walkable_ok]

definition next_line :: "session \<Rightarrow> string option" where
  "next_line s = (case s_in s of [] \<Rightarrow> None | l # ls \<Rightarrow> l)"

text \<open>
  The next \<open>write\<close> finds the line it has released as it was: \<open>strlen\<close> still returns its length.
\<close>

definition kept_data :: "(string \<Rightarrow> u32) \<Rightarrow> string list \<Rightarrow> session \<Rightarrow> bool" where
  "kept_data af data s \<longleftrightarrow> (\<forall>token rest l. data = ''write'' # token # rest \<longrightarrow> target_file (s_fs s) token \<noteq> None \<longrightarrow>
     next_line s = Some l \<longrightarrow> af l = of_nat (length l))"

lemma kept_dataD:
  "kept_data af (''write'' # token # rest) s \<Longrightarrow> target_file (s_fs s) token = Some i \<Longrightarrow> next_line s = Some l \<Longrightarrow>
    af l = of_nat (length l)"
  by (simp add: kept_data_def)

lemma kept_data_all: "\<forall>l. af l = of_nat (length l) \<Longrightarrow> kept_data af data s"
  by (simp add: kept_data_def)

text \<open>Without a line, \<open>readline\<close> waits for one, or has returned a null pointer.\<close>

definition no_line :: "session \<Rightarrow> stop" where
  "no_line s = (if s_in s = [] then Waits else NullDeref)"

definition prompted :: "session \<Rightarrow> session" where
  "prompted s = s\<lparr>s_in := tl (s_in s), s_out := s_out s @ ''Enter data: ''\<rparr>"

lemma minifs_write_eq:
  assumes ok: "fs_ok (s_fs s)" and "NUL \<notin> set token" and "data = cmd # token # rest"
  shows "minifs_write af data s =
    (case target_file (s_fs s) token of
       None \<Rightarrow> Inr (err (''No such file'' @ newline) s)
     | Some i \<Rightarrow>
         (case next_line s of
            None \<Rightarrow> Inl (no_line s, sdisk s)
          | Some input \<Rightarrow> on_fs (write_file (unat i) input (af input)) (prompted s)))"
proof (cases "target_file (s_fs s) token")
  case None
  with target_file_ok(1) [OF assms(1,2)] cur_rows(1) [OF ok] assms(3) show ?thesis
    by (simp add: minifs_write_def)
next
  case (Some i)
  have "of_int (int (unat i)) = i" by simp
  moreover have "uint i \<noteq> -1" using uint_ge_0 [of i] by linarith
  ultimately show ?thesis
    using Some target_file_ok(1) [OF assms(1,2)] cur_rows(1) [OF ok] assms(3)
    by (auto simp: minifs_write_def Let_def next_line_def no_line_def prompted_def on_fs_def write_file_def append_to_def
        split: list.split option.split)
qed

lemma walk_zero:
  assumes "walkable fs" and "i \<in> used_set fs" and "i \<noteq> 0"
  shows "0 \<notin> set (blocks_of fs i)"
proof -
  have tree: "tree_ok fs" and r: "root_block (im fs ! 0) = 0" and z: "0 \<in> used_set fs"
    using assms(1) is_dir_used [of fs 0] by (simp_all add: walkable_def)
  then have c: "file_chain fs 0 (blocks_of fs 0)" by (auto simp: tree_ok_def)
  then have "0 \<in> set (blocks_of fs 0)" by (cases "blocks_of fs 0") (auto simp: file_chain_def)
  with tree z assms(2,3) show ?thesis by (auto simp: tree_ok_def)
qed

lemmas zero_chain = walk_zero [OF walkable_ok]

lemma read_data_ok:
  assumes ok: "fs_ok fs" and i: "i < length (im fs)" "i_type (im fs ! i) = MINIFS_INODE_FILE"
  shows "minifs_read_data fs (int i) = Inr (bytes_of fs i, sint (i_size (im fs ! i)), True)"
proof -
  note fi = file_inv [OF ok i]
  have "i \<noteq> 0"
  proof
    assume "i = 0"
    with i(2) fs_okD(6) [OF ok] show False by (simp add: is_dir_def)
  qed
  then have "0 \<notin> set (blocks_of fs i)" using zero_chain [OF ok] fi by simp
  moreover have "file_chain fs (root_block (im fs ! i)) (blocks_of fs i)"
    using fs_okD(1) [OF ok] fi by (simp add: tree_ok_def)
  ultimately show ?thesis
    using read_data_chain [OF fs_okD(3) [OF ok] i(1)] fi by (simp add: bytes_of_def)
qed

lemma minifs_read_eq:
  assumes ok: "fs_ok (s_fs s)" and "NUL \<notin> set token" and "data = cmd # token # rest"
  shows "minifs_read data s = Inr
    (case target_file (s_fs s) token of
       None \<Rightarrow> err (''No such file'' @ newline) s
     | Some i \<Rightarrow>
         out ((if length (bytes_of (s_fs s) (unat i)) < 2147483648 then bytes_of (s_fs s) (unat i) else []) @ newline) (strayed s))"
proof (cases "target_file (s_fs s) token")
  case None
  with target_file_ok(1) [OF assms(1,2)] cur_rows(1) [OF ok] assms(3) show ?thesis
    by (simp add: minifs_read_def)
next
  case (Some i)
  note t = target_file_ok(2) [OF assms(1,2) Some]
  have nz: "uint i \<noteq> -1" using uint_ge_0 [of i] by linarith
  have len: "length (bytes_of (s_fs s) (unat i)) = unat (i_size (im (s_fs s) ! unat i))"
    using file_inv [OF ok] t by simp
  have "sint (i_size (im (s_fs s) ! unat i)) =
      (if unat (i_size (im (s_fs s) ! unat i)) < 2147483648 then int (unat (i_size (im (s_fs s) ! unat i)))
       else int (unat (i_size (im (s_fs s) ! unat i))) - 4294967296)"
    using sint_of_nat_u32 [OF unat_u32, of "i_size (im (s_fs s) ! unat i)"] by simp
  moreover have "int (unat (i_size (im (s_fs s) ! unat i))) - 4294967296 \<le> 0"
    using unat_u32 [of "i_size (im (s_fs s) ! unat i)"] by linarith
  moreover have "minifs_read data s = (let (c, n, x) = (bytes_of (s_fs s) (unat i), sint (i_size (im (s_fs s) ! unat i)), True) in
      if nat n \<le> length c then Inr (out (take (nat n) c @ newline) (strayed s)) else Inl (Uninit, sdisk s))"
    using Some target_file_ok(1) [OF assms(1,2)] cur_rows(1) [OF ok] assms(3) read_data_ok [OF ok, of "unat i"] t nz
    by (simp add: minifs_read_def)
  ultimately show ?thesis using Some len by (simp add: Let_def split: if_splits)
qed

end
