(* ===== verification/Cmd_Session.thy ===== *)
theory Cmd_Session
  imports Cmd_Safe
begin

text \<open>
  The invariant of a file system across a change of directory, a process that ended half-way and
  a restart: \<open>minifs_open\<close> on the disk of a session finds its files again.
\<close>


section \<open>Another current directory, other pointers\<close>

text \<open>What a change of directory and a restart alter in memory.\<close>

definition retagged :: "char list \<Rightarrow> u32 \<Rightarrow> Filesystem \<Rightarrow> Filesystem" where
  "retagged r c fs = fs\<lparr>sblock := (sblock fs)\<lparr>sb_repr := r\<rparr>, current_dir := c\<rparr>"

lemma retagged_simps [simp]:
  "im (retagged r c fs) = im fs" "bm (retagged r c fs) = bm fs" "fd (retagged r c fs) = fd fs"
  "block_size (sblock (retagged r c fs)) = block_size (sblock fs)"
  "inode_count (sblock (retagged r c fs)) = inode_count (sblock fs)"
  "block_count (sblock (retagged r c fs)) = block_count (sblock fs)"
  "used_inode_count (sblock (retagged r c fs)) = used_inode_count (sblock fs)"
  "used_block_count (sblock (retagged r c fs)) = used_block_count (sblock fs)"
  "sb_repr (sblock (retagged r c fs)) = r" "current_dir (retagged r c fs) = c"
  by (simp_all add: retagged_def)

lemma retagged_pos [simp]:
  "pos (retagged r c fs) = pos fs" "meta_size (sblock (retagged r c fs)) = meta_size (sblock fs)"
  using body_pos_cong [of "sblock (retagged r c fs)" "sblock fs"] by simp_all

lemma retagged_chains [simp]:
  "content (retagged r c fs) xs = content fs xs" "file_chain (retagged r c fs) i xs = file_chain fs i xs"
  "blocks_of (retagged r c fs) k = blocks_of fs k" "bytes_of (retagged r c fs) k = bytes_of fs k"
  "used_set (retagged r c fs) = used_set fs" "is_dir (retagged r c fs) k = is_dir fs k"
proof -
  have "body (retagged r c fs) b = body fs b" for b by (simp add: body_def)
  then have b: "body (retagged r c fs) = body fs" by (rule ext)
  then show c: "content (retagged r c fs) xs = content fs xs" for xs by (simp add: content_def)
  show "file_chain (retagged r c fs) i xs = file_chain fs i xs"
    by (simp add: file_chain_def block_in_def full_def)
  show bl: "blocks_of (retagged r c fs) k = blocks_of fs k" by (simp add: blocks_of_def)
  show "bytes_of (retagged r c fs) k = bytes_of fs k" by (simp add: bytes_of_def bl c)
  show "used_set (retagged r c fs) = used_set fs" "is_dir (retagged r c fs) k = is_dir fs k"
    by (simp_all add: used_set_def is_dir_def)
qed

lemma sb_ok_repr: "sb_ok sb \<Longrightarrow> length r = 20 \<Longrightarrow> sb_ok (sb\<lparr>sb_repr := r\<rparr>)"
  unfolding sb_ok_def body_pos_def meta_size_def by auto

lemma retagged_ok:
  assumes "fs_ok fs" and "is_dir fs (unat c)" and "length r = 20"
  shows "fs_ok (retagged r c fs)"
proof -
  have "sb_ok (sblock (retagged r c fs))"
    using sb_ok_repr [OF fs_okD(3) [OF assms(1)] assms(3)] by (simp add: retagged_def)
  then have "tree_ok (retagged r c fs)"
    using fs_okD(1) [OF assms(1)] by (simp add: tree_ok_def blocks_ok_def free_blocks_def)
  moreover have "inode_inv (retagged r c fs) i = inode_inv fs i" for i
    by (rule inode_inv_cong) simp_all
  ultimately show ?thesis using assms(1,2) by (simp add: fs_ok_def free_inodes_def)
qed

lemma cd_retagged: "fs\<lparr>current_dir := c\<rparr> = retagged (sb_repr (sblock fs)) c fs"
  by (simp add: retagged_def)

lemma cd_fs_ok: "fs_ok fs \<Longrightarrow> is_dir fs (unat c) \<Longrightarrow> fs_ok (fs\<lparr>current_dir := c\<rparr>)"
  unfolding cd_retagged by (rule retagged_ok) (simp_all add: sb_okD(3) fs_okD(3))

lemma cd_synced [simp]: "synced (fs\<lparr>current_dir := c\<rparr>) = synced fs"
  by (simp add: synced_def)


section \<open>What a restart finds\<close>

lemma kept_fs_ok:
  assumes ok: "fs_ok fs" and kept: "kept_disk fs d"
  shows "fs_ok (fs\<lparr>fd := d\<rparr>)" and "i \<in> used_set fs \<Longrightarrow> bytes_of (fs\<lparr>fd := d\<rparr>) i = bytes_of fs i"
    and "used_set (fs\<lparr>fd := d\<rparr>) = used_set fs"
proof -
  let ?g = "fs\<lparr>fd := d\<rparr>"
  have fr: "frame fs ?g {} (- recorded fs)"
    unfolding frame_def using kept
    by (intro exI [of _ "used_block_count (sblock fs)"] exI [of _ "bm fs"] exI [of _ d])
      (simp add: kept_disk_def)
  have tree: "tree_ok fs" using ok by (rule fs_okD)
  have bl: "blocks_of ?g i = blocks_of fs i" for i by (simp add: blocks_of_def)
  show us: "used_set ?g = used_set fs" by (simp add: used_set_def)
  have one: "file_chain ?g (root_block (im fs ! i)) (blocks_of fs i) \<and> bytes_of ?g i = bytes_of fs i"
    if i: "i \<in> used_set fs" for i
  proof -
    have c: "file_chain fs (root_block (im fs ! i)) (blocks_of fs i)" using tree i by (simp add: tree_ok_def)
    have "{pos fs b..<pos fs b + unat (b_size (bm fs ! b))} \<subseteq> recorded fs" if "b \<in> set (blocks_of fs i)" for b
      using i that unfolding recorded_def by blast
    then have "{pos fs b..<pos fs b + unat (b_size (bm fs ! b))} \<inter> - recorded fs = {}"
      if "b \<in> set (blocks_of fs i)" for b using that by blast
    from frame_chain_bytes [OF fr c _ this] show ?thesis by (simp add: bytes_of_def bl)
  qed
  show "bytes_of ?g i = bytes_of fs i" if "i \<in> used_set fs" using one [OF that] by simp
  have "length (fd fs) \<le> length d" using kept by (simp add: kept_disk_def same_but_def)
  then have "blocks_ok ?g" using fs_okD(2) [OF ok] by (simp add: blocks_ok_def free_blocks_def)
  then have "tree_ok ?g" using tree one by (simp add: tree_ok_def us bl)
  moreover have "inode_inv ?g i" if "i \<in> used_set fs" for i
    using inode_inv_cong [of ?g fs i] one [OF that] fs_okD(8) [OF ok that] by simp
  ultimately show "fs_ok ?g" using ok by (simp add: fs_ok_def us is_dir_def free_inodes_def)
qed

lemma kept_disk_refl [simp]: "kept_disk fs (fd fs)"
  by (simp add: kept_disk_def)

text \<open>
  \<open>same_files fs fs'\<close>: the same inodes with the same contents, whatever the run, its pointers
  and its current directory.
\<close>

definition same_files :: "Filesystem \<Rightarrow> Filesystem \<Rightarrow> bool" where
  "same_files fs fs' \<longleftrightarrow> im fs' = im fs \<and> bm fs' = bm fs \<and> block_size (sblock fs') = block_size (sblock fs) \<and>
     used_set fs' = used_set fs \<and> (\<forall>i\<in>used_set fs. bytes_of fs' i = bytes_of fs i)"

lemma reopen:
  assumes ok: "fs_ok fs" and "synced fs" and kept: "kept_disk fs d" and "length ptrs = 16"
  shows "\<exists>fs'. minifs_open True ptrs (Some d) = Inr fs' \<and> fs_ok fs' \<and> synced fs' \<and> fd fs' = d \<and>
    current_dir fs' = 0 \<and> same_files fs fs'"
proof -
  from assms(2) obtain r where r: "length r = 20" "stored ((sblock fs)\<lparr>sb_repr := r\<rparr>) (fd fs)"
    by (auto simp: synced_def)
  let ?sb = "(sblock fs)\<lparr>sb_repr := r\<rparr>" and ?t = "take 4 r @ ptrs"
  let ?g = "retagged ?t 0 (fs\<lparr>fd := d\<rparr>)"
  have ms: "meta_size ?sb = meta_size (sblock fs)" by (simp add: meta_size_def)
  have "{0..<0 + meta_size (sblock fs)} \<inter> - recorded fs = {}" by (auto simp: recorded_def)
  with kept r(2) have "pread 0 (meta_size (sblock fs)) d = pread 0 (meta_size (sblock fs)) (fd fs)"
    unfolding kept_disk_def stored_def ms by (intro pread_same_but) auto
  then have st: "stored ?sb d"
    using r(2) kept unfolding stored_def ms kept_disk_def same_but_def by auto
  have sb: "sb_ok ?sb" using fs_okD(3) [OF ok] r(1) by (rule sb_ok_repr)
  have open_eq: "minifs_open True ptrs (Some d) = Inr ?g"
    using open_stored [OF sb st, of ptrs] by (simp add: opened_def retagged_def)
  note k = kept_fs_ok [OF ok kept]
  have "is_dir (fs\<lparr>fd := d\<rparr>) (unat (0 :: u32))" using fs_okD(6) [OF ok] by (simp add: is_dir_def)
  then have "fs_ok ?g" using k(1) r(1) assms(4) by (intro retagged_ok) simp_all
  moreover have "synced ?g"
    unfolding synced_def using st r(1) by (intro exI [of _ r]) (simp add: retagged_def)
  moreover have "same_files fs ?g" using k(2,3) by (simp add: same_files_def)
  ultimately show ?thesis using open_eq by (intro exI [of _ ?g]) simp
qed

end
