(* ===== verification/Cmd_Run.thy ===== *)
theory Cmd_Run
  imports Cmd_Session
begin

text \<open>
  The commands that remove nothing, from a session whose invariant holds: what \<open>ls\<close> prints, where
  \<open>cd\<close> goes, the dispatch, and the outcomes of a command.
\<close>


section \<open>ls and cd\<close>

abbreviation cur_entries :: "Filesystem \<Rightarrow> dentry list" where
  "cur_entries fs \<equiv> entries (bytes_of fs (unat (current_dir fs)))"

lemma minifs_ls_eq:
  assumes "fs_ok (s_fs s)"
  shows "minifs_ls data s = Inr (out (blue ''.'' @ '' '' @ blue ''..'' @ '' '' @
    concat (map (ls_text (s_fs s)) (rows (dirmap (cur_entries (s_fs s))))) @ newline) s)"
  using cur_rows [OF assms] ls_loop_ok [of "rows (dirmap (cur_entries (s_fs s)))" "out (blue ''.'' @ '' '' @ blue ''..'' @ '' '') s"]
  by (simp add: minifs_ls_def) (simp add: out_def)

text \<open>Where \<open>cd\<close> goes: the first directory of that name, whether its entry is in use or not.\<close>

definition named_dir :: "Filesystem \<Rightarrow> string \<Rightarrow> u32 option" where
  "named_dir fs token =
     (let rs = rows (dirmap (cur_entries fs)) in
      map_option (\<lambda>k. row_inode (rs ! k)) (find_first (row_is fs MINIFS_INODE_DIRECTORY token) rs))"

definition cd_target :: "Filesystem \<Rightarrow> string \<Rightarrow> u32 option" where
  "cd_target fs token =
     (if token = ''.'' then Some (current_dir fs)
      else if token = ''..'' then Some (of_int (parent (im fs ! unat (current_dir fs))))
      else named_dir fs token)"

lemma named_dir_dir:
  assumes "fs_ok fs" and "named_dir fs token = Some i"
  shows "is_dir fs (unat i)"
proof -
  from assms(2) obtain k where "find_first (row_is fs MINIFS_INODE_DIRECTORY token) (rows (dirmap (cur_entries fs))) = Some k"
      "i = row_inode (rows (dirmap (cur_entries fs)) ! k)"
    unfolding named_dir_def Let_def map_option_eq_Some by blast
  with find_row_Some [OF this(1) cur_rows(2) [OF assms(1)]] show ?thesis by (simp add: is_dir_def)
qed

lemma minifs_cd_eq:
  assumes ok: "fs_ok (s_fs s)" and "NUL \<notin> set token" and "data = cmd # token # rest"
  shows "minifs_cd data s = Inr (case cd_target (s_fs s) token of
      Some i \<Rightarrow> s\<lparr>s_fs := (s_fs s)\<lparr>current_dir := i\<rparr>\<rparr>
    | None \<Rightarrow> err (''directory not found'' @ newline) s)"
proof -
  have cd: "unat (current_dir (s_fs s)) < length (im (s_fs s))" using fs_okD(5) [OF ok] by (simp add: is_dir_def)
  show ?thesis
    using assms(3) cur_rows [OF ok] cd_loop_ok [OF assms(2) cur_rows(2) [OF ok]] get_inode_u32 [OF cd]
    by (auto simp: minifs_cd_def cd_target_def named_dir_def Let_def split: option.split)
qed

lemma cd_target_dir:
  assumes ok: "fs_ok fs" and "cd_target fs token = Some i"
  shows "is_dir fs (unat i)"
proof -
  let ?cd = "unat (current_dir fs)"
  have cdir: "is_dir fs ?cd" using ok by (rule fs_okD)
  have "i = current_dir fs \<or> i = of_int (parent (im fs ! ?cd)) \<or> named_dir fs token = Some i"
    using assms(2) unfolding cd_target_def by (metis option.inject)
  then consider "i = current_dir fs" | "i = of_int (parent (im fs ! ?cd))" | "named_dir fs token = Some i"
    by blast
  then show ?thesis
  proof cases
    case 1
    with cdir show ?thesis by simp
  next
    case 2
    have p: "0 \<le> parent (im fs ! ?cd)" "is_dir fs (nat (parent (im fs ! ?cd)))"
      using dir_inv [OF ok cdir] by (auto simp: dir_ok_def)
    then have "nat (parent (im fs ! ?cd)) < 4294967296"
      using inodes_few [OF fs_okD(3) [OF ok]] by (simp add: is_dir_def)
    then have "unat i = nat (parent (im fs ! ?cd))"
      unfolding 2 status_of_nat [OF p(1)] by (rule of_nat_u32)
    with p(2) show ?thesis by simp
  next
    case 3
    with ok show ?thesis by (rule named_dir_dir)
  qed
qed


section \<open>The dispatch\<close>

lemma execute_eq:
  "minifs_execute af data s =
    (if data = [] then Inr s
     else if hd data = ''cd'' then minifs_cd data s
     else if hd data = ''ls'' then minifs_ls data s
     else if hd data = ''mkdir'' then minifs_mkdir data s
     else if hd data = ''rmdir'' then minifs_rmdir data s
     else if hd data = ''touch'' then minifs_touch data s
     else if hd data = ''rm'' then minifs_rm data s
     else if hd data = ''write'' then minifs_write af data s
     else if hd data = ''read'' then minifs_read data s
     else if hd data = ''help'' then minifs_help command_texts data s
     else if hd data = ''exit'' then minifs_exit data s
     else if hd data = ''debug'' then minifs_debug data s
     else Inr s)"
  by (cases data) (auto simp: minifs_execute_def commands_def command_texts_def)

text \<open>The types \<open>debug\<close> uses as indices are those of the enumerations.\<close>

lemma symbols_ok: "\<forall>t\<in>set ts. unat t < length symbols \<Longrightarrow> \<exists>cs. symbols_text d symbols ts = Inr cs"
  by (induction ts) (auto simp: symbol_def)

lemma minifs_debug_ok:
  assumes ok: "fs_ok (s_fs s)"
  shows "\<exists>str. minifs_debug data s = Inr (out str s)"
proof -
  have "unat (i_type (im (s_fs s) ! i)) < 3" if "i < length (im (s_fs s))" for i
  proof (cases "i \<in> used_set (s_fs s)")
    case True
    from fs_okD(8) [OF ok this] show ?thesis
      by (auto simp: inode_inv_def MINIFS_INODE_DIRECTORY_def MINIFS_INODE_FILE_def)
  next
    case False
    with that show ?thesis by (simp add: used_set_def MINIFS_INODE_EMPTY_def)
  qed
  then have "\<forall>t\<in>set (map i_type (im (s_fs s))). unat t < length ''.fd''"
    by (auto simp: in_set_conv_nth numeral_3_eq_3)
  then obtain a where a: "symbols_text (sdisk s) ''.fd'' (map i_type (im (s_fs s))) = Inr a"
    using symbols_ok by blast
  have "\<forall>b\<in>set (bm (s_fs s)). b_type b = MINIFS_BLOCK_EMPTY \<or> b_type b = MINIFS_BLOCK_USED"
    using fs_okD(2) [OF ok] by (simp add: blocks_ok_def)
  then have "\<forall>t\<in>set (map b_type (bm (s_fs s))). unat t < length ''.#''"
    by (auto simp: MINIFS_BLOCK_EMPTY_def MINIFS_BLOCK_USED_def)
  then obtain b where b: "symbols_text (sdisk s) ''.#'' (map b_type (bm (s_fs s))) = Inr b"
    using symbols_ok by blast
  show ?thesis unfolding minifs_debug_def Let_def a b by (simp only: rbind.simps) blast
qed


section \<open>Commands that remove nothing\<close>

text \<open>
  The outcomes of a command: a session whose invariant holds, with some of the lines read; the
  end of the process by \<open>exit\<close>, or because the blocks ran out; a null pointer or no return,
  when the line \<open>write\<close> asks for is the end of the input or is not there yet. The files on the disk are in each case those
  of before or after the command.
\<close>

definition fine :: "session \<Rightarrow> session fres \<Rightarrow> bool" where
  "fine s r \<longleftrightarrow> (case r of
       Inr s' \<Rightarrow> fs_ok (s_fs s') \<and> synced (s_fs s') \<and> (\<exists>k. s_in s' = drop k (s_in s))
     | Inl (e, d) \<Rightarrow> kept_disk (s_fs s) d \<and>
         (e = Exit 0 \<or> e = Exit (-1) \<or> e = no_line s \<and> next_line s = None))"

lemma drop_some [simp]: "\<exists>k. xs = drop k xs" "\<exists>k. tl xs = drop k xs"
  by (rule exI [of _ 0], simp, rule exI [of _ 1], simp add: drop_Suc)

lemma fineI: "fs_ok (s_fs s') \<Longrightarrow> synced (s_fs s') \<Longrightarrow> s_in s' = s_in s \<Longrightarrow> fine s (Inr s')"
  by (auto simp: fine_def)

lemma make_inode_fine:
  assumes ok: "fs_ok (s_fs s)" "synced (s_fs s)"
    and "ty = MINIFS_INODE_FILE \<or> ty = MINIFS_INODE_DIRECTORY" and "int32 (par (s_fs s))"
    and "ty = MINIFS_INODE_DIRECTORY \<longrightarrow> par (s_fs s) = int (unat (current_dir (s_fs s)))"
  shows "fine s (make_inode ty par name s)"
  using make_inode_outcome [where par = par, OF ok(1) assms(3-5), of name] ok
  by (auto simp: fine_def split: if_splits)

lemma mkdir_parent:
  assumes "fs_ok fs"
  shows "sint (current_dir fs) = int (unat (current_dir fs))" and "int32 (sint (current_dir fs))"
proof -
  have "unat (current_dir fs) < 2147483648"
    using fs_okD(5) [OF assms] inodes_few [OF fs_okD(3) [OF assms]] by (simp add: is_dir_def)
  then show "sint (current_dir fs) = int (unat (current_dir fs))"
    using sint_of_nat_u32 [of "unat (current_dir fs)"] by simp
  show "int32 (sint (current_dir fs))" by (rule int32_sint)
qed

lemma minifs_write_fine:
  assumes ok: "fs_ok (s_fs s)" "synced (s_fs s)" and "NUL \<notin> set token" and "data = cmd # token # rest"
    and af: "kept_data af (''write'' # token # rest) s" and len: "\<forall>l. next_line s = Some l \<longrightarrow> length l < 4294967296"
  shows "fine s (minifs_write af data s)"
proof (cases "target_file (s_fs s) token")
  case None
  then show ?thesis using ok by (simp add: minifs_write_eq [OF ok(1) assms(3,4)] fineI)
next
  case (Some i)
  show ?thesis
  proof (cases "next_line s")
    case None
    with Some show ?thesis by (simp add: minifs_write_eq [OF ok(1) assms(3,4)] fine_def)
  next
    case line: (Some l)
    have "length l < 4294967296" using len line by simp
    from write_file_ok [OF ok(1) _ _ this, of "unat i" "af l"] target_file_ok(2) [OF ok(1) assms(3) Some] kept_dataD [OF af Some line]
    have "if length l \<le> avail (s_fs s) (unat i)
      then \<exists>fs'. write_file (unat i) l (af l) (s_fs s) = Inr fs' \<and> fs_ok fs' \<and> synced fs'
      else \<exists>d. write_file (unat i) l (af l) (s_fs s) = Inl (Exit (-1), d) \<and> kept_disk (s_fs s) d" by auto
    with Some line show ?thesis
      by (auto simp: minifs_write_eq [OF ok(1) assms(3,4)] on_fs_def prompted_def fine_def drop_Suc
          split: if_splits)
  qed
qed

lemma execute_keeps_fine:
  assumes ok: "fs_ok (s_fs s)" "synced (s_fs s)" and data: "\<forall>t\<in>set data. NUL \<notin> set t"
    and safe: "data = [] \<or> hd data \<noteq> ''rm'' \<and> hd data \<noteq> ''rmdir''"
    and af: "kept_data af data s" and len: "\<forall>l. next_line s = Some l \<longrightarrow> length l < 4294967296"
  shows "fine s (minifs_execute af data s)"
proof -
  have one: "fine s (Inr s)" "fine s (Inr (err str s))" "fine s (Inr (out str s))" "fine s (Inr (out str (strayed s)))" for str
    using ok by (simp_all add: fineI)
  obtain str where deb: "minifs_debug data s = Inr (out str s)" using minifs_debug_ok [OF ok(1)] by blast
  have ex: "fine s (minifs_exit data s)" by (simp add: minifs_exit_def fine_def)
  have ls: "fine s (minifs_ls data s)" unfolding minifs_ls_eq [OF ok(1)] by (rule one)
  have hp: "fine s (minifs_help command_texts data s)" by (simp add: minifs_help_def one)
  consider "data = []" | cmd where "data = [cmd]" | cmd token rest where "data = cmd # token # rest"
    by (metis list.exhaust)
  then have "fine s (minifs_cd data s) \<and> fine s (minifs_mkdir data s) \<and> fine s (minifs_touch data s) \<and>
    (data \<noteq> [] \<longrightarrow> hd data = ''write'' \<longrightarrow> fine s (minifs_write af data s)) \<and> fine s (minifs_read data s)"
  proof cases
    case 1
    then show ?thesis
      using one by (simp add: minifs_cd_def minifs_mkdir_def minifs_touch_def minifs_write_def minifs_read_def)
  next
    case 2
    then show ?thesis
      using one by (simp add: minifs_cd_def minifs_mkdir_def minifs_touch_def minifs_write_def minifs_read_def)
  next
    case 3
    have t: "NUL \<notin> set token" using data 3 by simp
    have cd: "fine s (minifs_cd data s)"
      using minifs_cd_eq [OF ok(1) t 3] cd_target_dir [OF ok(1), of token] cd_fs_ok [OF ok(1)] one ok(2)
      by (auto split: option.split intro: fineI)
    have mk: "fine s (minifs_mkdir data s)"
      using make_inode_fine [OF ok, of MINIFS_INODE_DIRECTORY "\<lambda>fs. sint (current_dir fs)" token] mkdir_parent [OF ok(1)] 3
      by (simp add: minifs_mkdir_def)
    have tc: "fine s (minifs_touch data s)"
      using make_inode_fine [OF ok, of MINIFS_INODE_FILE "\<lambda>fs. -1" token] 3
      by (simp add: minifs_touch_def int32_def)
    have rd: "fine s (minifs_read data s)"
      using minifs_read_eq [OF ok(1) t 3] one by (simp split: option.split)
    have "fine s (minifs_write af data s)" if "hd data = ''write''"
      using minifs_write_fine [OF ok t 3 _ len] af that 3 by simp
    with cd mk tc rd show ?thesis by blast
  qed
  with one ls hp ex deb safe show ?thesis by (cases "data = []") (simp_all add: execute_eq)
qed

end
