(* ===== verification/Cmd_Release.thy ===== *)
theory Cmd_Release
  imports Cmd_Run
begin

text \<open>
  The second half of \<open>rmdir\<close> and \<open>rm\<close>: the blocks of a chain are returned to the free ones and the
  inode is cleared.
\<close>


section \<open>Releasing the blocks of a chain\<close>

primrec freed :: "nat list \<Rightarrow> Filesystem \<Rightarrow> Filesystem" where
  "freed [] fs = fs"
| "freed (b # bs) fs = freed bs (add_used_blocks (-1) (put_block fs b zero_Block))"

lemma freed_simps [simp]:
  "im (freed xs fs) = im fs" "fd (freed xs fs) = fd fs" "current_dir (freed xs fs) = current_dir fs"
  "block_size (sblock (freed xs fs)) = block_size (sblock fs)"
  "inode_count (sblock (freed xs fs)) = inode_count (sblock fs)"
  "block_count (sblock (freed xs fs)) = block_count (sblock fs)"
  "used_inode_count (sblock (freed xs fs)) = used_inode_count (sblock fs)"
  "sb_repr (sblock (freed xs fs)) = sb_repr (sblock fs)"
  "length (bm (freed xs fs)) = length (bm fs)"
  by (induction xs arbitrary: fs) (simp_all add: put_block_def add_used_blocks_def)

lemma freed_count: "used_block_count (sblock (freed xs fs)) = used_block_count (sblock fs) - of_nat (length xs)"
  by (induction xs arbitrary: fs) (simp_all add: put_block_def add_used_blocks_def)

lemma freed_block:
  "b < length (bm fs) \<Longrightarrow> bm (freed xs fs) ! b = (if b \<in> set xs then zero_Block else bm fs ! b)"
  by (induction xs arbitrary: fs) (auto simp: put_block_def add_used_blocks_def nth_list_update)

lemma release_chain_ok:
  "chain (bm fs) r xs \<Longrightarrow> distinct xs \<Longrightarrow> 0 \<notin> set xs \<Longrightarrow> release_chain r fs = Inr (freed xs fs)"
proof (induction xs arbitrary: r fs)
  case Nil
  then show ?case by (subst release_chain.simps) simp
next
  case (Cons b xs)
  let ?g = "add_used_blocks (-1) (put_block fs b zero_Block)"
  have b: "r = int b" "b < length (bm fs)" "0 < b" "chain (bm fs) (next_block (bm fs ! b)) xs" "b \<notin> set xs"
    using Cons.prems by auto
  have "bm ?g = (bm fs)[b := zero_Block]" by (simp add: put_block_def add_used_blocks_def)
  moreover have "(bm fs)[b := zero_Block] ! c = bm fs ! c" if "c \<in> set xs" for c
    using that b(5) by (metis nth_list_update_neq)
  ultimately have "chain (bm ?g) (next_block (bm fs ! b)) xs"
    using b by (intro chain_cong [of "bm fs" "next_block (bm fs ! b)" xs "bm ?g"]) simp_all
  then have "release_chain (next_block (bm fs ! b)) ?g = Inr (freed xs ?g)"
    using Cons.prems by (intro Cons.IH) auto
  with b show ?case
    by (subst release_chain.simps) (simp add: get_block_int upd_block_int)
qed


section \<open>Releasing an inode\<close>

text \<open>Chains that a change of the tables does not touch.\<close>

lemma chain_same:
  assumes "file_chain fs r xs" and "length (im g) = length (im fs)" and "length (bm g) = length (bm fs)"
    and "block_size (sblock g) = block_size (sblock fs)" and "fd g = fd fs"
    and blk: "\<And>b. b \<in> set xs \<Longrightarrow> bm g ! b = bm fs ! b"
  shows "file_chain g r xs" and "content g xs = content fs xs"
proof -
  have p: "pos g = pos fs" using body_pos_cong [of "sblock g" "sblock fs"] assms(2-4) by simp
  show "content g xs = content fs xs"
    unfolding content_def by (intro arg_cong [where f = concat] map_cong) (simp_all add: body_def blk p assms(5))
  have "chain (bm g) r xs"
    using assms(1,3) blk by (intro chain_cong [of "bm fs" r xs "bm g"]) (simp_all add: file_chain_def)
  moreover have "full g xs" using assms(1,4) blk by (simp add: file_chain_def full_def in_set_butlastD)
  ultimately show "file_chain g r xs" using assms(1,3-5) blk p by (simp add: file_chain_def block_in_def)
qed

definition released :: "Filesystem \<Rightarrow> nat \<Rightarrow> Filesystem" where
  "released fs t = add_used_inodes (-1) (put_inode (freed (blocks_of fs t) fs) t zero_Inode)"

lemma released_simps [simp]:
  "im (released fs t) = (im fs)[t := zero_Inode]" "bm (released fs t) = bm (freed (blocks_of fs t) fs)"
  "fd (released fs t) = fd fs" "current_dir (released fs t) = current_dir fs"
  "block_size (sblock (released fs t)) = block_size (sblock fs)"
  "inode_count (sblock (released fs t)) = inode_count (sblock fs)"
  "block_count (sblock (released fs t)) = block_count (sblock fs)"
  "used_inode_count (sblock (released fs t)) = used_inode_count (sblock fs) - 1"
  "used_block_count (sblock (released fs t)) = used_block_count (sblock fs) - of_nat (length (blocks_of fs t))"
  "sb_repr (sblock (released fs t)) = sb_repr (sblock fs)"
  by (simp_all add: released_def put_inode_def add_used_inodes_def freed_count)

lemma released_pos [simp]:
  "pos (released fs t) = pos fs" "meta_size (sblock (released fs t)) = meta_size (sblock fs)"
  using body_pos_cong [of "sblock (released fs t)" "sblock fs"] by simp_all

text \<open>An inode that can go: in use, not the root, not the current directory, parent of none.\<close>

definition removable :: "Filesystem \<Rightarrow> nat \<Rightarrow> bool" where
  "removable fs t \<longleftrightarrow> t \<in> used_set fs \<and> t \<noteq> 0 \<and> t \<noteq> unat (current_dir fs) \<and>
     (\<forall>j<length (im fs). is_dir fs j \<longrightarrow> j \<noteq> t \<longrightarrow> nat (parent (im fs ! j)) \<noteq> t)"

lemma released_used: "used_set (released fs t) = used_set fs - {t}"
proof (rule set_eqI)
  fix j
  show "j \<in> used_set (released fs t) \<longleftrightarrow> j \<in> used_set fs - {t}"
    by (cases "j = t") (auto simp: used_set_def zero_Inode_def)
qed

lemma released_old:
  assumes "tree_ok fs" and t: "t \<in> used_set fs" and j: "j \<in> used_set fs" "j \<noteq> t"
  shows "file_chain (released fs t) (root_block (im fs ! j)) (blocks_of fs j)"
    and "blocks_of (released fs t) j = blocks_of fs j" and "bytes_of (released fs t) j = bytes_of fs j"
proof -
  have c: "file_chain fs (root_block (im fs ! j)) (blocks_of fs j)" using assms(1) j by (simp add: tree_ok_def)
  have blk: "bm (released fs t) ! b = bm fs ! b" if b: "b \<in> set (blocks_of fs j)" for b
  proof -
    have "b \<notin> set (blocks_of fs t)" using assms(1) t j b by (auto simp: tree_ok_def)
    moreover have "b < length (bm fs)" using used_block [OF assms(1) j(1) b] by (simp add: block_in_def)
    ultimately show ?thesis by (simp add: freed_block)
  qed
  have len: "length (im (released fs t)) = length (im fs)" "length (bm (released fs t)) = length (bm fs)" by simp_all
  note cs = chain_same [OF c len, OF _ _ blk]
  show f: "file_chain (released fs t) (root_block (im fs ! j)) (blocks_of fs j)" by (rule cs) simp_all
  then show e: "blocks_of (released fs t) j = blocks_of fs j" using j by (intro blocks_of_eq) simp
  show "bytes_of (released fs t) j = bytes_of fs j" unfolding bytes_of_def e by (rule cs) simp_all
qed

lemma released_free:
  assumes ok: "fs_ok fs" and t: "t \<in> used_set fs" "t \<noteq> 0"
  shows "free_blocks (released fs t) = free_blocks fs + length (blocks_of fs t)"
    and "unat (used_block_count (sblock (released fs t))) + length (blocks_of fs t) = unat (used_block_count (sblock fs))"
proof -
  let ?xs = "blocks_of fs t"
  have tree: "tree_ok fs" using ok by (rule fs_okD)
  have fb: "free_blocks g = card (empty_set g)" for g
    by (simp add: free_blocks_def empty_set_def length_filter_conv_card)
  have xs: "set ?xs \<subseteq> {..<length (bm fs)}" "distinct ?xs" "set ?xs \<inter> empty_set fs = {}"
    using tree t used_block [OF tree t(1)] by (auto simp: tree_ok_def file_chain_def block_in_def empty_set_def)
  have e: "empty_set (released fs t) = empty_set fs \<union> set ?xs"
    using xs by (auto simp: empty_set_def freed_block zero_Block_def split: if_splits)
  have fin: "finite (empty_set fs)" by (simp add: empty_set_def)
  have cu: "card (empty_set fs \<union> set ?xs) = card (empty_set fs) + length ?xs"
    using xs fin by (subst card_Un_disjoint) (auto simp: distinct_card)
  with e show "free_blocks (released fs t) = free_blocks fs + length ?xs" by (simp add: fb)
  have z: "0 \<in> set (blocks_of fs 0)"
    using tree is_dir_used [OF fs_okD(6) [OF ok]] fs_okD(7) [OF ok]
    by (cases "blocks_of fs 0") (auto simp: tree_ok_def file_chain_def)
  then have z0: "0 \<notin> set ?xs" "0 \<notin> empty_set fs" "0 < length (bm fs)"
    using zero_chain [OF ok t] used_block [OF tree is_dir_used [OF fs_okD(6) [OF ok]], of 0]
    by (auto simp: block_in_def empty_set_def)
  have "insert 0 (empty_set fs \<union> set ?xs) \<subseteq> {..<length (bm fs)}"
    using xs(1) z0(3) by (auto simp: empty_set_def)
  from card_mono [OF _ this] have "Suc (card (empty_set fs) + length ?xs) \<le> length (bm fs)"
    using z0 cu fin by simp
  moreover have "Suc (unat (used_block_count (sblock fs))) + free_blocks fs = length (bm fs)"
    using fs_okD(2) [OF ok] by (simp add: blocks_ok_def)
  ultimately have n: "length ?xs \<le> unat (used_block_count (sblock fs))" by (simp add: fb)
  then have "length ?xs < 4294967296" using unat_u32 [of "used_block_count (sblock fs)"] by linarith
  then have u: "unat (of_nat (length ?xs) :: u32) = length ?xs" by (rule of_nat_u32)
  with n have "(of_nat (length ?xs) :: u32) \<le> used_block_count (sblock fs)" by (simp add: word_le_nat_alt)
  then have "unat (used_block_count (sblock fs) - of_nat (length ?xs)) = unat (used_block_count (sblock fs)) - length ?xs"
    using u by (simp add: unat_sub)
  with n show "unat (used_block_count (sblock (released fs t))) + length ?xs = unat (used_block_count (sblock fs))"
    by simp
qed

text \<open>Releasing a removable inode keeps the invariant.\<close>

lemma released_sb_ok:
  assumes "fs_ok fs"
  shows "sb_ok (sblock (released fs t))"
proof -
  have sb: "sb_ok (sblock fs)" using assms by (rule fs_okD)
  have "\<forall>x\<in>set (im (released fs t)). inode_ok x"
    using sb set_update_subset_insert [of "im fs" t zero_Inode]
    by (auto simp: sb_ok_def inode_ok_def zero_Inode_def int32_def)
  moreover have "block_ok x" if "x \<in> set (bm (released fs t))" for x
  proof -
    from that obtain b where "b < length (bm fs)" "x = bm (freed (blocks_of fs t) fs) ! b"
      by (auto simp: in_set_conv_nth)
    then show ?thesis using sb by (auto simp: freed_block sb_ok_def block_ok_def zero_Block_def int32_def)
  qed
  ultimately show ?thesis unfolding sb_ok_def using sb_okD(1-4) [OF sb] by (simp del: sb_okD)
qed

lemma released_tree:
  assumes ok: "fs_ok fs" and t: "removable fs t"
  shows "tree_ok (released fs t)"
proof -
  have tree: "tree_ok fs" using ok by (rule fs_okD)
  have tu: "t \<in> used_set fs" "t \<noteq> 0" using t by (simp_all add: removable_def)
  note bok = fs_okD(2) [OF ok]
  have "b_type x = MINIFS_BLOCK_EMPTY \<or> b_type x = MINIFS_BLOCK_USED" if "x \<in> set (bm (released fs t))" for x
  proof -
    from that obtain b where "b < length (bm fs)" "x = bm (freed (blocks_of fs t) fs) ! b"
      by (auto simp: in_set_conv_nth)
    then show ?thesis using bok by (auto simp: freed_block blocks_ok_def zero_Block_def)
  qed
  moreover have "Suc (unat (used_block_count (sblock (released fs t)))) + free_blocks (released fs t) =
      length (bm (released fs t))"
    using released_free [OF ok tu] bok by (simp add: blocks_ok_def)
  ultimately have "blocks_ok (released fs t)"
    using bok released_sb_ok [OF ok] by (simp add: blocks_ok_def)
  moreover have "set (blocks_of (released fs t) i) \<inter> set (blocks_of (released fs t) j) = {}"
    if "i \<in> used_set fs - {t}" "j \<in> used_set fs - {t}" "i \<noteq> j" for i j
    using that released_old(2) [OF tree tu(1)] tree by (simp add: tree_ok_def)
  moreover have "file_chain (released fs t) (root_block (im (released fs t) ! j)) (blocks_of (released fs t) j)"
    if "j \<in> used_set fs - {t}" for j
    using that released_old [OF tree tu(1), of j] by simp
  ultimately show ?thesis unfolding tree_ok_def released_used by blast
qed

lemma released_ok:
  assumes ok: "fs_ok fs" and t: "removable fs t"
  shows "fs_ok (released fs t)"
proof -
  have tree: "tree_ok fs" using ok by (rule fs_okD)
  have tu: "t \<in> used_set fs" "t \<noteq> 0" "t \<noteq> unat (current_dir fs)" and tl: "t < length (im fs)"
    using t by (simp_all add: removable_def used_set_def)
  have dir: "is_dir (released fs t) j" if "is_dir fs j" "j \<noteq> t" for j
    using that by (simp add: is_dir_def)
  have inv: "inode_inv (released fs t) j" if j: "j \<in> used_set fs - {t}" for j
  proof -
    have b: "bytes_of (released fs t) j = bytes_of fs j" using j released_old(3) [OF tree tu(1)] by simp
    have e: "im (released fs t) ! j = im fs ! j" using j by simp
    have "nat (parent (im fs ! j)) \<noteq> t" if "i_type (im fs ! j) = MINIFS_INODE_DIRECTORY"
      using t j that by (simp add: removable_def is_dir_def used_set_def)
    with fs_okD(8) [OF ok, of j] j dir show ?thesis
      by (auto simp: inode_inv_def dir_ok_def b e)
  qed
  have cnt: "Suc (unat (used_inode_count (sblock (released fs t)))) + free_inodes (released fs t) = length (im fs)"
  proof -
    have fi: "free_inodes g = card ({..<length (im g)} - used_set g)" for g
      unfolding free_inodes_def length_filter_conv_card used_set_def by (rule arg_cong [where f = card]) auto
    have "{..<length (im fs)} - used_set (released fs t) = insert t ({..<length (im fs)} - used_set fs)"
      using tl by (auto simp: released_used)
    then have f1: "free_inodes (released fs t) = Suc (free_inodes fs)" using tu(1) by (simp add: fi)
    have c0: "Suc (unat (used_inode_count (sblock fs))) + free_inodes fs = length (im fs)" using ok by (simp add: fs_ok_def)
    have "{0, t} \<subseteq> {..<length (im fs)} - ({..<length (im fs)} - used_set fs)"
      using tu(1) tl is_dir_used [OF fs_okD(6) [OF ok]] by (auto simp: used_set_def)
    then have "{0, t} \<union> ({..<length (im fs)} - used_set fs) \<subseteq> {..<length (im fs)}"
      "{0, t} \<inter> ({..<length (im fs)} - used_set fs) = {}" by auto
    then have "card {0, t} + free_inodes fs \<le> length (im fs)"
      using card_mono [of "{..<length (im fs)}" "{0, t} \<union> ({..<length (im fs)} - used_set fs)"]
        card_Un_disjoint [of "{0, t}" "{..<length (im fs)} - used_set fs"] by (simp add: fi)
    then have u1: "1 \<le> unat (used_inode_count (sblock fs))" using c0 tu(2) by simp
    then have "(1 :: u32) \<le> used_inode_count (sblock fs)" by (simp add: word_le_nat_alt)
    then have "unat (used_inode_count (sblock fs) - 1) = unat (used_inode_count (sblock fs)) - 1" by (simp add: unat_sub)
    with f1 c0 u1 show ?thesis by simp
  qed
  show ?thesis
    unfolding fs_ok_def released_used
    using released_tree [OF ok t] fs_okD(4-7) [OF ok] dir tu inv cnt by auto
qed

lemma release_inode_ok:
  assumes ok: "fs_ok fs" and t: "removable fs t"
  shows "release_inode (int t) fs = Inr (updated (released fs t))"
proof -
  have tu: "t \<in> used_set fs" "t \<noteq> 0" "t < length (im fs)" using t by (simp_all add: removable_def used_set_def)
  have c: "chain (bm fs) (root_block (im fs ! t)) (blocks_of fs t)" "distinct (blocks_of fs t)"
    using fs_okD(1) [OF ok] tu(1) by (auto simp: tree_ok_def file_chain_def)
  have u: "minifs_update_superblock (released fs t) = Inr (updated (released fs t))"
    using released_sb_ok [OF ok] by (rule update_ok)
  have "get_inode fs (int t) = Inr (im fs ! t)" using tu(3) by (simp add: get_inode_def)
  moreover have "upd_inode (freed (blocks_of fs t) fs) (int t) (\<lambda>i. zero_Inode) =
      Inr (put_inode (freed (blocks_of fs t) fs) t zero_Inode)"
    using tu(3) by (simp add: upd_inode_int)
  ultimately show ?thesis
    using u release_chain_ok [OF c zero_chain [OF ok tu(1,2)]] by (simp add: release_inode_def released_def)
qed

end
