(* ===== verification/Cmd_Mark.thy ===== *)
theory Cmd_Mark
  imports Cmd_Release
begin

text \<open>
  The first half of \<open>rmdir\<close> and \<open>rm\<close>: where \<open>minifs_remove_from_dir\<close> writes in a directory of any
  number of blocks, that this marks one entry as unused and changes nothing else, and the search
  of the two commands, which marks every entry that matches.
\<close>


section \<open>Marking an entry as unused\<close>

text \<open>The entries \<open>js\<close> are marked: their first byte is zero.\<close>

definition mark :: "nat set \<Rightarrow> dentry list \<Rightarrow> dentry list" where
  "mark js es = map (\<lambda>k. if k \<in> js then (NUL, snd (es ! k)) else es ! k) [0..<length es]"

lemma length_mark [simp]: "length (mark js es) = length es"
  by (simp add: mark_def)

lemma nth_mark [simp]: "k < length es \<Longrightarrow> mark js es ! k = (if k \<in> js then (NUL, snd (es ! k)) else es ! k)"
  by (simp add: mark_def)

lemma mark_empty [simp]: "mark {} es = es"
  by (rule nth_equalityI) simp_all

lemma mark_mark: "mark is (mark js es) = mark (is \<union> js) es"
  by (rule nth_equalityI) simp_all

lemma dentry_ok_snd: "dentry_ok n e \<longleftrightarrow> NUL \<in> set (fst (snd e)) \<and> unat (snd (snd e)) < n"
  by (cases e) (simp add: dentry_ok_def)

lemma mark_ok: "\<forall>e\<in>set es. dentry_ok n e \<Longrightarrow> \<forall>e\<in>set (mark js es). dentry_ok n e"
  by (auto simp: mark_def dentry_ok_snd)

lemma entries_mark:
  assumes "length cs mod 32 = 0" and "32 * j < length cs"
  shows "entries (cs[32 * j := NUL]) = mark {j} (entries cs)"
proof -
  define a e b where "a = take (32 * j) cs" and "e = take 32 (drop (32 * j) cs)" and "b = drop (32 * j + 32) cs"
  have "32 * j + 32 \<le> length cs" using assms by presburger
  then have len: "length a = 32 * j" "length e = 32" by (simp_all add: a_def e_def)
  have "drop (32 * j) cs = e @ b" by (simp add: e_def b_def add.commute flip: drop_drop)
  then have cs: "cs = a @ e @ b" by (metis a_def append_take_drop_id)
  have upd: "cs[32 * j := NUL] = a @ e[0 := NUL] @ b"
    using len by (cases e) (simp_all add: cs list_update_append)
  have one: "entries x = [dec_entry x]" if "length x = 32" for x
    using that by (simp add: entries_def)
  have split: "entries (a @ x @ b) = entries a @ [dec_entry x] @ entries b" if "length x = 32" for x
    using len that one by (simp add: entries_append)
  have la: "length (entries a) = j" by (simp add: length_entries len)
  have d: "dec_entry (e[0 := NUL]) = (NUL, snd (dec_entry e))"
    using len(2) by (cases e) (simp_all add: dec_entry_def)
  have l: "length (entries (a @ e[0 := NUL] @ b)) = length (entries (a @ e @ b))"
    using len split by simp
  show ?thesis
  proof (rule nth_equalityI)
    show "length (entries (cs[32 * j := NUL])) = length (mark {j} (entries cs))"
      using l by (simp only: upd length_mark flip: cs)
    fix k
    assume "k < length (entries (cs[32 * j := NUL]))"
    then have k: "k < length (entries (a @ e @ b))" by (simp only: upd l)
    have "entries (a @ e[0 := NUL] @ b) ! k = (entries a @ [(NUL, snd (dec_entry e))] @ entries b) ! k"
      using split [of "e[0 := NUL]"] len d by simp
    also have "\<dots> = mark {j} (entries (a @ e @ b)) ! k"
      using k split [of e] len la by (simp add: nth_append nth_Cons')
    finally show "entries (cs[32 * j := NUL]) ! k = mark {j} (entries cs) ! k" by (simp only: upd flip: cs)
  qed
qed

lemma pread_pwrite_byte:
  assumes "at + n \<le> length d" and "k < n"
  shows "pread at n (pwrite (at + k) [c] d) = (pread at n d)[k := c]"
proof (rule nth_equalityI)
  have l: "at + n \<le> length (pwrite (at + k) [c] d)" using assms(1) by (rule length_pwrite_ge)
  show "length (pread at n (pwrite (at + k) [c] d)) = length ((pread at n d)[k := c])"
    using assms l by (simp add: length_pread)
  fix i
  assume "i < length (pread at n (pwrite (at + k) [c] d))"
  then have i: "i < n" using l by (simp add: length_pread)
  with assms l show "pread at n (pwrite (at + k) [c] d) ! i = (pread at n d)[k := c] ! i"
    by (simp add: pread_def nth_pwrite nth_list_update)
qed

section \<open>The place of an entry\<close>

text \<open>
  A block holds \<open>per_block\<close> entries. The walk of \<open>minifs_remove_from_dir\<close> finds the place of an
  entry unless it is the first one of a block that is not the first of its chain: there it stops
  one block too early.
\<close>

definition per_block :: "Filesystem \<Rightarrow> nat" where
  "per_block fs = bsz fs div 32"

abbreviation dir_blocks :: "Filesystem \<Rightarrow> nat list" where
  "dir_blocks fs \<equiv> blocks_of fs (unat (current_dir fs))"

definition slot :: "Filesystem \<Rightarrow> nat \<Rightarrow> bool" where
  "slot fs j \<longleftrightarrow> j div per_block fs < length (dir_blocks fs) \<and> (j < per_block fs \<or> j mod per_block fs \<noteq> 0)"

definition slot_block :: "Filesystem \<Rightarrow> nat \<Rightarrow> nat" where
  "slot_block fs j = dir_blocks fs ! (j div per_block fs)"

definition hidden :: "nat \<Rightarrow> Filesystem \<Rightarrow> Filesystem" where
  "hidden j fs = fs\<lparr>fd := pwrite (pos fs (slot_block fs j) + 32 * (j mod per_block fs)) [NUL] (fd fs)\<rparr>"

lemma hidden_simps [simp]:
  "sblock (hidden j fs) = sblock fs" "current_dir (hidden j fs) = current_dir fs"
  "used_set (hidden j fs) = used_set fs" "blocks_of (hidden j fs) i = blocks_of fs i"
  "is_dir (hidden j fs) i = is_dir fs i" "slot (hidden j fs) k = slot fs k"
  by (simp_all add: hidden_def used_set_def blocks_of_def is_dir_def slot_def per_block_def)

lemma per_block:
  assumes "fs_ok fs"
  shows "bsz fs = 32 * per_block fs" and "0 < per_block fs" and "32 * (j mod per_block fs) < bsz fs"
proof -
  have b: "0 < bsz fs" "bsz fs mod 32 = 0" using fs_okD(2,4) [OF assms] by (simp_all add: blocks_ok_def)
  then show m: "bsz fs = 32 * per_block fs" "0 < per_block fs" by (auto simp: per_block_def)
  show "32 * (j mod per_block fs) < bsz fs" unfolding m(1) using m(2) by simp
qed

lemma dir_chain:
  assumes "fs_ok fs"
  shows "file_chain fs (root_block (im fs ! unat (current_dir fs))) (dir_blocks fs)"
  using fs_okD(1) [OF assms] is_dir_used [OF fs_okD(5) [OF assms]] by (simp add: tree_ok_def)

lemma slot_block:
  assumes "fs_ok fs" and "slot fs j"
  shows "slot_block fs j \<in> set (dir_blocks fs)" and "block_in fs (slot_block fs j)"
    and "slot_block fs j < length (bm fs)"
proof -
  show s: "slot_block fs j \<in> set (dir_blocks fs)" using assms(2) by (simp add: slot_def slot_block_def)
  with dir_chain [OF assms(1)] show "block_in fs (slot_block fs j)" by (simp add: file_chain_def)
  then show "slot_block fs j < length (bm fs)" by (simp add: block_in_def)
qed

text \<open>The entries of a directory of one block, and any entry that is not the first of its block.\<close>

lemma entry_slot:
  assumes ok: "fs_ok fs" and k: "k < length (cur_entries fs)" and "k < per_block fs \<or> k mod per_block fs \<noteq> 0"
  shows "slot fs k"
proof -
  let ?xs = "dir_blocks fs" and ?m = "per_block fs"
  have c: "?xs \<noteq> []" "\<forall>b\<in>set ?xs. block_in fs b" "full fs ?xs"
    using dir_chain [OF ok] by (auto simp: file_chain_def)
  obtain n where n: "length ?xs = Suc n" using c(1) by (cases ?xs) auto
  have "unat (b_size (bm fs ! last ?xs)) \<le> bsz fs" using c(1,2) by (simp add: block_in_def)
  then have "length (bytes_of fs (unat (current_dir fs))) \<le> bsz fs * length ?xs"
    using content_full_length [OF c] n by (simp add: bytes_of_def)
  then have "32 * k < 32 * ?m * length ?xs" using k per_block(1) [OF ok] by (simp add: length_entries)
  then have "k div ?m < length ?xs" by (simp add: less_mult_imp_div_less mult.commute)
  with assms(3) show ?thesis by (simp add: slot_def)
qed


section \<open>The walk to the place\<close>

lemma div_mod_pred:
  "0 < j mod m \<Longrightarrow> (j - 1) div m = j div m \<and> Suc ((j - 1) mod m) = j mod (m :: nat)"
  by (cases j) (auto simp: div_Suc mod_Suc split: if_splits)

lemma seek_step:
  assumes few: "length (bm fs) < 2147483648" and m: "bsz fs = 32 * m" and b: "b < length (bm fs)" and j: "m < j" "j < 4294967296"
  shows "seek_entry (Suc f) fs (of_nat b) (of_nat j) = seek_entry f fs (of_int (next_block (bm fs ! b))) (of_nat (j - m))"
proof -
  have jn: "unat (of_nat j :: u32) = j" using j(2) by (rule of_nat_u32)
  have "uint (of_nat b :: u32) = int b" using b few by (simp add: uint_nat of_nat_u32)
  then have "get_block fs (uint (of_nat b :: u32)) = Inr (bm fs ! b)" using b by (simp add: get_block_int)
  then show ?thesis using j m by (subst seek_entry.simps) (simp add: jn entry_size_def of_nat_diff)
qed

lemma seek_stop:
  assumes "bsz fs = 32 * m" and "j \<le> m" and "j < 4294967296"
  shows "seek_entry f fs b (of_nat j) = Inr (b, of_nat j)"
proof -
  have "unat (of_nat j :: u32) = j" using assms(3) by (rule of_nat_u32)
  then show ?thesis using assms(1,2) by (subst seek_entry.simps) (simp add: entry_size_def)
qed

lemma seek_chain:
  assumes few: "length (bm fs) < 2147483648" and m: "bsz fs = 32 * m" "0 < m"
  shows "chain (bm fs) (int b) (b # xs) \<Longrightarrow> 0 < j \<Longrightarrow> (j - 1) div m < length (b # xs) \<Longrightarrow> j < 4294967296 \<Longrightarrow>
    (j - 1) div m \<le> fuel \<Longrightarrow>
    seek_entry fuel fs (of_nat b) (of_nat j) = Inr (of_nat ((b # xs) ! ((j - 1) div m)), of_nat (Suc ((j - 1) mod m)))"
proof (induction xs arbitrary: b j fuel)
  case Nil
  then have j: "j \<le> m" using m(2) by (auto simp: div_eq_0_iff)
  from seek_stop [OF m(1) j Nil.prems(4)] j m(2) Nil.prems(2) show ?case by simp
next
  case (Cons c ys)
  show ?case
  proof (cases "j \<le> m")
    case True
    from seek_stop [OF m(1) True Cons.prems(4)] True m(2) Cons.prems(2) show ?thesis by simp
  next
    case False
    have q: "(j - 1) div m = Suc ((j - m - 1) div m)" "(j - 1) mod m = (j - m - 1) mod m"
      using False m(2) le_div_geq [of m "j - 1"] le_mod_geq [of m "j - 1"] by (simp_all add: diff_right_commute)
    obtain f where f: "fuel = Suc f" using Cons.prems(5) q(1) by (cases fuel) auto
    have bl: "b < length (bm fs)" "next_block (bm fs ! b) = int c" "chain (bm fs) (int c) (c # ys)"
      using Cons.prems(1) by auto
    have "seek_entry fuel fs (of_nat b) (of_nat j) = seek_entry f fs (of_nat c) (of_nat (j - m))"
      using seek_step [OF few m(1) bl(1) _ Cons.prems(4)] False by (simp add: f bl(2))
    also have "\<dots> = Inr (of_nat ((c # ys) ! ((j - m - 1) div m)), of_nat (Suc ((j - m - 1) mod m)))"
      using False Cons.prems(3-5) bl(3) q(1) f by (intro Cons.IH) simp_all
    finally show ?thesis by (simp only: q nth_Cons_Suc)
  qed
qed

text \<open>One block past the end of the chain, the walk ends with the block of index -1.\<close>

lemma seek_past:
  assumes few: "length (bm fs) < 2147483648" and m: "bsz fs = 32 * m"
  shows "chain (bm fs) (int b) (b # xs) \<Longrightarrow> length (b # xs) * m < j \<Longrightarrow> j \<le> Suc (length (b # xs)) * m \<Longrightarrow>
    j < 4294967296 \<Longrightarrow> length xs < fuel \<Longrightarrow> next_block (bm fs ! last (b # xs)) = -1 \<Longrightarrow>
    seek_entry fuel fs (of_nat b) (of_nat j) = Inr (-1, of_nat (j - length (b # xs) * m))"
proof (induction xs arbitrary: b j fuel)
  case Nil
  obtain f where f: "fuel = Suc f" using Nil.prems(5) by (cases fuel) auto
  have b: "b < length (bm fs)" "next_block (bm fs ! b) = -1" using Nil.prems(1,6) by auto
  have "seek_entry f fs (of_int (next_block (bm fs ! b))) (of_nat (j - m)) = Inr (-1, of_nat (j - m))"
    using seek_stop [OF m, of "j - m" f "-1"] Nil.prems(3,4) b(2) by simp
  then show ?case using seek_step [OF few m b(1) _ Nil.prems(4), of f] Nil.prems(2) by (simp add: f)
next
  case (Cons c ys)
  obtain f where f: "fuel = Suc f" using Cons.prems(5) by (cases fuel) auto
  have bl: "b < length (bm fs)" "next_block (bm fs ! b) = int c" "chain (bm fs) (int c) (c # ys)"
    using Cons.prems(1) by auto
  have "seek_entry fuel fs (of_nat b) (of_nat j) = seek_entry f fs (of_nat c) (of_nat (j - m))"
    using seek_step [OF few m bl(1) _ Cons.prems(4)] Cons.prems(2) by (simp add: f bl(2))
  also have "\<dots> = Inr (-1, of_nat (j - m - length (c # ys) * m))"
    using Cons.prems(2-6) bl(3) f by (intro Cons.IH) simp_all
  finally show ?case by (simp add: algebra_simps)
qed

text \<open>Two blocks past the end of the chain, the walk leaves the table of blocks.\<close>

lemma seek_out:
  assumes sb: "sb_ok (sblock fs)" and m: "bsz fs = 32 * m"
  shows "chain (bm fs) (int b) (b # xs) \<Longrightarrow> Suc (length (b # xs)) * m < j \<Longrightarrow> j < 4294967296 \<Longrightarrow>
    Suc (length xs) < fuel \<Longrightarrow> seek_entry fuel fs (of_nat b) (of_nat j) = Inl (OutOfBounds, fd fs)"
proof (induction xs arbitrary: b j fuel)
  case Nil
  obtain f where f: "fuel = Suc (Suc f)" using Nil.prems(4) by (metis less_imp_Suc_add add_Suc)
  have b: "b < length (bm fs)" "next_block (bm fs ! b) < 0" using Nil.prems(1) by auto
  have "bm fs ! b \<in> set (bm fs)" using b(1) by simp
  then have nb: "int32 (next_block (bm fs ! b))" using sb by (simp add: sb_ok_def block_ok_def)
  let ?n = "of_int (next_block (bm fs ! b)) :: u32"
  have "sint ?n < 0" using nb b(2) by simp
  then have "2147483648 \<le> unat ?n" using sint_of_nat_u32 [of "unat ?n"] unat_u32 [of ?n] by (simp split: if_splits)
  then have gb: "get_block fs (uint ?n) = Inl (OutOfBounds, fd fs)" using blocks_few [OF sb] by (simp add: get_block_def)
  have jm: "unat (of_nat (j - m) :: u32) = j - m" using Nil.prems(3) by (intro of_nat_u32) simp
  have far: "m < j - m" using Nil.prems(2) by simp
  have "seek_entry (Suc f) fs ?n (of_nat (j - m)) = Inl (OutOfBounds, fd fs)"
    using far m gb by (subst seek_entry.simps) (simp only: jm, simp add: entry_size_def)
  then show ?case using seek_step [OF blocks_few [OF sb] m b(1) _ Nil.prems(3), of "Suc f"] Nil.prems(2) by (simp add: f)
next
  case (Cons c ys)
  obtain f where f: "fuel = Suc f" using Cons.prems(4) by (cases fuel) auto
  have bl: "b < length (bm fs)" "next_block (bm fs ! b) = int c" "chain (bm fs) (int c) (c # ys)"
    using Cons.prems(1) by auto
  have "seek_entry fuel fs (of_nat b) (of_nat j) = seek_entry f fs (of_nat c) (of_nat (j - m))"
    using seek_step [OF blocks_few [OF sb] m bl(1) _ Cons.prems(3)] Cons.prems(2) by (simp add: f bl(2))
  also have "\<dots> = Inl (OutOfBounds, fd fs)"
    using Cons.prems(2-4) bl(3) f by (intro Cons.IH) simp_all
  finally show ?case .
qed

text \<open>The write at the place the walk ends with.\<close>

lemma remove_from_dir_at:
  assumes ok: "fs_ok fs" and j: "j < 4294967296" and b: "b < length (bm fs)" and r: "32 * r \<le> bsz fs"
    and seek: "seek_entry (j + length (bm fs) + 2) fs (of_int (root_block (im fs ! unat (current_dir fs)))) (of_nat j) =
      Inr (of_nat b, of_nat r)"
  shows "minifs_remove_from_dir fs (current_dir fs) (of_nat j) = Inr (fs\<lparr>fd := pwrite (pos fs b + 32 * r) [NUL] (fd fs)\<rparr>)"
proof -
  have cd: "unat (current_dir fs) < length (im fs)" using fs_okD(5) [OF ok] by (simp add: is_dir_def)
  have sb: "sb_ok (sblock fs)" using ok by (rule fs_okD)
  have jn: "unat (of_nat j :: u32) = j" using j by (rule of_nat_u32)
  have rn: "unat (of_nat r :: u32) = r" using r unat_u32 [of "block_size (sblock fs)"] by (intro of_nat_u32) linarith
  have "pos fs b + 32 * r \<le> pos fs (Suc b)" using r by (simp add: body_pos_Suc)
  also have "\<dots> \<le> pos fs (length (bm fs))" using b by (intro body_pos_le) simp
  also have "\<dots> < 4294967296" using sb by (rule sb_okD)
  finally have lt: "pos fs b + 32 * r < 4294967296" .
  have off: "unat (minifs_block_body_offset fs (of_nat b)) = pos fs b" using body_offset [OF sb, of b] b by simp
  have "unat (minifs_block_body_offset fs (of_nat b)) + 32 * r \<le> unat (4294967295 :: u32)" using off lt by simp
  then have "unat (minifs_block_body_offset fs (of_nat b) + of_nat (32 * r)) = pos fs b + 32 * r"
    using unat_plus_nat off by metis
  then show ?thesis
    using get_inode_u32 [OF cd] seek
    by (simp add: minifs_remove_from_dir_def jn rn Let_def entry_size_def minifs_write_block_eq mult.commute)
qed

lemma slot_index:
  assumes ok: "fs_ok fs" and q: "q < length (dir_blocks fs)"
  shows "Suc q * per_block fs < 4294967296"
proof -
  have "length (dir_blocks fs) \<le> length (bm fs)"
    using dir_chain [OF ok] distinct_chain_length by (auto simp: file_chain_def)
  then have "Suc q * (32 * per_block fs) \<le> length (bm fs) * bsz fs"
    using q per_block(1) [OF ok] by (intro mult_le_mono) simp_all
  also have "\<dots> \<le> pos fs (length (bm fs))" by (simp add: body_pos_def)
  also have "\<dots> < 4294967296" using fs_okD(3) [OF ok] by (rule sb_okD)
  finally show ?thesis by simp
qed

lemma dir_seek:
  assumes ok: "fs_ok fs" and j: "0 < j" "(j - 1) div per_block fs < length (dir_blocks fs)" "j < 4294967296"
  shows "seek_entry (j + length (bm fs) + 2) fs (of_int (root_block (im fs ! unat (current_dir fs)))) (of_nat j) =
    Inr (of_nat (dir_blocks fs ! ((j - 1) div per_block fs)), of_nat (Suc ((j - 1) mod per_block fs)))"
proof -
  have c: "chain (bm fs) (root_block (im fs ! unat (current_dir fs))) (dir_blocks fs)" "dir_blocks fs \<noteq> []"
    using dir_chain [OF ok] by (simp_all add: file_chain_def)
  then obtain b xs where x: "dir_blocks fs = b # xs" "root_block (im fs ! unat (current_dir fs)) = int b"
    by (cases "dir_blocks fs") auto
  have "(j - 1) div per_block fs \<le> j" by (meson diff_le_self div_le_dividend le_trans)
  then have "(j - 1) div per_block fs \<le> j + length (bm fs) + 2" by simp
  from seek_chain [OF blocks_few [OF fs_okD(3) [OF ok]] per_block(1,2) [OF ok], of b xs j, OF _ j(1) _ j(3) this] c(1) j(2)
  show ?thesis unfolding x by simp
qed

lemma remove_from_dir_eq:
  assumes ok: "fs_ok fs" and sl: "slot fs j"
  shows "minifs_remove_from_dir fs (current_dir fs) (of_nat j) = Inr (hidden j fs)"
proof -
  let ?m = "per_block fs"
  note m = per_block [OF ok]
  have q: "j div ?m < length (dir_blocks fs)" using sl by (simp add: slot_def)
  have "j < Suc (j div ?m) * ?m" using dividend_less_div_times [OF m(2), of j] by (simp add: add.commute)
  with slot_index [OF ok q] have j: "j < 4294967296" by linarith
  have "seek_entry (j + length (bm fs) + 2) fs (of_int (root_block (im fs ! unat (current_dir fs)))) (of_nat j) =
      Inr (of_nat (slot_block fs j), of_nat (j mod ?m))"
  proof (cases "j = 0")
    case True
    have c: "chain (bm fs) (root_block (im fs ! unat (current_dir fs))) (dir_blocks fs)" "dir_blocks fs \<noteq> []"
      using dir_chain [OF ok] by (simp_all add: file_chain_def)
    then obtain b xs where "dir_blocks fs = b # xs" "root_block (im fs ! unat (current_dir fs)) = int b"
      by (cases "dir_blocks fs") auto
    then show ?thesis using True by (subst seek_entry.simps) (simp add: slot_block_def)
  next
    case False
    with sl have "0 < j mod ?m" by (auto simp: slot_def)
    from div_mod_pred [OF this] dir_seek [OF ok _ _ j] False q show ?thesis by (simp add: slot_block_def)
  qed
  from remove_from_dir_at [OF ok j slot_block(3) [OF ok sl] _ this] m(3) [of j] show ?thesis
    by (simp add: hidden_def)
qed

text \<open>At the boundary of a block: the byte behind the block before.\<close>

lemma remove_from_dir_boundary:
  assumes ok: "fs_ok fs" and q: "q < length (dir_blocks fs)"
  shows "minifs_remove_from_dir fs (current_dir fs) (of_nat (Suc q * per_block fs)) =
    Inr (fs\<lparr>fd := pwrite (pos fs (Suc (dir_blocks fs ! q))) [NUL] (fd fs)\<rparr>)"
proof -
  let ?m = "per_block fs" and ?j = "Suc q * per_block fs"
  note m = per_block [OF ok]
  obtain k where k: "?m = Suc k" using m(2) by (cases ?m) auto
  then have "?j - 1 = k + q * Suc k" by simp
  then have d: "(?j - 1) div ?m = q" "Suc ((?j - 1) mod ?m) = ?m"
    unfolding k by (simp_all only: div_mult_self1 mod_mult_self1 mod_less lessI div_less Suc_not_Zero refl not_False_eq_True simp_thms)
  have b: "dir_blocks fs ! q < length (bm fs)"
    using dir_chain [OF ok] q nth_mem [OF q] by (auto simp: file_chain_def block_in_def)
  have j0: "0 < ?j" using m(2) by simp
  have dq: "(?j - 1) div ?m < length (dir_blocks fs)" unfolding d(1) by (rule q)
  note dir_seek [OF ok j0 dq slot_index [OF ok q], unfolded d]
  from remove_from_dir_at [OF ok slot_index [OF ok q] b _ this] m(1) show ?thesis by (simp add: body_pos_Suc)
qed

text \<open>
  With a position in the block after the last, the byte that is cleared is one of the last bytes of
  the tables, or the first one behind them.
\<close>

lemma body_before:
  assumes sb: "sb_ok (sblock fs)" and "bsz fs \<le> meta_size (sblock fs)" and "32 * r \<le> bsz fs"
  shows "unat (minifs_block_body_offset fs (-1) + of_nat (32 * r)) = meta_size (sblock fs) - bsz fs + 32 * r"
proof -
  have p: "unat (minifs_block_body_offset fs 0) = meta_size (sblock fs)"
    using body_offset [OF sb, of 0] by (simp add: body_pos_def)
  then have ms: "meta_size (sblock fs) < 4294967296" using unat_u32 by metis
  have "minifs_block_body_offset fs (-1) = minifs_block_body_offset fs 0 - block_size (sblock fs)"
    by (simp add: minifs_block_body_offset_def)
  also have "minifs_block_body_offset fs 0 = of_nat (meta_size (sblock fs))" unfolding p [symmetric] by simp
  also have "block_size (sblock fs) = of_nat (bsz fs)" by simp
  finally have "minifs_block_body_offset fs (-1) + of_nat (32 * r) = of_nat (meta_size (sblock fs) - bsz fs + 32 * r)"
    using assms(2) by (simp add: of_nat_diff)
  moreover have "meta_size (sblock fs) - bsz fs + 32 * r < 4294967296" using assms(2,3) ms by linarith
  ultimately show ?thesis by (simp only: of_nat_u32)
qed

lemma remove_from_dir_past:
  assumes ok: "fs_ok fs" and j: "length (dir_blocks fs) * per_block fs < j" "j \<le> Suc (length (dir_blocks fs)) * per_block fs"
    and nb: "next_block (bm fs ! last (dir_blocks fs)) = -1" and ms: "bsz fs \<le> meta_size (sblock fs)"
  shows "minifs_remove_from_dir fs (current_dir fs) (of_nat j) =
    Inr (fs\<lparr>fd := pwrite (meta_size (sblock fs) - bsz fs + 32 * (j - length (dir_blocks fs) * per_block fs)) [NUL] (fd fs)\<rparr>)"
proof -
  let ?m = "per_block fs" and ?l = "length (dir_blocks fs)"
  have cd: "unat (current_dir fs) < length (im fs)" using fs_okD(5) [OF ok] by (simp add: is_dir_def)
  have c: "chain (bm fs) (root_block (im fs ! unat (current_dir fs))) (dir_blocks fs)" "dir_blocks fs \<noteq> []"
    using dir_chain [OF ok] by (simp_all add: file_chain_def)
  then obtain b xs where x: "dir_blocks fs = b # xs" "root_block (im fs ! unat (current_dir fs)) = int b"
    by (cases "dir_blocks fs") auto
  have small: "Suc ?l * ?m < 4294967296"
  proof -
    have "?l \<le> length (bm fs)" using dir_chain [OF ok] distinct_chain_length by (auto simp: file_chain_def)
    then have "?l * bsz fs \<le> bsz fs * length (bm fs)" by simp
    then have "?l * bsz fs + bsz fs \<le> pos fs (length (bm fs))" using ms unfolding body_pos_def by linarith
    also have "\<dots> < 4294967296" using fs_okD(3) [OF ok] by (rule sb_okD)
    finally have "32 * (Suc ?l * ?m) < 4294967296" using per_block(1) [OF ok] by (simp add: algebra_simps)
    then show ?thesis by linarith
  qed
  have "?l * 1 \<le> ?l * ?m" using per_block(2) [OF ok] by (intro mult_le_mono2) simp
  with j(1) have fuel: "length xs < j + length (bm fs) + 2" by (simp add: x(1))
  have j32: "j < 4294967296" using j(2) small by linarith
  have seek: "seek_entry (j + length (bm fs) + 2) fs (of_nat b) (of_nat j) = Inr (-1, of_nat (j - ?l * ?m))"
    using seek_past [OF blocks_few [OF fs_okD(3) [OF ok]] per_block(1) [OF ok], of b xs j] c(1) j j32 fuel nb x by simp
  have r: "32 * (j - ?l * ?m) \<le> bsz fs" using j(2) per_block(1) [OF ok] by simp
  have "unat (of_nat j :: u32) = j" "unat (of_nat (j - ?l * ?m) :: u32) = j - ?l * ?m"
    using j32 by (simp_all add: of_nat_u32)
  then show ?thesis
    using get_inode_u32 [OF cd] seek body_before [OF fs_okD(3) [OF ok] ms r]
    by (simp add: minifs_remove_from_dir_def x(2) Let_def entry_size_def minifs_write_block_eq mult.commute)
qed

lemma remove_from_dir_out:
  assumes ok: "fs_ok fs" and j: "Suc (length (dir_blocks fs)) * per_block fs < j" "j < 4294967296"
  shows "minifs_remove_from_dir fs (current_dir fs) (of_nat j) = Inl (OutOfBounds, fd fs)"
proof -
  have cd: "unat (current_dir fs) < length (im fs)" using fs_okD(5) [OF ok] by (simp add: is_dir_def)
  have c: "chain (bm fs) (root_block (im fs ! unat (current_dir fs))) (dir_blocks fs)" "dir_blocks fs \<noteq> []"
    using dir_chain [OF ok] by (simp_all add: file_chain_def)
  then obtain b xs where x: "dir_blocks fs = b # xs" "root_block (im fs ! unat (current_dir fs)) = int b"
    by (cases "dir_blocks fs") auto
  have "Suc (length (dir_blocks fs)) * 1 \<le> Suc (length (dir_blocks fs)) * per_block fs"
    using per_block(2) [OF ok] by (intro mult_le_mono2) simp
  with j(1) have fuel: "Suc (length xs) < j + length (bm fs) + 2" by (simp add: x(1))
  have "seek_entry (j + length (bm fs) + 2) fs (of_nat b) (of_nat j) = Inl (OutOfBounds, fd fs)"
    using seek_out [OF fs_okD(3) [OF ok] per_block(1) [OF ok], of b xs j] c(1) j fuel x by simp
  moreover have "unat (of_nat j :: u32) = j" using j(2) by (rule of_nat_u32)
  ultimately show ?thesis using get_inode_u32 [OF cd] by (simp add: minifs_remove_from_dir_def x(2))
qed


section \<open>What the write changes\<close>

lemma hidden_frame:
  "frame fs (hidden j fs) {} {pos fs (slot_block fs j) + 32 * (j mod per_block fs)}"
  unfolding frame_def
  by (intro exI [of _ "used_block_count (sblock fs)"] exI [of _ "bm fs"] exI [of _ "fd (hidden j fs)"])
    (auto simp: hidden_def intro!: same_but_pwrite)

lemma slot_region:
  assumes "fs_ok fs"
  shows "{pos fs (slot_block fs j) + 32 * (j mod per_block fs)} \<subseteq> region (sblock fs) (slot_block fs j) 0"
  using per_block(3) [OF assms, of j] by (auto simp: region_def body_pos_Suc)

lemma hidden_other:
  assumes ok: "fs_ok fs" and sl: "slot fs j" and i: "i \<in> used_set fs" "i \<noteq> unat (current_dir fs)"
  shows "file_chain (hidden j fs) (root_block (im fs ! i)) (blocks_of fs i)" and "bytes_of (hidden j fs) i = bytes_of fs i"
proof -
  let ?r = "slot_block fs j"
  have tree: "tree_ok fs" using ok by (rule fs_okD)
  have c: "file_chain fs (root_block (im fs ! i)) (blocks_of fs i)" using tree i by (simp add: tree_ok_def)
  have cdu: "unat (current_dir fs) \<in> used_set fs" using fs_okD(5) [OF ok] by (rule is_dir_used)
  have ne: "b \<noteq> ?r" if "b \<in> set (blocks_of fs i)" for b
    using that slot_block(1) [OF ok sl] tree i cdu by (auto simp: tree_ok_def)
  have "region (sblock fs) b 0 \<inter> {pos fs ?r + 32 * (j mod per_block fs)} = {}" if "b \<in> set (blocks_of fs i)" for b
    using region_disjoint [OF ne [OF that], of "sblock fs" 0 0] slot_region [OF ok, of j] by blast
  from frame_chain [OF hidden_frame c _ this]
  show "file_chain (hidden j fs) (root_block (im fs ! i)) (blocks_of fs i)" "bytes_of (hidden j fs) i = bytes_of fs i"
    by (simp_all add: bytes_of_def)
qed

text \<open>The body of the block of the entry, and those of other blocks.\<close>

lemma hidden_body:
  assumes ok: "fs_ok fs" and b: "block_in fs b"
  shows "body (hidden j fs) b =
    (if b = slot_block fs j \<and> 32 * (j mod per_block fs) < length (body fs b)
     then (body fs b)[32 * (j mod per_block fs) := NUL] else body fs b)"
proof -
  let ?k = "32 * (j mod per_block fs)" and ?n = "unat (b_size (bm fs ! b))"
  have len: "length (body fs b) = ?n" using b by (rule length_body)
  have in_file: "0 < ?n \<Longrightarrow> pos fs b + ?n \<le> length (fd fs)" using b by (auto simp: block_in_def unat_eq_0)
  have other: "{pos fs b..<pos fs b + ?n} \<inter> {pos fs (slot_block fs j) + ?k} = {} \<Longrightarrow> body (hidden j fs) b = body fs b"
    using frame_body(1) [OF hidden_frame b] by simp
  show ?thesis
  proof (cases "b = slot_block fs j")
    case True
    show ?thesis
    proof (cases "?k < ?n")
      case k: True
      with pread_pwrite_byte [OF in_file k] True len show ?thesis by (simp add: body_def hidden_def)
    next
      case False
      with True len other show ?thesis by simp
    qed
  next
    case False
    have "{pos fs b..<pos fs b + ?n} \<subseteq> region (sblock fs) b 0"
      using b by (auto simp: block_in_def region_def body_pos_Suc)
    with region_disjoint [OF False, of "sblock fs" 0 0] slot_region [OF ok, of j] have
      "{pos fs b..<pos fs b + ?n} \<inter> {pos fs (slot_block fs j) + ?k} = {}" by blast
    with other False show ?thesis by simp
  qed
qed

lemma content_hidden_other:
  "fs_ok fs \<Longrightarrow> \<forall>b\<in>set xs. block_in fs b \<Longrightarrow> slot_block fs j \<notin> set xs \<Longrightarrow> content (hidden j fs) xs = content fs xs"
  by (induction xs) (auto simp: content_Cons hidden_body)

lemma hidden_dir:
  assumes ok: "fs_ok fs" and sl: "slot fs j"
  defines "cs \<equiv> bytes_of fs (unat (current_dir fs))" and "cs' \<equiv> bytes_of (hidden j fs) (unat (current_dir fs))"
  shows "file_chain (hidden j fs) (root_block (im fs ! unat (current_dir fs))) (dir_blocks fs)"
    and "length cs' = length cs" and "entries cs' = mark {j} (entries cs)"
proof -
  let ?xs = "dir_blocks fs" and ?m = "per_block fs" and ?b = "slot_block fs j"
  let ?q = "j div ?m" and ?k = "32 * (j mod ?m)"
  have c: "?xs \<noteq> []" "distinct ?xs" "\<forall>b\<in>set ?xs. block_in fs b" "full fs ?xs"
    using dir_chain [OF ok] by (simp_all add: file_chain_def)
  have "length (fd fs) \<le> length (fd (hidden j fs))" by (simp add: hidden_def length_pwrite_ge)
  then have "block_in (hidden j fs) b" if "block_in fs b" for b using that by (auto simp: block_in_def)
  with dir_chain [OF ok] show "file_chain (hidden j fs) (root_block (im fs ! unat (current_dir fs))) ?xs"
    by (simp add: file_chain_def full_def)
  have q: "?q < length ?xs" using sl by (simp add: slot_def)
  define ys zs where "ys = take ?q ?xs" and "zs = drop (Suc ?q) ?xs"
  have xs: "?xs = ys @ ?b # zs" unfolding ys_def zs_def slot_block_def using q by (rule id_take_nth_drop)
  have ly: "length ys = ?q" unfolding ys_def using q by simp
  have blk: "\<forall>b\<in>set ys. block_in fs b" "\<forall>b\<in>set zs. block_in fs b" "block_in fs ?b" "?b \<notin> set ys" "?b \<notin> set zs"
    using c(2,3) unfolding xs by auto
  have "\<forall>b\<in>set ys. length (body fs b) = bsz fs"
    using c(4) blk(1) unfolding full_def xs by (auto simp: length_body butlast_append)
  then have cy: "length (content fs ys) = ?q * bsz fs" unfolding ly [symmetric]
    by (induction ys) (simp_all add: content_Cons)
  have at: "32 * j = ?q * bsz fs + ?k"
  proof -
    have "32 * (?q * ?m + j mod ?m) = ?q * (32 * ?m) + ?k" by (simp only: distrib_left mult.left_commute)
    then show ?thesis unfolding per_block(1) [OF ok] by (simp only: div_mult_mod_eq)
  qed
  have cs: "cs = content fs ys @ body fs ?b @ content fs zs"
    unfolding cs_def bytes_of_def by (subst xs) (simp add: content_append content_Cons)
  have "cs' = content (hidden j fs) ys @ body (hidden j fs) ?b @ content (hidden j fs) zs"
    unfolding cs'_def bytes_of_def hidden_simps by (subst xs) (simp add: content_append content_Cons)
  then have cs': "cs' = content fs ys @ (if ?k < length (body fs ?b) then (body fs ?b)[?k := NUL] else body fs ?b) @ content fs zs"
    using content_hidden_other [OF ok blk(1,4)] content_hidden_other [OF ok blk(2,5)] hidden_body [OF ok blk(3)]
    by simp
  have upd: "cs' = (if 32 * j < length cs then cs[32 * j := NUL] else cs)"
  proof (cases "?k < length (body fs ?b)")
    case True
    then have "cs[32 * j := NUL] = cs'" "32 * j < length cs"
      unfolding cs' unfolding cs by (simp_all add: at cy list_update_append)
    then show ?thesis by simp
  next
    case False
    have "zs = []"
    proof (rule ccontr)
      assume "zs \<noteq> []"
      then have "?b \<in> set (butlast ?xs)" by (subst xs) (simp add: butlast_append)
      then have "length (body fs ?b) = bsz fs" using c(4) length_body [OF blk(3)] by (simp add: full_def)
      with False per_block(3) [OF ok, of j] show False by simp
    qed
    then have "\<not> 32 * j < length cs" using False by (simp add: at cs cy)
    moreover have "cs' = cs" unfolding cs' unfolding cs using False by simp
    ultimately show ?thesis by simp
  qed
  have m32: "length cs mod 32 = 0"
    using dir_inv [OF ok fs_okD(5) [OF ok]] by (simp add: dir_ok_def cs_def)
  from upd show "length cs' = length cs" and "entries cs' = mark {j} (entries cs)"
    using m32 entries_mark [of cs j]
    by (auto intro!: nth_equalityI simp: length_entries not_less)
qed

lemma hidden_ok:
  assumes ok: "fs_ok fs" and sl: "slot fs j"
  shows "fs_ok (hidden j fs)" and "cur_entries (hidden j fs) = mark {j} (cur_entries fs)"
proof -
  let ?g = "hidden j fs" and ?cd = "unat (current_dir fs)"
  note h = hidden_dir [OF ok sl]
  show "cur_entries ?g = mark {j} (cur_entries fs)" using h(3) by simp
  have tree: "tree_ok fs" using ok by (rule fs_okD)
  have "length (fd fs) \<le> length (fd ?g)" by (simp add: hidden_def length_pwrite_ge)
  then have "blocks_ok ?g" using fs_okD(2) [OF ok] by (simp add: blocks_ok_def free_blocks_def)
  moreover have "file_chain ?g (root_block (im fs ! i)) (blocks_of fs i)" if "i \<in> used_set fs" for i
    using h(1) hidden_other [OF ok sl that] by (cases "i = ?cd") simp_all
  ultimately have "tree_ok ?g" using tree by (simp add: tree_ok_def)
  moreover have "inode_inv ?g i" if i: "i \<in> used_set fs" for i
  proof (cases "i = ?cd")
    case True
    have "dir_ok fs ?cd" using dir_inv [OF ok fs_okD(5) [OF ok]] .
    then have "dir_ok ?g ?cd" using h(2,3) mark_ok by (auto simp: dir_ok_def)
    with True fs_okD(5) [OF ok] show ?thesis by (simp add: inode_inv_def is_dir_def)
  next
    case False
    then show ?thesis
      using fs_okD(8) [OF ok i] hidden_other(2) [OF ok sl i False] inode_inv_cong [of ?g fs i] by simp
  qed
  ultimately show "fs_ok ?g" using ok by (simp add: fs_ok_def free_inodes_def)
qed


section \<open>The search of rmdir and rm\<close>

lemma hide_all:
  "fs_ok fs \<Longrightarrow> \<forall>j\<in>set js. slot fs j \<Longrightarrow>
    fs_ok (fold hidden js fs) \<and> sblock (fold hidden js fs) = sblock fs \<and>
    current_dir (fold hidden js fs) = current_dir fs \<and>
    entries (bytes_of (fold hidden js fs) (unat (current_dir fs))) = mark (set js) (cur_entries fs) \<and>
    (\<forall>i\<in>used_set fs. i \<noteq> unat (current_dir fs) \<longrightarrow> bytes_of (fold hidden js fs) i = bytes_of fs i)"
proof (induction js arbitrary: fs)
  case Nil
  then show ?case by simp
next
  case (Cons j js)
  have j: "slot fs j" using Cons.prems(2) by simp
  note h = hidden_ok [OF Cons.prems(1) j] and o = hidden_other(2) [OF Cons.prems(1) j]
  from Cons.IH [of "hidden j fs"] Cons.prems h(1)
  have "fs_ok (fold hidden js (hidden j fs)) \<and>
      sblock (fold hidden js (hidden j fs)) = sblock fs \<and> current_dir (fold hidden js (hidden j fs)) = current_dir fs \<and>
      entries (bytes_of (fold hidden js (hidden j fs)) (unat (current_dir fs))) = mark (set js) (cur_entries (hidden j fs)) \<and>
      (\<forall>i\<in>used_set fs. i \<noteq> unat (current_dir fs) \<longrightarrow> bytes_of (fold hidden js (hidden j fs)) i = bytes_of (hidden j fs) i)"
    by simp
  with h(2) o show ?case by (auto simp: mark_mark)
qed

lemma unlink_loop_ok:
  assumes "NUL \<notin> set token"
  shows "fs_ok fs \<Longrightarrow> \<forall>r\<in>set rs. row_ok fs r \<and> (row_is fs ty token r \<longrightarrow> slot fs (fst r)) \<Longrightarrow>
    unlink_loop ty token rs target fs =
      Inr (case last_row (row_is fs ty token) rs of None \<Rightarrow> target | Some i \<Rightarrow> sint i,
        fold hidden (map fst (filter (row_is fs ty token) rs)) fs)"
proof (induction rs arbitrary: target fs)
  case Nil
  then show ?case by (simp add: last_row_def)
next
  case (Cons r rs)
  obtain index name i u where r: "r = (index, name, i, u)" by (cases r) auto
  with Cons.prems(2) obtain str where str: "c_str name = Some str" "unat i < length (im fs)"
    using row_name [of fs index name i u] by (auto simp: row_ok_def)
  have n: "name_is fs token name = Inr (token = str)" using assms str(1) by (rule name_is_ok)
  show ?case
  proof (cases "row_is fs ty token r")
    case False
    with Cons str n show ?thesis by (auto simp: r get_inode_u32 row_is_simp last_row_def)
  next
    case True
    then have e: "i_type (im fs ! unat i) = ty" "token = str" using str(1) by (auto simp: r row_is_simp)
    let ?g = "hidden index fs"
    have sl: "slot fs index" using Cons.prems(2) True by (simp add: r)
    have eq: "row_is ?g ty token = row_is fs ty token" by (simp add: row_is_def fun_eq_iff)
    have rm: "minifs_remove_from_dir fs (current_dir fs) (of_nat index) = Inr ?g"
      using Cons.prems(1) sl by (rule remove_from_dir_eq)
    have "unlink_loop ty token rs (sint i) ?g =
        Inr (case last_row (row_is ?g ty token) rs of None \<Rightarrow> sint i | Some i \<Rightarrow> sint i,
          fold hidden (map fst (filter (row_is ?g ty token) rs)) ?g)"
      using Cons.prems(2) hidden_ok(1) [OF Cons.prems(1) sl]
      by (intro Cons.IH) (auto simp: row_ok_def eq)
    then have rest: "unlink_loop ty token rs (sint i) ?g =
        Inr (case last_row (row_is fs ty token) rs of None \<Rightarrow> sint i | Some i \<Rightarrow> sint i,
          fold hidden (map fst (filter (row_is fs ty token) rs)) ?g)" by (simp only: eq)
    have "unlink_loop ty token (r # rs) target fs = unlink_loop ty token rs (sint i) ?g"
      using str n e rm by (simp add: r get_inode_u32)
    moreover have "last_row (row_is fs ty token) (r # rs) =
        (case last_row (row_is fs ty token) rs of None \<Rightarrow> Some i | Some k \<Rightarrow> Some k)"
      using True by (auto simp: last_row_def r split: list.split)
    moreover have "filter (row_is fs ty token) (r # rs) = r # filter (row_is fs ty token) rs" using True by simp
    ultimately show ?thesis using rest by (simp add: r split: option.split)
  qed
qed

text \<open>The positions of the entries that match.\<close>

definition matching :: "Filesystem \<Rightarrow> u32 \<Rightarrow> string \<Rightarrow> nat set" where
  "matching fs ty token = {k. k < length (cur_entries fs) \<and>
     i_type (im fs ! unat (snd (snd (cur_entries fs ! k)))) = ty \<and> c_str (fst (snd (cur_entries fs ! k))) = Some token}"

lemma rows_nth:
  "k < length es \<Longrightarrow> rows (dirmap es) ! k = (k, fst (snd (es ! k)), snd (snd (es ! k)), fst (es ! k))"
  by (simp add: rows_dirmap split_def)

lemma length_rows [simp]: "length (rows (dirmap es)) = length es"
  by (simp add: rows_dirmap)

lemma image_filter_nth:
  "f ` set (filter P xs) = {k. \<exists>m<length xs. f (xs ! m) = k \<and> P (xs ! m)}"
proof (intro equalityI subsetI)
  fix k
  assume "k \<in> f ` set (filter P xs)"
  then obtain r where "r \<in> set xs" "P r" "k = f r" by auto
  then show "k \<in> {k. \<exists>m<length xs. f (xs ! m) = k \<and> P (xs ! m)}" by (auto simp: in_set_conv_nth)
next
  fix k
  assume "k \<in> {k. \<exists>m<length xs. f (xs ! m) = k \<and> P (xs ! m)}"
  then obtain m where "m < length xs" "f (xs ! m) = k" "P (xs ! m)" by blast
  then show "k \<in> f ` set (filter P xs)" by (intro image_eqI [of _ _ "xs ! m"]) simp_all
qed

lemma matching_rows:
  "fst ` set (filter (row_is fs ty token) (rows (dirmap (cur_entries fs)))) = matching fs ty token"
  unfolding image_filter_nth
  by (auto simp: rows_nth matching_def row_is_simp)

text \<open>The inode the search ends with: that of the last match.\<close>

definition victim :: "Filesystem \<Rightarrow> u32 \<Rightarrow> string \<Rightarrow> u32 option" where
  "victim fs ty token = last_row (row_is fs ty token) (rows (dirmap (cur_entries fs)))"

lemma victim_ok:
  assumes "fs_ok fs" and "victim fs ty token = Some i"
  shows "unat i < length (im fs)" and "i_type (im fs ! unat i) = ty" and "sint i = int (unat i)"
proof -
  show i: "unat i < length (im fs)" "i_type (im fs ! unat i) = ty"
    using last_row_Some cur_rows(2) [OF assms(1)] assms(2) unfolding victim_def by blast+
  show "sint i = int (unat i)"
    using i(1) inodes_few [OF fs_okD(3) [OF assms(1)]] sint_of_nat_u32 [of "unat i"] by simp
qed

lemma matching_slot:
  assumes "fs_ok fs" and "\<forall>k\<in>matching fs ty token. k < per_block fs \<or> k mod per_block fs \<noteq> 0"
  shows "\<forall>k\<in>matching fs ty token. slot fs k"
  using assms(2) entry_slot [OF assms(1)] by (auto simp: matching_def)

lemma unlink_ok:
  assumes ok: "fs_ok fs" and sl: "\<forall>k\<in>matching fs ty token. slot fs k" and "NUL \<notin> set token"
    and v: "victim fs ty token = Some i"
  shows "\<exists>g. unlink_loop ty token (rows (dirmap (cur_entries fs))) (-1) fs = Inr (int (unat i), g) \<and>
    fs_ok g \<and> sblock g = sblock fs \<and> current_dir g = current_dir fs \<and>
    cur_entries g = mark (matching fs ty token) (cur_entries fs) \<and>
    (\<forall>i\<in>used_set fs. i \<noteq> unat (current_dir fs) \<longrightarrow> bytes_of g i = bytes_of fs i)"
proof -
  let ?rs = "rows (dirmap (cur_entries fs))"
  let ?js = "map fst (filter (row_is fs ty token) ?rs)"
  have js: "set ?js = matching fs ty token" using matching_rows by simp
  then have sl': "\<forall>j\<in>set ?js. slot fs j" using sl by blast
  have "slot fs (fst r)" if "r \<in> set ?rs" "row_is fs ty token r" for r
  proof -
    have "fst r \<in> set ?js" using that by simp
    with sl' show ?thesis by blast
  qed
  then have "\<forall>r\<in>set ?rs. row_ok fs r \<and> (row_is fs ty token r \<longrightarrow> slot fs (fst r))"
    using cur_rows(2) [OF ok] by blast
  then have "unlink_loop ty token ?rs (-1) fs = Inr (int (unat i), fold hidden ?js fs)"
    using unlink_loop_ok [OF assms(3) ok, of ?rs ty "-1"] v victim_ok(3) [OF ok v]
    unfolding victim_def by simp
  with js show ?thesis
    using hide_all [OF ok sl'] by (intro exI [of _ "fold hidden ?js fs"]) (simp del: set_map)
qed

end
