(* ===== verification/Cmd_Remove.thy ===== *)
theory Cmd_Remove
  imports Cmd_Mark
begin

text \<open>
  What \<open>rmdir\<close> and \<open>rm\<close> do: the entries that match are marked, the inode is released; and what the
  second call of \<open>minifs_remove_from_dir\<close> in \<open>rm\<close> does besides.
\<close>


section \<open>The entries and the inode\<close>

definition removed :: "Filesystem \<Rightarrow> Filesystem \<Rightarrow> nat \<Rightarrow> nat set \<Rightarrow> bool" where
  "removed fs fs' t ks \<longleftrightarrow> used_set fs' = used_set fs - {t} \<and> current_dir fs' = current_dir fs \<and>
     im fs' = (im fs)[t := zero_Inode] \<and> cur_entries fs' = mark ks (cur_entries fs) \<and>
     (\<forall>i\<in>used_set fs'. i \<noteq> unat (current_dir fs) \<longrightarrow> bytes_of fs' i = bytes_of fs i) \<and>
     bsz fs' = bsz fs \<and> free_blocks fs' = free_blocks fs + length (blocks_of fs t)"

lemma removable_cong:
  "sblock g = sblock fs \<Longrightarrow> current_dir g = current_dir fs \<Longrightarrow> removable g t = removable fs t"
  by (simp add: removable_def used_set_def is_dir_def)

lemma release_removed:
  assumes ok: "fs_ok g" and t: "removable fs t" and sb: "sblock g = sblock fs" "current_dir g = current_dir fs"
    and ent: "cur_entries g = mark ks (cur_entries fs)"
    and oth: "\<forall>i\<in>used_set fs. i \<noteq> unat (current_dir fs) \<longrightarrow> bytes_of g i = bytes_of fs i"
  shows "\<exists>fs'. release_inode (int t) g = Inr fs' \<and> fs_ok fs' \<and> synced fs' \<and> removed fs fs' t ks"
proof -
  let ?h = "updated (released g t)"
  have tg: "removable g t" using t removable_cong [OF sb] by simp
  have tu: "t \<in> used_set g" "t \<noteq> 0" "t \<noteq> unat (current_dir g)" using tg by (simp_all add: removable_def)
  have us: "used_set g = used_set fs" and bl: "blocks_of g = blocks_of fs"
    by (simp_all add: used_set_def blocks_of_def fun_eq_iff sb)
  have tree: "tree_ok g" using ok by (rule fs_okD)
  have rok: "fs_ok (released g t)" using ok tg by (rule released_ok)
  note u = updated_tree [OF fs_okD(1) [OF rok]]
  have b: "bytes_of ?h i = bytes_of g i" if "i \<in> used_set fs - {t}" for i
    using that u(2) [of i] released_old(3) [OF tree tu(1), of i] by (simp add: released_used us)
  have "unat (current_dir fs) \<in> used_set fs - {t}"
    using is_dir_used [OF fs_okD(5) [OF ok]] tu(3) sb us by simp
  then have ce: "cur_entries ?h = mark ks (cur_entries fs)" using b ent sb by simp
  have "free_blocks ?h = free_blocks fs + length (blocks_of fs t)"
    using released_free(1) [OF ok tu(1,2)] by (simp add: free_blocks_def bl sb)
  then have "removed fs ?h t ks"
    using b oth ce u(3) by (simp add: removed_def released_used us sb)
  then show ?thesis
    using release_inode_ok [OF ok tg] updated_fs_ok [OF rok] updated_synced [OF fs_okD(3) [OF rok]] by blast
qed

lemma rmdir_ok:
  assumes ok: "fs_ok (s_fs s)" and sl: "\<forall>k\<in>matching (s_fs s) MINIFS_INODE_DIRECTORY token. slot (s_fs s) k"
    and tok: "NUL \<notin> set token"
    and v: "victim (s_fs s) MINIFS_INODE_DIRECTORY token = Some i" and t: "removable (s_fs s) (unat i)"
    and data: "data = cmd # token # rest"
  shows "\<exists>fs'. minifs_rmdir data s = Inr (s\<lparr>s_fs := fs'\<rparr>) \<and> fs_ok fs' \<and> synced fs' \<and>
    removed (s_fs s) fs' (unat i) (matching (s_fs s) MINIFS_INODE_DIRECTORY token)"
proof -
  from unlink_ok [OF ok sl tok v] obtain g where
    g: "unlink_loop MINIFS_INODE_DIRECTORY token (rows (dirmap (cur_entries (s_fs s)))) (-1) (s_fs s) = Inr (int (unat i), g)"
      "fs_ok g" "sblock g = sblock (s_fs s)" "current_dir g = current_dir (s_fs s)"
      "cur_entries g = mark (matching (s_fs s) MINIFS_INODE_DIRECTORY token) (cur_entries (s_fs s))"
      "\<forall>i\<in>used_set (s_fs s). i \<noteq> unat (current_dir (s_fs s)) \<longrightarrow> bytes_of g i = bytes_of (s_fs s) i" by blast
  from release_removed [OF g(2) t g(3-6)] obtain fs' where
    f: "release_inode (int (unat i)) g = Inr fs'" "fs_ok fs'" "synced fs'"
      "removed (s_fs s) fs' (unat i) (matching (s_fs s) MINIFS_INODE_DIRECTORY token)" by blast
  have "uint i \<noteq> -1" using uint_ge_0 [of i] by linarith
  then have "minifs_rmdir data s = Inr (s\<lparr>s_fs := fs'\<rparr>)"
    using cur_rows(1) [OF ok] data g(1) f(1) by (simp add: minifs_rmdir_def on_fs_def Let_def)
  with f show ?thesis by blast
qed

section \<open>The position of another entry\<close>

text \<open>
  \<open>rm\<close> goes on to mark the entry whose position is the number of the inode: some other entry, or
  bytes behind the entries, as long as there is a block for that position.
\<close>

lemma file_removable:
  assumes ok: "fs_ok fs" and t: "t < length (im fs)" "i_type (im fs ! t) = MINIFS_INODE_FILE"
  shows "removable fs t"
proof -
  have nd: "\<not> is_dir fs t" using t(2) by (simp add: is_dir_def)
  moreover have "nat (parent (im fs ! j)) \<noteq> t" if "is_dir fs j" for j
    using dir_inv [OF ok that] nd by (auto simp: dir_ok_def)
  moreover have "t \<noteq> unat (current_dir fs)" "t \<noteq> 0"
    using nd fs_okD(5,6) [OF ok] by (metis, metis)
  moreover have "t \<in> used_set fs" using t by (simp add: used_set_def)
  ultimately show ?thesis by (simp add: removable_def)
qed

text \<open>\<open>rm\<close>, whatever its last call of \<open>minifs_remove_from_dir\<close> marks.\<close>

lemma rm_via:
  assumes ok: "fs_ok (s_fs s)" and sl: "\<forall>k\<in>matching (s_fs s) MINIFS_INODE_FILE token. slot (s_fs s) k"
    and tok: "NUL \<notin> set token" and v: "victim (s_fs s) MINIFS_INODE_FILE token = Some i"
    and last: "\<And>g. fs_ok g \<Longrightarrow> sblock g = sblock (s_fs s) \<Longrightarrow> current_dir g = current_dir (s_fs s) \<Longrightarrow>
      \<exists>h. minifs_remove_from_dir g (current_dir g) i = Inr h \<and> fs_ok h \<and> sblock h = sblock g \<and>
        current_dir h = current_dir g \<and> cur_entries h = mark js (cur_entries g) \<and>
        (\<forall>k\<in>used_set g. k \<noteq> unat (current_dir g) \<longrightarrow> bytes_of h k = bytes_of g k)"
    and data: "data = cmd # token # rest"
  shows "\<exists>fs'. minifs_rm data s = Inr (s\<lparr>s_fs := fs'\<rparr>) \<and> fs_ok fs' \<and> synced fs' \<and>
    removed (s_fs s) fs' (unat i) (js \<union> matching (s_fs s) MINIFS_INODE_FILE token)"
proof -
  from unlink_ok [OF ok sl tok v] obtain g where
    g: "unlink_loop MINIFS_INODE_FILE token (rows (dirmap (cur_entries (s_fs s)))) (-1) (s_fs s) = Inr (int (unat i), g)"
      "fs_ok g" "sblock g = sblock (s_fs s)" "current_dir g = current_dir (s_fs s)"
      "cur_entries g = mark (matching (s_fs s) MINIFS_INODE_FILE token) (cur_entries (s_fs s))"
      "\<forall>i\<in>used_set (s_fs s). i \<noteq> unat (current_dir (s_fs s)) \<longrightarrow> bytes_of g i = bytes_of (s_fs s) i" by blast
  from last [OF g(2-4)] obtain h where
    h: "minifs_remove_from_dir g (current_dir g) i = Inr h" "fs_ok h" "sblock h = sblock g" "current_dir h = current_dir g"
      "cur_entries h = mark js (cur_entries g)"
      "\<forall>k\<in>used_set g. k \<noteq> unat (current_dir g) \<longrightarrow> bytes_of h k = bytes_of g k" by blast
  have us: "used_set g = used_set (s_fs s)" by (simp add: used_set_def g(3))
  have oth: "\<forall>k\<in>used_set (s_fs s). k \<noteq> unat (current_dir (s_fs s)) \<longrightarrow> bytes_of h k = bytes_of (s_fs s) k"
    using h(6) g(6) unfolding us g(4) by simp
  have ce: "cur_entries h = mark (js \<union> matching (s_fs s) MINIFS_INODE_FILE token) (cur_entries (s_fs s))"
    unfolding h(5) g(5) by (rule mark_mark)
  from release_removed [OF h(2) file_removable [OF ok victim_ok(1,2) [OF ok v]] _ _ ce oth] h(3,4) g(3,4) obtain fs' where
    f: "release_inode (int (unat i)) h = Inr fs'" "fs_ok fs'" "synced fs'"
      "removed (s_fs s) fs' (unat i) (js \<union> matching (s_fs s) MINIFS_INODE_FILE token)" by auto
  have "uint i \<noteq> -1" using uint_ge_0 [of i] by linarith
  then have "minifs_rm data s = Inr (s\<lparr>s_fs := fs'\<rparr>)"
    using cur_rows(1) [OF ok] data g(1) f(1) h(1) by (simp add: minifs_rm_def on_fs_def Let_def)
  with f show ?thesis by blast
qed

lemma rm_ok:
  assumes ok: "fs_ok (s_fs s)" and sl: "\<forall>k\<in>matching (s_fs s) MINIFS_INODE_FILE token. slot (s_fs s) k"
    and tok: "NUL \<notin> set token"
    and v: "victim (s_fs s) MINIFS_INODE_FILE token = Some i" and small: "slot (s_fs s) (unat i)"
    and data: "data = cmd # token # rest"
  shows "\<exists>fs'. minifs_rm data s = Inr (s\<lparr>s_fs := fs'\<rparr>) \<and> fs_ok fs' \<and> synced fs' \<and>
    removed (s_fs s) fs' (unat i) (insert (unat i) (matching (s_fs s) MINIFS_INODE_FILE token))"
proof -
  have "\<exists>fs'. minifs_rm data s = Inr (s\<lparr>s_fs := fs'\<rparr>) \<and> fs_ok fs' \<and> synced fs' \<and>
    removed (s_fs s) fs' (unat i) ({unat i} \<union> matching (s_fs s) MINIFS_INODE_FILE token)"
  proof (rule rm_via [OF ok sl tok v _ data])
    fix g
    assume g: "fs_ok g" "sblock g = sblock (s_fs s)" "current_dir g = current_dir (s_fs s)"
    then have sm: "slot g (unat i)" using small by (simp add: slot_def per_block_def blocks_of_def)
    show "\<exists>h. minifs_remove_from_dir g (current_dir g) i = Inr h \<and> fs_ok h \<and> sblock h = sblock g \<and>
        current_dir h = current_dir g \<and> cur_entries h = mark {unat i} (cur_entries g) \<and>
        (\<forall>k\<in>used_set g. k \<noteq> unat (current_dir g) \<longrightarrow> bytes_of h k = bytes_of g k)"
      using remove_from_dir_eq [OF g(1) sm] hidden_ok [OF g(1) sm] hidden_other(2) [OF g(1) sm]
      by (intro exI [of _ "hidden (unat i) g"]) simp
  qed
  then show ?thesis by simp
qed

text \<open>
  A position in the block after the last of the directory, but not the one behind that block: the
  byte that is cleared belongs to the tables on the disk, which \<open>rm\<close> writes again afterwards.
\<close>

definition strays :: "Filesystem \<Rightarrow> nat \<Rightarrow> bool" where
  "strays fs j \<longleftrightarrow> length (dir_blocks fs) * per_block fs < j \<and> j < Suc (length (dir_blocks fs)) * per_block fs \<and>
     next_block (bm fs ! last (dir_blocks fs)) = -1 \<and> bsz fs \<le> meta_size (sblock fs)"

lemma strays_div: "strays fs j \<Longrightarrow> length (dir_blocks fs) \<le> j div per_block fs"
proof -
  assume st: "strays fs j"
  then have "0 < per_block fs" by (cases "per_block fs") (auto simp: strays_def)
  then have "length (dir_blocks fs) = length (dir_blocks fs) * per_block fs div per_block fs" by simp
  also have "\<dots> \<le> j div per_block fs" using st by (intro div_le_mono) (simp add: strays_def)
  finally show ?thesis .
qed

lemma remove_strays:
  assumes ok: "fs_ok fs" and st: "strays fs j"
  shows "\<exists>h. minifs_remove_from_dir fs (current_dir fs) (of_nat j) = Inr h \<and> fs_ok h \<and> sblock h = sblock fs \<and>
    current_dir h = current_dir fs \<and> (\<forall>k\<in>used_set fs. bytes_of h k = bytes_of fs k)"
proof -
  let ?at = "meta_size (sblock fs) - bsz fs + 32 * (j - length (dir_blocks fs) * per_block fs)"
  have "32 * (j - length (dir_blocks fs) * per_block fs) < bsz fs"
    using st per_block(1) [OF ok] by (auto simp: strays_def)
  then have "?at < meta_size (sblock fs)" using st unfolding strays_def by linarith
  then have d: "same_but {0..<meta_size (sblock fs)} (fd fs) (pwrite ?at [NUL] (fd fs))"
    by (intro same_but_pwrite) auto
  have "minifs_remove_from_dir fs (current_dir fs) (of_nat j) = Inr (fs\<lparr>fd := pwrite ?at [NUL] (fd fs)\<rparr>)"
    using st unfolding strays_def by (intro remove_from_dir_past [OF ok]) simp_all
  then show ?thesis
    using table_bytes_ok [OF ok d] table_bytes(2) [OF fs_okD(1) [OF ok] d]
    by (intro exI [of _ "fs\<lparr>fd := pwrite ?at [NUL] (fd fs)\<rparr>"]) simp
qed

lemma rm_strays:
  assumes ok: "fs_ok (s_fs s)" and sl: "\<forall>k\<in>matching (s_fs s) MINIFS_INODE_FILE token. slot (s_fs s) k"
    and tok: "NUL \<notin> set token"
    and v: "victim (s_fs s) MINIFS_INODE_FILE token = Some i" and st: "strays (s_fs s) (unat i)"
    and data: "data = cmd # token # rest"
  shows "\<exists>fs'. minifs_rm data s = Inr (s\<lparr>s_fs := fs'\<rparr>) \<and> fs_ok fs' \<and> synced fs' \<and>
    removed (s_fs s) fs' (unat i) (matching (s_fs s) MINIFS_INODE_FILE token)"
proof -
  have "\<exists>fs'. minifs_rm data s = Inr (s\<lparr>s_fs := fs'\<rparr>) \<and> fs_ok fs' \<and> synced fs' \<and>
    removed (s_fs s) fs' (unat i) ({} \<union> matching (s_fs s) MINIFS_INODE_FILE token)"
  proof (rule rm_via [OF ok sl tok v _ data])
    fix g
    assume g: "fs_ok g" "sblock g = sblock (s_fs s)" "current_dir g = current_dir (s_fs s)"
    then have sg: "strays g (unat i)" using st by (simp add: strays_def per_block_def blocks_of_def)
    have cd: "unat (current_dir g) \<in> used_set g" using is_dir_used [OF fs_okD(5) [OF g(1)]] .
    from remove_strays [OF g(1) sg] obtain h where
      h: "minifs_remove_from_dir g (current_dir g) i = Inr h" "fs_ok h" "sblock h = sblock g" "current_dir h = current_dir g"
        "\<forall>k\<in>used_set g. bytes_of h k = bytes_of g k" by auto
    then show "\<exists>h. minifs_remove_from_dir g (current_dir g) i = Inr h \<and> fs_ok h \<and> sblock h = sblock g \<and>
      current_dir h = current_dir g \<and> cur_entries h = mark {} (cur_entries g) \<and>
      (\<forall>k\<in>used_set g. k \<noteq> unat (current_dir g) \<longrightarrow> bytes_of h k = bytes_of g k)" using cd by auto
  qed
  then show ?thesis by simp
qed

text \<open>With a number beyond the blocks of the directory and one more, the walk leaves the table of blocks.\<close>

lemma rm_out_of_bounds:
  assumes ok: "fs_ok (s_fs s)" and sl: "\<forall>k\<in>matching (s_fs s) MINIFS_INODE_FILE token. slot (s_fs s) k"
    and tok: "NUL \<notin> set token" and v: "victim (s_fs s) MINIFS_INODE_FILE token = Some i"
    and big: "Suc (length (dir_blocks (s_fs s))) * per_block (s_fs s) < unat i"
    and data: "data = cmd # token # rest"
  shows "\<exists>d. minifs_rm data s = Inl (OutOfBounds, d)"
proof -
  from unlink_ok [OF ok sl tok v] obtain g where
    g: "unlink_loop MINIFS_INODE_FILE token (rows (dirmap (cur_entries (s_fs s)))) (-1) (s_fs s) = Inr (int (unat i), g)"
      "fs_ok g" "sblock g = sblock (s_fs s)" "current_dir g = current_dir (s_fs s)" by blast
  have "Suc (length (dir_blocks g)) * per_block g < unat i" using big g(3,4) by (simp add: per_block_def blocks_of_def)
  from remove_from_dir_out [OF g(2) this] have "minifs_remove_from_dir g (current_dir g) i = Inl (OutOfBounds, fd g)"
    using unat_u32 [of i] by simp
  moreover have "uint i \<noteq> -1" using uint_ge_0 [of i] by linarith
  ultimately have "minifs_rm data s = Inl (OutOfBounds, fd g)"
    using cur_rows(1) [OF ok] data g(1) by (simp add: minifs_rm_def on_fs_def Let_def)
  then show ?thesis by blast
qed

end
