(* ===== verification/Cmd_Loop.thy ===== *)
theory Cmd_Loop
  imports Cmd_Remove
begin

text \<open>
  All commands, and the main loop as a step relation with its invariant. \<open>rmdir\<close> and \<open>rm\<close> are
  part of it as far as they do what they are for: \<open>careful\<close> is the condition on the file system
  and the words of the line, and trivial for every other command.
\<close>


section \<open>Removals that do what they are for\<close>

text \<open>
  The entries of the name can be found by their positions, the inode is one that can go, and for a
  file the entry whose position is the number of its inode is one of those to be marked, or none, or
  its position is such that only the tables on the disk are touched.
\<close>

definition removes_well :: "Filesystem \<Rightarrow> u32 \<Rightarrow> string \<Rightarrow> bool" where
  "removes_well fs ty token \<longleftrightarrow> (case victim fs ty token of
       None \<Rightarrow> True
     | Some i \<Rightarrow> (\<forall>k\<in>matching fs ty token. slot fs k) \<and> removable fs (unat i) \<and>
         (ty = MINIFS_INODE_FILE \<longrightarrow> strays fs (unat i) \<or> slot fs (unat i) \<and>
           (unat i < length (cur_entries fs) \<longrightarrow> unat i \<in> matching fs ty token)))"

fun careful :: "Filesystem \<Rightarrow> string list \<Rightarrow> bool" where
  "careful fs (cmd # token # rest) \<longleftrightarrow>
     (cmd = ''rmdir'' \<longrightarrow> removes_well fs MINIFS_INODE_DIRECTORY token) \<and>
     (cmd = ''rm'' \<longrightarrow> removes_well fs MINIFS_INODE_FILE token)"
| "careful fs data \<longleftrightarrow> True"

lemma careful_other: "data = [] \<or> hd data \<noteq> ''rm'' \<and> hd data \<noteq> ''rmdir'' \<Longrightarrow> careful fs data"
  by (cases "(fs, data)" rule: careful.cases) auto

lemma unlink_none:
  assumes ok: "fs_ok fs" and tok: "NUL \<notin> set token" and v: "victim fs ty token = None"
  shows "unlink_loop ty token (rows (dirmap (cur_entries fs))) (-1) fs = Inr (-1, fs)"
proof -
  let ?rs = "rows (dirmap (cur_entries fs))"
  have none: "filter (row_is fs ty token) ?rs = []"
    using v by (auto simp: victim_def last_row_def split: list.splits if_splits)
  then have "\<forall>r\<in>set ?rs. row_ok fs r \<and> (row_is fs ty token r \<longrightarrow> slot fs (fst r))"
    using cur_rows(2) [OF ok] by (auto simp: filter_empty_conv)
  from unlink_loop_ok [OF tok ok this, of "-1"] v none show ?thesis by (simp add: victim_def)
qed

lemma mark_insert: "i < length es \<longrightarrow> i \<in> ks \<Longrightarrow> mark (insert i ks) es = mark ks es"
  by (rule nth_equalityI) auto

lemma rmdir_outcome:
  assumes ok: "fs_ok (s_fs s)" and tok: "NUL \<notin> set token"
    and well: "removes_well (s_fs s) MINIFS_INODE_DIRECTORY token"
  shows "case victim (s_fs s) MINIFS_INODE_DIRECTORY token of
      None \<Rightarrow> minifs_rmdir (cmd # token # rest) s = Inr (err (''no such directory'' @ newline) s)
    | Some i \<Rightarrow> removable (s_fs s) (unat i) \<and>
        (\<exists>fs'. minifs_rmdir (cmd # token # rest) s = Inr (s\<lparr>s_fs := fs'\<rparr>) \<and> fs_ok fs' \<and> synced fs' \<and>
          removed (s_fs s) fs' (unat i) (matching (s_fs s) MINIFS_INODE_DIRECTORY token))"
proof (cases "victim (s_fs s) MINIFS_INODE_DIRECTORY token")
  case None
  with unlink_none [OF ok tok None] cur_rows(1) [OF ok] show ?thesis by (simp add: minifs_rmdir_def)
next
  case (Some i)
  with well have "\<forall>k\<in>matching (s_fs s) MINIFS_INODE_DIRECTORY token. slot (s_fs s) k" "removable (s_fs s) (unat i)"
    by (simp_all add: removes_well_def)
  from rmdir_ok [OF ok this(1) tok Some this(2) refl] this(2) Some show ?thesis by simp
qed

lemma rm_outcome:
  assumes ok: "fs_ok (s_fs s)" and tok: "NUL \<notin> set token"
    and well: "removes_well (s_fs s) MINIFS_INODE_FILE token"
  shows "case victim (s_fs s) MINIFS_INODE_FILE token of
      None \<Rightarrow> minifs_rm (cmd # token # rest) s = Inr (err (''no such file'' @ newline) s)
    | Some i \<Rightarrow> removable (s_fs s) (unat i) \<and>
        (\<exists>fs'. minifs_rm (cmd # token # rest) s = Inr (s\<lparr>s_fs := fs'\<rparr>) \<and> fs_ok fs' \<and> synced fs' \<and>
          removed (s_fs s) fs' (unat i) (matching (s_fs s) MINIFS_INODE_FILE token))"
proof (cases "victim (s_fs s) MINIFS_INODE_FILE token")
  case None
  with unlink_none [OF ok tok None] cur_rows(1) [OF ok] show ?thesis by (simp add: minifs_rm_def)
next
  case (Some i)
  with well have w: "\<forall>k\<in>matching (s_fs s) MINIFS_INODE_FILE token. slot (s_fs s) k" "removable (s_fs s) (unat i)"
    by (simp_all add: removes_well_def)
  have "\<exists>fs'. minifs_rm (cmd # token # rest) s = Inr (s\<lparr>s_fs := fs'\<rparr>) \<and> fs_ok fs' \<and> synced fs' \<and>
      removed (s_fs s) fs' (unat i) (matching (s_fs s) MINIFS_INODE_FILE token)"
  proof (cases "strays (s_fs s) (unat i)")
    case True
    from rm_strays [OF ok w(1) tok Some True refl] show ?thesis .
  next
    case False
    then have sl: "slot (s_fs s) (unat i)"
      and e: "unat i < length (cur_entries (s_fs s)) \<longrightarrow> unat i \<in> matching (s_fs s) MINIFS_INODE_FILE token"
      using Some well by (simp_all add: removes_well_def)
    have "removed (s_fs s) fs' t (insert (unat i) (matching (s_fs s) MINIFS_INODE_FILE token)) =
        removed (s_fs s) fs' t (matching (s_fs s) MINIFS_INODE_FILE token)" for fs' t
      unfolding removed_def mark_insert [OF e] ..
    with rm_ok [OF ok w(1) tok Some sl refl] show ?thesis by simp
  qed
  with w(2) Some show ?thesis by simp
qed


section \<open>One command\<close>

lemma remove_fine:
  assumes ok: "fs_ok (s_fs s)" "synced (s_fs s)" and data: "\<forall>t\<in>set data. NUL \<notin> set t"
    and care: "careful (s_fs s) data"
  shows "data \<noteq> [] \<Longrightarrow> hd data = ''rmdir'' \<Longrightarrow> fine s (minifs_rmdir data s)"
    and "data \<noteq> [] \<Longrightarrow> hd data = ''rm'' \<Longrightarrow> fine s (minifs_rm data s)"
proof -
  have one: "fine s (Inr (err str s))" for str using ok by (simp add: fineI)
  have new: "fs_ok fs' \<Longrightarrow> synced fs' \<Longrightarrow> fine s (Inr (s\<lparr>s_fs := fs'\<rparr>))" for fs' by (simp add: fineI)
  consider "length data < 2" | cmd token rest where "data = cmd # token # rest"
    by (metis One_nat_def Suc_1 length_Cons less_2_cases_iff list.exhaust list.size(3))
  then have "(data \<noteq> [] \<longrightarrow> hd data = ''rmdir'' \<longrightarrow> fine s (minifs_rmdir data s)) \<and>
    (data \<noteq> [] \<longrightarrow> hd data = ''rm'' \<longrightarrow> fine s (minifs_rm data s))"
  proof cases
    case 1
    with one show ?thesis by (simp add: minifs_rmdir_def minifs_rm_def)
  next
    case 2
    then have t: "NUL \<notin> set token" using data by simp
    have "cmd = ''rmdir'' \<Longrightarrow> fine s (minifs_rmdir (cmd # token # rest) s)"
      using rmdir_outcome [OF ok(1) t, of cmd rest] care one new by (auto simp: 2 split: option.splits)
    moreover have "cmd = ''rm'' \<Longrightarrow> fine s (minifs_rm (cmd # token # rest) s)"
      using rm_outcome [OF ok(1) t, of cmd rest] care one new by (auto simp: 2 split: option.splits)
    ultimately show ?thesis by (simp add: 2)
  qed
  then show "data \<noteq> [] \<Longrightarrow> hd data = ''rmdir'' \<Longrightarrow> fine s (minifs_rmdir data s)"
    and "data \<noteq> [] \<Longrightarrow> hd data = ''rm'' \<Longrightarrow> fine s (minifs_rm data s)" by blast+
qed

lemma execute_fine:
  assumes ok: "fs_ok (s_fs s)" "synced (s_fs s)" and data: "\<forall>t\<in>set data. NUL \<notin> set t"
    and care: "careful (s_fs s) data"
    and af: "kept_data af data s" and len: "\<forall>l. next_line s = Some l \<longrightarrow> length l < 4294967296"
  shows "fine s (minifs_execute af data s)"
proof (cases "data = [] \<or> hd data \<noteq> ''rm'' \<and> hd data \<noteq> ''rmdir''")
  case True
  with execute_keeps_fine [OF ok data _ af len] show ?thesis by blast
next
  case False
  then have "data \<noteq> []" "hd data = ''rm'' \<or> hd data = ''rmdir''" by blast+
  with remove_fine [OF ok data care] show ?thesis by (auto simp: execute_eq)
qed


section \<open>The main loop\<close>

text \<open>One turn: the tokens are the words of the line, and what \<open>split_line\<close> takes is released.\<close>

definition prompt :: "string option list \<Rightarrow> session \<Rightarrow> session" where
  "prompt ls s = out ''$ '' (s\<lparr>s_in := ls\<rparr>)"

lemma prompt_simps [simp]: "s_fs (prompt ls s) = s_fs s" "s_in (prompt ls s) = ls"
  by (simp_all add: prompt_def)

lemma main_loop_turn:
  assumes "s_in s = Some l # ls" and "NUL \<notin> set l"
  shows "main_loop af s = rbind (minifs_execute af (words isspace l) (prompt ls s)) (main_loop af)"
proof -
  have sp: "split_line (Some (l @ [NUL])) =
      Inr (if l = [] then (None, 0, 0)
           else (Some (map (\<lambda>w. w @ [NUL]) (words isspace l)), length (words isspace l), Suc (length (words isspace l))))"
    using split_line_words [OF assms(2), of "[]"] by simp
  have tok: "token_strings (Some (map (\<lambda>w. w @ [NUL]) (words isspace l))) = words isspace l"
    using assms(2) by (rule token_strings_words)
  have tok0: "token_strings None = []" by (simp add: token_strings_def)
  show ?thesis
    using sp tok tok0
    by (subst main_loop.simps) (simp add: assms(1) Let_def lift_stop_def flip: prompt_def split: if_splits)
qed

lemma main_loop_eof: "s_in s = None # ls \<Longrightarrow> main_loop af s = Inl (NullDeref, sdisk s)"
  by (subst main_loop.simps) (simp add: Let_def lift_stop_def split_line_def out_def)

lemma main_loop_wait: "s_in s = [] \<Longrightarrow> main_loop af s = Inr s"
  by (subst main_loop.simps) simp

text \<open>A line without zero bytes, of a length an \<open>int\<close> holds.\<close>

definition safe_line :: "string \<Rightarrow> bool" where
  "safe_line l \<longleftrightarrow> NUL \<notin> set l \<and> length l < 2147483648"

text \<open>
  The next line is a removal that is not careful, or a \<open>write\<close> after which the memory of the
  released line has another length than the line.
\<close>

definition careless :: "(string \<Rightarrow> u32) \<Rightarrow> session \<Rightarrow> bool" where
  "careless af s \<longleftrightarrow> (case s_in s of
     Some l # ls \<Rightarrow> \<not> careful (s_fs s) (words isspace l) \<or> \<not> kept_data af (words isspace l) (prompt ls s) | _ \<Rightarrow> False)"

lemma carelessD:
  assumes "\<not> careless af s" and "s_in s = Some l # ls"
  shows "careful (s_fs (prompt ls s)) (words isspace l)" and "kept_data af (words isspace l) (prompt ls s)"
  using assms by (simp_all add: careless_def)

text \<open>The sessions the loop goes through, as long as no line is careless.\<close>

inductive reach_s :: "(string \<Rightarrow> u32) \<Rightarrow> session \<Rightarrow> session \<Rightarrow> bool" for af s0 where
  start: "reach_s af s0 s0"
| turn: "reach_s af s0 s \<Longrightarrow> s_in s = Some l # ls \<Longrightarrow> safe_line l \<Longrightarrow> \<not> careless af s \<Longrightarrow>
    minifs_execute af (words isspace l) (prompt ls s) = Inr s' \<Longrightarrow> reach_s af s0 s'"

lemma reach_s_trans: "reach_s af s1 s2 \<Longrightarrow> reach_s af s0 s1 \<Longrightarrow> reach_s af s0 s2"
  by (induction rule: reach_s.induct) (auto intro: reach_s.turn)

lemma reach_s_loop: "reach_s af s0 s \<Longrightarrow> main_loop af s0 = main_loop af s"
proof (induction rule: reach_s.induct)
  case start
  show ?case by simp
next
  case (turn s l ls s')
  then show ?case using main_loop_turn [of s l ls af] by (simp add: safe_line_def)
qed

definition safe_input :: "session \<Rightarrow> bool" where
  "safe_input s \<longleftrightarrow> (\<forall>l. Some l \<in> set (s_in s) \<longrightarrow> safe_line l)"

definition ready :: "session \<Rightarrow> bool" where
  "ready s \<longleftrightarrow> fs_ok (s_fs s) \<and> synced (s_fs s)"

lemma safe_line_words: "safe_line l \<Longrightarrow> \<forall>t\<in>set (words isspace l). NUL \<notin> set t"
  using words_chars [of _ isspace l] by (force simp: safe_line_def)

lemma turn_fine:
  assumes "ready s" and "safe_input s" and "s_in s = Some l # ls" and "\<not> careless af s"
  shows "fine (prompt ls s) (minifs_execute af (words isspace l) (prompt ls s))"
proof -
  have l: "safe_line l" using assms(2,3) by (simp add: safe_input_def)
  show ?thesis
  proof (rule execute_fine [OF _ _ safe_line_words [OF l] carelessD [OF assms(4,3)]])
    show "\<forall>k. next_line (prompt ls s) = Some k \<longrightarrow> length k < 4294967296"
      using assms(2,3) by (auto simp: next_line_def safe_input_def safe_line_def split: list.splits)
  qed (use assms(1) in \<open>auto simp: ready_def\<close>)
qed

text \<open>The invariant of the loop.\<close>

lemma reach_ready:
  "reach_s af s0 s \<Longrightarrow> ready s0 \<Longrightarrow> safe_input s0 \<Longrightarrow> ready s \<and> safe_input s"
proof (induction rule: reach_s.induct)
  case start
  then show ?case by simp
next
  case (turn s l ls s')
  then have inv: "ready s" "safe_input s" by blast+
  have "fine (prompt ls s) (Inr s')"
    using turn_fine [OF inv turn.hyps(2,4)] unfolding turn.hyps(5) .
  then show ?case
    using inv turn.hyps(2) by (auto simp: fine_def ready_def safe_input_def) (blast dest: in_set_dropD)
qed

text \<open>
  What the loop can come to, from a session whose invariant holds; or it comes to a removal that
  is not careful. \<open>wary\<close> input has no such removal.
\<close>

definition stops_well :: "(string \<Rightarrow> u32) \<Rightarrow> session \<Rightarrow> session fres \<Rightarrow> bool" where
  "stops_well af s r \<longleftrightarrow> (case r of
       Inr s' \<Rightarrow> reach_s af s s' \<and> s_in s' = []
     | Inl (e, d) \<Rightarrow> (e = Exit 0 \<or> e = Exit (-1) \<or> e = NullDeref \<or> e = Waits) \<and>
         (\<exists>s'. reach_s af s s' \<and> kept_disk (s_fs s') d))"

definition wary :: "(string \<Rightarrow> u32) \<Rightarrow> session \<Rightarrow> bool" where
  "wary af s \<longleftrightarrow> safe_input s \<and> (\<forall>s'. reach_s af s s' \<longrightarrow> \<not> careless af s')"

lemma main_loop_outcome:
  "ready s \<Longrightarrow> safe_input s \<Longrightarrow> stops_well af s (main_loop af s) \<or> (\<exists>s'. reach_s af s s' \<and> careless af s')"
proof (induction "length (s_in s)" arbitrary: s rule: less_induct)
  case less
  consider "careless af s" | "s_in s = []" | ls where "s_in s = None # ls"
    | l ls where "s_in s = Some l # ls" "\<not> careless af s"
    by (cases "s_in s") (auto simp: not_Some_eq)
  then show ?case
  proof cases
    case 1
    then show ?thesis by (blast intro: reach_s.start)
  next
    case 2
    then show ?thesis by (auto simp: main_loop_wait stops_well_def intro: reach_s.start)
  next
    case 3
    then show ?thesis by (auto simp: main_loop_eof stops_well_def intro: reach_s.start exI [of _ s])
  next
    case 4
    have l: "safe_line l" using less.prems(2) 4 by (simp add: safe_input_def)
    then have turn_eq: "main_loop af s = rbind (minifs_execute af (words isspace l) (prompt ls s)) (main_loop af)"
      using 4 by (intro main_loop_turn) (simp_all add: safe_line_def)
    have f: "fine (prompt ls s) (minifs_execute af (words isspace l) (prompt ls s))"
      using less.prems 4 by (rule turn_fine)
    show ?thesis
    proof (cases "minifs_execute af (words isspace l) (prompt ls s)")
      case (Inl e)
      with f show ?thesis
        unfolding turn_eq by (cases e) (auto simp: fine_def no_line_def stops_well_def intro: reach_s.start)
    next
      case (Inr s')
      then have r: "reach_s af s s'" by (rule reach_s.turn [OF reach_s.start 4(1) l 4(2)])
      from reach_ready [OF this less.prems] have inv: "ready s'" "safe_input s'" by auto
      from f Inr have "length (s_in s') \<le> length ls" by (auto simp: fine_def)
      with 4 have "length (s_in s') < length (s_in s)" by simp
      from less.hyps [OF this inv] show ?thesis
      proof
        assume "stops_well af s' (main_loop af s')"
        then have "stops_well af s (main_loop af s)"
          using reach_s_trans [OF _ r] reach_s_loop [OF r] by (auto simp: stops_well_def split: sum.splits)
        then show ?thesis ..
      qed (use reach_s_trans [OF _ r] in blast)
    qed
  qed
qed

text \<open>Memory that is not used again right after its release, as one possible \<open>after_free\<close>.\<close>

definition kept_line :: "string \<Rightarrow> u32" where
  "kept_line l = of_nat (length l)"

lemma kept_line_all: "\<forall>l. kept_line l = of_nat (length l)"
  by (simp add: kept_line_def)

text \<open>Lines that remove nothing are wary.\<close>

definition removes_nothing :: "string \<Rightarrow> bool" where
  "removes_nothing l \<longleftrightarrow> words isspace l = [] \<or> hd (words isspace l) \<noteq> ''rm'' \<and> hd (words isspace l) \<noteq> ''rmdir''"

lemma reach_s_input:
  "reach_s af s0 s \<Longrightarrow> ready s0 \<Longrightarrow> safe_input s0 \<Longrightarrow> set (s_in s) \<subseteq> set (s_in s0)"
proof (induction rule: reach_s.induct)
  case start
  then show ?case by simp
next
  case (turn s l ls s')
  have "ready s \<and> safe_input s" using turn.hyps(1) turn.prems by (rule reach_ready)
  then have "fine (prompt ls s) (Inr s')"
    using turn_fine [OF _ _ turn.hyps(2,4)] unfolding turn.hyps(5) by blast
  then have "set (s_in s') \<subseteq> set ls" by (auto simp: fine_def dest: in_set_dropD)
  then show ?case using turn.IH [OF turn.prems] turn.hyps(2) by auto
qed

lemma wary_lines:
  assumes "ready s" and "\<forall>l. af l = of_nat (length l)"
    and lines: "\<And>l. Some l \<in> set (s_in s) \<Longrightarrow> safe_line l \<and> removes_nothing l"
  shows "wary af s"
proof -
  have safe: "safe_input s" using lines by (simp add: safe_input_def)
  have "\<not> careless af s'" if r: "reach_s af s s'" for s'
  proof -
    have "removes_nothing l" if "s_in s' = Some l # ls" for l ls
      using reach_s_input [OF r assms(1) safe] that lines [of l] by auto
    then show ?thesis using careful_other kept_data_all [OF assms(2)]
      by (auto simp: careless_def removes_nothing_def split: list.splits option.splits)
  qed
  with safe show ?thesis by (simp add: wary_def)
qed


section \<open>Loads outside the table of blocks\<close>

text \<open>The lines that ask for a \<open>read\<close>.\<close>

definition asks_read :: "string option \<Rightarrow> bool" where
  "asks_read l \<longleftrightarrow> (case l of None \<Rightarrow> False | Some l \<Rightarrow> words isspace l \<noteq> [] \<and> hd (words isspace l) = ''read'')"

definition reads_asked :: "string option list \<Rightarrow> nat" where
  "reads_asked ls = length (filter asks_read ls)"

lemma reads_asked_drop: "reads_asked (drop k ls) \<le> reads_asked ls"
proof -
  have "reads_asked (take k ls @ drop k ls) = reads_asked (take k ls) + reads_asked (drop k ls)"
    unfolding reads_asked_def by (simp del: append_take_drop_id)
  then show ?thesis by simp
qed

lemma execute_stray:
  "minifs_execute af data s = Inr s' \<Longrightarrow> s_stray s' \<le> s_stray s + (if data \<noteq> [] \<and> hd data = ''read'' then 1 else 0)"
  using commands_stray [where data = data and s = s and s' = s'] minifs_read_stray [of data s s']
  by (auto simp: execute_eq minifs_help_def minifs_exit_def split: if_splits)

lemma reach_stray:
  "reach_s af s0 s \<Longrightarrow> ready s0 \<Longrightarrow> safe_input s0 \<Longrightarrow>
    s_stray s + reads_asked (s_in s) \<le> s_stray s0 + reads_asked (s_in s0)"
proof (induction rule: reach_s.induct)
  case start
  show ?case by simp
next
  case (turn s l ls s')
  have "ready s \<and> safe_input s" using turn.hyps(1) turn.prems by (rule reach_ready)
  then have "fine (prompt ls s) (Inr s')"
    using turn_fine [OF _ _ turn.hyps(2,4)] unfolding turn.hyps(5) by blast
  then obtain k where k: "s_in s' = drop k ls" by (auto simp: fine_def)
  have "s_stray s' \<le> s_stray s + (if asks_read (Some l) then 1 else 0)"
    using execute_stray [OF turn.hyps(5)] by (simp add: asks_read_def prompt_def)
  moreover have "reads_asked (s_in s) = (if asks_read (Some l) then 1 else 0) + reads_asked ls"
    by (simp add: turn.hyps(2) reads_asked_def)
  ultimately show ?case using turn.IH [OF turn.prems] reads_asked_drop [of k ls] unfolding k by linarith
qed

end
