(* ===== verification/Cmd_Main.thy ===== *)
theory Cmd_Main
  imports Cmd_Loop
begin

text \<open>
  The program as a whole: a new file system satisfies the invariant, a run of \<open>main\<close> starts
  from a new file or from the disk any other run has left, and so does the next.
\<close>


section \<open>A new file system\<close>

definition fresh :: "char list \<Rightarrow> char list \<Rightarrow> disk \<Rightarrow> Filesystem" where
  "fresh pad ptrs d = opened ptrs (init_maps pad) (pwrite 0 (meta (init_maps pad)) d)"

lemma replicate_1024: "replicate 1024 x = x # replicate 1023 x"
  by (simp flip: replicate_Suc)

lemma init_tables:
  "init_inodes = \<lparr>i_size = 0, root_block = 0, parent = 0, i_type = MINIFS_INODE_DIRECTORY\<rparr> # replicate 1023 zero_Inode"
  "init_blocks = \<lparr>next_block = -1, b_size = 0, b_type = MINIFS_BLOCK_USED\<rparr> # replicate 1023 zero_Block"
proof -
  show "init_inodes = \<lparr>i_size = 0, root_block = 0, parent = 0, i_type = MINIFS_INODE_DIRECTORY\<rparr> # replicate 1023 zero_Inode"
    "init_blocks = \<lparr>next_block = -1, b_size = 0, b_type = MINIFS_BLOCK_USED\<rparr> # replicate 1023 zero_Block"
    by (simp_all add: init_inodes_def init_blocks_def DEFAULT_INODE_COUNT_def DEFAULT_BLOCK_COUNT_def replicate_1024)
qed

lemma fresh_simps:
  "im (fresh pad ptrs d) = init_inodes" "bm (fresh pad ptrs d) = init_blocks" "bsz (fresh pad ptrs d) = 1024"
  "current_dir (fresh pad ptrs d) = 0" "fd (fresh pad ptrs d) = pwrite 0 (meta (init_maps pad)) d"
  "used_inode_count (sblock (fresh pad ptrs d)) = 0" "used_block_count (sblock (fresh pad ptrs d)) = 0"
  "meta_size (sblock (fresh pad ptrs d)) = 28712"
  by (simp_all add: fresh_def opened_def init_maps_def init_sblock_def DEFAULT_BLOCK_SIZE_def meta_size_def init_tables)

lemma fresh_root:
  "is_dir (fresh pad ptrs d) 0" "root_block (im (fresh pad ptrs d) ! 0) = 0" "used_set (fresh pad ptrs d) = {0}"
  "blocks_of (fresh pad ptrs d) 0 = [0]" "bytes_of (fresh pad ptrs d) 0 = []"
proof -
  show "is_dir (fresh pad ptrs d) 0" "root_block (im (fresh pad ptrs d) ! 0) = 0"
    by (simp_all add: is_dir_def fresh_simps init_tables)
  show "used_set (fresh pad ptrs d) = {0}"
    by (auto simp: used_set_def fresh_simps init_tables nth_Cons' zero_Inode_def split: if_splits)
  show b: "blocks_of (fresh pad ptrs d) 0 = [0]"
    by (rule blocks_of_eq) (simp add: file_chain_def full_def block_in_def fresh_simps init_tables)
  show "bytes_of (fresh pad ptrs d) 0 = []"
    by (simp add: bytes_of_def b content_Cons body_def fresh_simps init_tables)
qed

lemma fresh_free: "free_blocks (fresh pad ptrs d) = 1023" "free_inodes (fresh pad ptrs d) = 1023"
  by (simp_all add: free_blocks_def free_inodes_def fresh_simps init_tables zero_Block_def zero_Inode_def)

lemma fresh_ok:
  assumes "length pad = 4" and "length ptrs = 16"
  shows "fs_ok (fresh pad ptrs d)" and "synced (fresh pad ptrs d)"
    and "minifs_open True ptrs (Some (pwrite 0 (meta (init_maps pad)) d)) = Inr (fresh pad ptrs d)"
proof -
  let ?f = "fresh pad ptrs d"
  have ok: "sb_ok (init_maps pad)" using assms(1) by (rule init_maps_ok)
  have st: "stored (init_maps pad) (pwrite 0 (meta (init_maps pad)) d)"
    using assms(1) by (intro stored_pwrite) (simp add: init_maps_def init_sblock_def)
  show "minifs_open True ptrs (Some (pwrite 0 (meta (init_maps pad)) d)) = Inr ?f"
    unfolding fresh_def using ok st by (rule open_stored)
  show "synced ?f"
    unfolding synced_def using st sb_okD(3) [OF ok]
    by (intro exI [of _ "sb_repr (init_maps pad)"]) (simp add: fresh_def opened_def)
  have "sb_ok (sblock ?f)"
    unfolding fresh_def opened_def using sb_ok_repr [OF ok, of "take 4 (sb_repr (init_maps pad)) @ ptrs"] assms
    by (simp add: init_maps_def init_sblock_def)
  moreover have "meta_size (sblock ?f) \<le> length (fd ?f)"
    using st by (simp add: stored_def fresh_simps) (simp add: meta_size_def init_maps_def init_tables)
  ultimately have "blocks_ok ?f"
    using fresh_free [of pad ptrs d]
    by (auto simp: blocks_ok_def fresh_simps init_tables zero_Block_def)
  then have tree: "tree_ok ?f"
    using fresh_root [of pad ptrs d]
    by (simp add: tree_ok_def file_chain_def full_def block_in_def) (simp add: fresh_simps init_tables)
  have "dir_ok ?f 0"
    using fresh_root [of pad ptrs d] by (simp add: dir_ok_def) (simp add: fresh_simps init_tables)
  then have "inode_inv ?f 0"
    using fresh_root(1) [of pad ptrs d] by (simp add: inode_inv_def is_dir_def)
  with tree fresh_root [of pad ptrs d] fresh_free [of pad ptrs d] show "fs_ok ?f"
    by (simp add: fs_ok_def) (simp add: fresh_simps init_tables)
qed

lemma init_fresh:
  "length pad = 4 \<Longrightarrow> minifs_init True pad file =
    Inr (pwrite 0 (meta (init_maps pad)) (case file of None \<Rightarrow> [] | Some d \<Rightarrow> d))"
  by (rule init_eq)


section \<open>Runs of the program\<close>

lemma kept_exists:
  assumes "fs_ok fs" and "kept_disk fs d"
  shows "check_exists (Some d)"
proof -
  have "40 \<le> meta_size (sblock fs)" by (simp add: meta_size_def)
  also have "\<dots> \<le> length (fd fs)" using fs_okD(2) [OF assms(1)] by (simp add: blocks_ok_def)
  also have "\<dots> \<le> length d" using assms(2) by (simp add: kept_disk_def same_but_def)
  finally show ?thesis by (simp add: sizeof_SuperBlock_def)
qed

definition session0 :: "Filesystem \<Rightarrow> string option list \<Rightarrow> session" where
  "session0 fs input = \<lparr>s_fs = fs, s_in = input, s_out = [], s_err = [], s_stray = 0\<rparr>"

lemma session0_simps [simp]: "s_fs (session0 fs input) = fs" "s_in (session0 fs input) = input"
  "s_out (session0 fs input) = []" "s_err (session0 fs input) = []" "s_stray (session0 fs input) = 0"
  by (simp_all add: session0_def)

text \<open>A first run, on a file that does not exist or is too short.\<close>

lemma main_first:
  assumes "length pad = 4" and "length ptrs = 16" and "\<not> check_exists file"
  shows "minifs_main af True True pad ptrs 2 file input =
    main_loop af (session0 (fresh pad ptrs (case file of None \<Rightarrow> [] | Some d \<Rightarrow> d)) input)"
  using assms init_fresh [OF assms(1), of "file"] fresh_ok(3) [OF assms(1,2)]
  by (simp add: minifs_main_def session0_def)

definition safe_lines :: "string option list \<Rightarrow> bool" where
  "safe_lines input \<longleftrightarrow> (\<forall>l. Some l \<in> set input \<longrightarrow> safe_line l)"

lemma safe_input0 [simp]: "safe_input (session0 fs input) = safe_lines input"
  by (simp add: safe_input_def safe_lines_def)

text \<open>The disk when a run is over: at the end of the process, or killed while it waits.\<close>

fun left_disk :: "session fres \<Rightarrow> disk" where
  "left_disk (Inl (e, d)) = d"
| "left_disk (Inr s) = sdisk s"

lemma stops_disk:
  assumes "stops_well af s r"
  obtains s' where "reach_s af s s'" and "kept_disk (s_fs s') (left_disk r)" and "\<forall>t. r = Inr t \<longrightarrow> s' = t"
proof (cases r)
  case (Inl x)
  with assms obtain t where "reach_s af s t" "kept_disk (s_fs t) (left_disk r)" by (cases x) (auto simp: stops_well_def)
  with Inl show thesis by (intro that) simp_all
next
  case (Inr t)
  with assms have "reach_s af s t" by (simp add: stops_well_def)
  with Inr show thesis by (intro that) simp_all
qed

text \<open>The disks that runs leave, one after the other, when no line asks for a removal that is not careful.\<close>

inductive left_by_runs :: "(string \<Rightarrow> u32) \<Rightarrow> disk \<Rightarrow> bool" for af where
  first: "\<not> check_exists file \<Longrightarrow> length pad = 4 \<Longrightarrow> length ptrs = 16 \<Longrightarrow>
    minifs_init True pad file = Inr d \<Longrightarrow> minifs_open True ptrs (Some d) = Inr fs \<Longrightarrow> wary af (session0 fs input) \<Longrightarrow>
    left_by_runs af (left_disk (minifs_main af True True pad ptrs 2 file input))"
| again: "left_by_runs af d \<Longrightarrow> length ptrs = 16 \<Longrightarrow>
    minifs_open True ptrs (Some d) = Inr fs \<Longrightarrow> wary af (session0 fs input) \<Longrightarrow>
    left_by_runs af (left_disk (minifs_main af True True pad ptrs 2 (Some d) input))"

end
