(* ===== verification/Fs_Claims.thy ===== *)
theory Fs_Claims
  imports Cmd_Main
begin

text \<open>
  The properties of internal/fs/fs.c: transfers, offsets, creation, opening and writing of the
  tables, appending, reading, releasing and the marking of entries. The witnesses are on a new
  file system.
\<close>


section \<open>Examples\<close>

abbreviation pad0 :: "char list" where "pad0 \<equiv> replicate 4 NUL"
abbreviation ptrs0 :: "char list" where "ptrs0 \<equiv> replicate 16 NUL"

text \<open>A file system as \<open>minifs_init\<close> and \<open>minifs_open\<close> make it on a file that does not exist.\<close>

abbreviation new_fs :: Filesystem where "new_fs \<equiv> fresh pad0 ptrs0 []"

lemma new_fs_ok: "fs_ok new_fs" "synced new_fs"
  by (rule fresh_ok; simp)+

lemma new_fs_avail: "avail new_fs 0 = 1048576"
  by (simp add: avail_def fresh_root fresh_simps(3) fresh_free) (simp add: fresh_simps init_tables)

text \<open>A directory with less content than a block holds has one block.\<close>

lemma short_dir:
  assumes ok: "fs_ok fs" and "length (bytes_of fs (unat (current_dir fs))) < bsz fs"
  shows "length (dir_blocks fs) = 1"
proof -
  let ?xs = "dir_blocks fs"
  have c: "?xs \<noteq> []" "\<forall>b\<in>set ?xs. block_in fs b" "full fs ?xs"
    using dir_chain [OF ok] by (auto simp: file_chain_def)
  have "bsz fs * (length ?xs - 1) + unat (b_size (bm fs ! last ?xs)) < bsz fs"
    using content_full_length [OF c] assms(2) unfolding bytes_of_def by (simp only:)
  then have "bsz fs * (length ?xs - 1) < bsz fs * 1" by linarith
  then have "length ?xs - 1 < 1" by (simp only: mult_less_cancel1)
  then show ?thesis using c(1) by (cases ?xs) auto
qed

text \<open>The same with one inode and its entry in the root.\<close>

lemma new_entry:
  fixes par :: int
  assumes "0 < i" "i < 1024" and ty: "ty = MINIFS_INODE_FILE \<and> par = -1 \<or> ty = MINIFS_INODE_DIRECTORY \<and> par = 0"
  shows "\<exists>fs. fs_ok fs \<and> synced fs \<and> i < length (im fs) \<and> used_set fs = {0, i} \<and> i_type (im fs ! i) = ty \<and>
    bytes_of fs i = [] \<and> current_dir fs = 0 \<and> length (dir_blocks fs) = 1 \<and> bsz fs = 1024 \<and>
    cur_entries fs = [(CHR 0x01, name_field name, of_nat i)] \<and> parent (im fs ! 0) = 0"
proof -
  have i: "init_inodes ! i = zero_Inode" using assms(1,2) by (simp add: init_tables)
  have e: "(1 :: nat) \<in> empty_set new_fs" by (simp add: empty_set_def fresh_simps init_tables zero_Block_def)
  have "int32 par" using ty by (auto simp: int32_def)
  then have t: "can_take new_fs i 1 ty par"
    using assms e i new_fs_ok(1) by (auto simp: can_take_def fresh_simps init_tables zero_Inode_def)
  have "ty = MINIFS_INODE_DIRECTORY \<longrightarrow> par = int (unat (current_dir new_fs))" using ty by (auto simp: fresh_simps)
  from make_inode_taken [OF t this, of name] obtain fs where f: "fs_ok fs" "synced fs" "added new_fs fs i ty par name"
    by (auto simp: fresh_free)
  have u: "used_set fs = {0, i}" "i_type (im fs ! i) = ty" "bytes_of fs i = []" "current_dir fs = 0"
    using f(3) by (auto simp: added_def fresh_root fresh_simps)
  have c: "entries (bytes_of fs (unat (0 :: u32))) = [(CHR 0x01, name_field name, of_nat i)]"
    using f(3) by (simp add: added_def fresh_simps fresh_root)
  have l: "i < length (im fs)" using u(1) by (auto simp: used_set_def)
  have bs: "bsz fs = 1024" using f(3) by (simp add: added_def fresh_simps)
  have len: "32 * length (cur_entries fs) = length (bytes_of fs (unat (current_dir fs)))"
    using dir_inv [OF f(1) fs_okD(5) [OF f(1)]] by (simp add: dir_ok_def length_entries)
  then have "length (dir_blocks fs) = 1" using c u(4) bs by (intro short_dir [OF f(1)]) simp
  moreover have p0: "parent (im fs ! 0) = 0" using f(3) assms(1) by (simp add: added_def fresh_simps init_tables)
  ultimately show ?thesis
    using f u c l bs by (intro exI [of _ fs]) simp
qed


lemma one_less: "0 < k \<Longrightarrow> k < unat (n :: u32) \<Longrightarrow> (of_nat k :: u32) - 1 = of_nat (k - 1) \<and> unat (of_nat (k - 1) :: u32) = k - 1"
proof (rule conjI)
  assume k: "0 < k" "k < unat n"
  then show "(of_nat k :: u32) - 1 = of_nat (k - 1)" by (cases k) simp_all
  show "unat (of_nat (k - 1) :: u32) = k - 1" using k(2) unat_u32 [of n] by (intro of_nat_u32) linarith
qed


section \<open>Properties\<close>

text \<open>
  C32. The transfer loops: as long as no call of the operating system fails, however few bytes
  each call transfers, \<open>minifs_read_block\<close> delivers exactly the bytes asked for or ends the
  process at the end of the file, and \<open>minifs_write_block\<close> writes exactly the bytes given.
  Both loops end after at most as many turns as there are bytes.
\<close>

theorem fs_transfer_loops:
  assumes "calm_read d rd" and "calm_write wr" and "length buf = unat n" and "unat n \<le> length dat" and "unat n < fuel"
  shows "block_read_loop fuel call rd d at n 0 buf =
      (if n = 0 \<or> at + unat n \<le> length d then Inr (pread at (unat n) d) else Inl (Exit (-1), d)) \<and>
    block_write_loop fuel call wr d at n 0 dat = Inr (pwrite at (take (unat n) dat) d)"
  using block_read_loop_calm [OF assms(1), of 0 n buf fuel call at]
    block_write_loop_calm [OF assms(2), of 0 n dat fuel call d at] assms(3-5)
  by (simp add: unat_eq_zero)

theorem fs_transfer_loops_witness:
  "block_read_loop 9 0 (\<lambda>call pos n. if pos < 5 then 1 else 0) ''hello'' 1 3 0 ''???'' = Inr ''ell'' \<and>
   block_write_loop 9 0 (\<lambda>call pos n. 1) ''hello'' 1 3 0 ''ipp'' = Inr ''hippo''"
proof -
  have "calm_read ''hello'' (\<lambda>call pos n. if pos < 5 then 1 else 0)" "calm_write (\<lambda>call pos n. 1)"
    by (auto simp: calm_read_def calm_write_def)
  from fs_transfer_loops [OF this, of "''???''" 3 "''ipp''" 9 0 1] show ?thesis
    by (simp add: pread_def pwrite_def)
qed

text \<open>
  C33. A call that fails, after \<open>k\<close> of \<open>n\<close> bytes were transferred and with no other failure: \<open>read\<close> and
  \<open>write\<close> return -1, which the loops keep in a \<open>uint32_t\<close> and compare with 0, so that the error
  is not noticed and -1 is added to the count. If it was 0 it wraps around past the size: the loop
  ends as if all had been transferred, with the buffer or the disk as it was. Otherwise it goes on with a
  count that is one too small: \<open>minifs_read_block\<close> loses the last byte it had and shifts what follows, with
  one byte too many from the file; \<open>minifs_write_block\<close> writes the last byte twice, and the rest one further.
\<close>

theorem fs_failed_io_unnoticed:
  assumes calm: "calm_read d rd" "calm_write wr" and k: "k < unat n" and buf: "length buf = unat n"
    and dat: "unat n \<le> length dat" and fuel: "Suc (unat n) < fuel"
  shows "block_read_loop fuel call (rd(call := \<lambda>pos m. -1)) d at n (of_nat k) buf =
      (if k = 0 then Inr buf
       else if at + (unat n - k + 1) \<le> length d then Inr (take (k - 1) buf @ pread at (unat n - k + 1) d)
       else Inl (Exit (-1), d)) \<and>
    block_write_loop fuel call (wr(call := \<lambda>pos m. -1)) d at n (of_nat k) dat =
      Inr (if k = 0 then d else pwrite at (drop (k - 1) (take (unat n) dat)) d)"
proof -
  obtain f where f: "fuel = Suc f" "unat n < f" using fuel by (cases fuel) auto
  have kn: "unat (of_nat k :: u32) = k" using k unat_u32 [of n] by (intro of_nat_u32) simp
  have rt: "block_read_loop fuel call (rd(call := \<lambda>pos m. -1)) d at n (of_nat k) buf =
      block_read_loop f (Suc call) (rd(call := \<lambda>pos m. -1)) d at n (of_nat k - 1) buf"
    unfolding f(1) using k buf kn by (intro read_turn_failed) simp_all
  also have "\<dots> = block_read_loop f (Suc call) rd d at n (of_nat k - 1) buf" by (rule read_loop_later) simp
  finally have r: "block_read_loop fuel call (rd(call := \<lambda>pos m. -1)) d at n (of_nat k) buf =
      block_read_loop f (Suc call) rd d at n (of_nat k - 1) buf" .
  have wt: "block_write_loop fuel call (wr(call := \<lambda>pos m. -1)) d at n (of_nat k) dat =
      block_write_loop f (Suc call) (wr(call := \<lambda>pos m. -1)) d at n (of_nat k - 1) dat"
    unfolding f(1) using k dat kn by (intro write_turn_failed) simp_all
  also have "\<dots> = block_write_loop f (Suc call) wr d at n (of_nat k - 1) dat" by (rule write_loop_later) simp
  finally have w: "block_write_loop fuel call (wr(call := \<lambda>pos m. -1)) d at n (of_nat k) dat =
      block_write_loop f (Suc call) wr d at n (of_nat k - 1) dat" .
  show ?thesis
  proof (cases "k = 0")
    case True
    have "\<not> (-1 :: u32) < n" using word_order.extremum [of n] by (simp add: not_less)
    then show ?thesis
      using r w by (simp add: True block_read_loop.simps [of f] block_write_loop.simps [of f])
  next
    case False
    then have o: "(of_nat k :: u32) - 1 = of_nat (k - 1)" "unat (of_nat (k - 1) :: u32) = k - 1"
      using one_less k by blast+
    have le: "(of_nat (k - 1) :: u32) \<le> n" unfolding word_le_nat_alt o(2) using k by simp
    have m: "unat n - (k - 1) = unat n - k + 1" "unat n - (k - 1) < f" using k False f(2) by auto
    have "take (unat n - (k - 1)) (drop (k - 1) dat) = drop (k - 1) (take (unat n) dat)" by (simp add: drop_take)
    moreover have "Suc (unat n) - k = Suc (unat n - k)" "\<not> Suc (unat n) \<le> k" using k by auto
    ultimately show ?thesis
      using block_read_loop_calm [OF calm(1) le buf, unfolded o(2), OF m(2)]
        block_write_loop_calm [OF calm(2) le dat, unfolded o(2), OF m(2)] False
      unfolding r w o(1) by (simp add: m(1) Let_def)
  qed
qed

theorem fs_failed_io_unnoticed_witness:
  "block_read_loop 9 1 ((full_read ''abcdef'')(1 := \<lambda>pos m. -1)) ''abcdef'' 2 4 2 ''ab??'' = Inr ''acde'' \<and>
   block_write_loop 9 1 (full_write(1 := \<lambda>pos m. -1)) ''ab'' 2 4 2 ''abcd'' = Inr ''abbcd'' \<and>
   block_read_loop 9 0 ((full_read ''hello'')(0 := \<lambda>pos m. -1)) ''hello'' 1 3 0 ''???'' = Inr ''???''"
proof -
  from fs_failed_io_unnoticed [OF full_read_calm full_write_calm, of 2 4 "''ab??''" "''abcd''" 9 1 "''abcdef''" 2]
    fs_failed_io_unnoticed [OF full_read_calm full_write_calm, of 2 4 "''ab??''" "''abcd''" 9 1 "''ab''" 2]
    fs_failed_io_unnoticed [OF full_read_calm full_write_calm, of 0 3 "''???''" "''abcd''" 9 0 "''hello''" 1]
  show ?thesis by (simp add: pread_def pwrite_def)
qed

text \<open>
  C34. The offsets, computed in 32 bits: on a file system whose last block ends below 4 GiB none
  of them wraps around, so that the superblock, the records of the inodes, those of the blocks
  and the bodies of the blocks follow each other on the disk without overlap.
\<close>

theorem fs_offsets:
  assumes "sb_ok (sblock fs)" and "i < length (inode_map (sblock fs))" and "b < length (block_map (sblock fs))"
  shows "unat (minifs_inode_offset fs (of_nat i)) = sizeof_SuperBlock + sizeof_Inode * i \<and>
    unat (minifs_block_head_offset fs (of_nat b)) =
      sizeof_SuperBlock + sizeof_Inode * length (inode_map (sblock fs)) + sizeof_Block * b \<and>
    unat (minifs_block_body_offset fs (of_nat b)) =
      sizeof_SuperBlock + sizeof_Inode * length (inode_map (sblock fs)) +
      sizeof_Block * length (block_map (sblock fs)) + unat (block_size (sblock fs)) * b \<and>
    unat (minifs_block_body_offset fs (of_nat b)) + unat (block_size (sblock fs)) < 2 ^ 32"
proof -
  have "pos fs b + bsz fs \<le> pos fs (length (bm fs))" using assms(3) by (rule body_pos_next)
  then show ?thesis
    using inode_offset [OF assms(1), of i] head_offset [OF assms(1), of b] body_offset [OF assms(1), of b]
      sb_okD(4) [OF assms(1)] assms(2,3)
    by (simp add: sizeof_SuperBlock_def sizeof_Inode_def sizeof_Block_def body_pos_def meta_size_def)
qed

theorem fs_offsets_witness:
  "unat (minifs_inode_offset new_fs (of_nat 1023)) = 16408 \<and>
   unat (minifs_block_head_offset new_fs (of_nat 1023)) = 28700 \<and>
   unat (minifs_block_body_offset new_fs (of_nat 1023)) = 1076264"
  using fs_offsets [OF fs_okD(3) [OF new_fs_ok(1)], of 1023 1023]
  by (simp add: fresh_simps init_tables sizeof_SuperBlock_def sizeof_Inode_def sizeof_Block_def)

text \<open>
  C17. A new file system: \<open>minifs_init\<close> on a file that does not exist or has any content writes
  a disk that \<open>check_exists\<close> accepts and \<open>minifs_open\<close> reads back as it was made: one
  directory, the root, with one block and no entries, all other inodes and blocks free, the
  invariant of the commands satisfied.
\<close>

theorem fs_init_open:
  assumes "length pad = 4" and "length ptrs = 16"
  shows "\<exists>d fs. minifs_init True pad file = Inr d \<and> check_exists (Some d) \<and>
    minifs_open True ptrs (Some d) = Inr fs \<and> fs_ok fs \<and> synced fs \<and>
    inode_map (sblock fs) = init_inodes \<and> block_map (sblock fs) = init_blocks \<and> current_dir fs = 0 \<and>
    minifs_read_dir fs (current_dir fs) = Inr \<lparr>names = [], inodes = [], used = []\<rparr> \<and>
    used_set fs = {0} \<and> free_inodes fs = 1023 \<and> free_blocks fs = 1023"
proof -
  let ?d = "case file of None \<Rightarrow> [] | Some d \<Rightarrow> d"
  let ?fs = "fresh pad ptrs ?d"
  note f = fresh_ok [OF assms, of ?d]
  have "minifs_read_dir ?fs 0 = Inr (dirmap (entries (bytes_of ?fs (unat (0 :: u32)))))"
    using f(1) fresh_root(1) [of pad ptrs ?d] by (intro read_dir_ok) simp_all
  then have "minifs_read_dir ?fs 0 = Inr \<lparr>names = [], inodes = [], used = []\<rparr>"
    by (simp add: fresh_root dirmap_def)
  moreover have "check_exists (Some (pwrite 0 (meta (init_maps pad)) ?d))"
    using kept_exists [OF f(1) kept_disk_refl] by (simp only: fresh_simps)
  ultimately show ?thesis
    using f init_fresh [OF assms(1), of "file"] fresh_root(3) [of pad ptrs ?d] fresh_free [of pad ptrs ?d]
    by (intro exI [of _ "pwrite 0 (meta (init_maps pad)) ?d"] exI [of _ ?fs]) (simp add: fresh_simps)
qed

theorem fs_init_open_witness:
  "\<exists>d fs. minifs_init True pad0 (Some ''old text'') = Inr d \<and> minifs_open True ptrs0 (Some d) = Inr fs \<and>
    fs_ok fs \<and> free_blocks fs = 1023"
  using fs_init_open [of pad0 ptrs0 "Some ''old text''"] by auto

text \<open>
  C18. Writing the tables and opening again: \<open>minifs_update_superblock\<close> changes no byte behind the
  tables, and \<open>minifs_open\<close> on the result returns the same superblock and the same inodes and
  blocks (with the pointers of its own run), with the root as current directory.
\<close>

theorem fs_tables_persist:
  assumes "sb_ok (sblock fs)" and "length ptrs = 16"
  shows "\<exists>d. minifs_update_superblock fs = Inr (fs\<lparr>fd := d\<rparr>) \<and>
    same_but {0..<meta_size (sblock fs)} (fd fs) d \<and>
    minifs_open True ptrs (Some d) = Inr
      \<lparr>sblock = (sblock fs)\<lparr>sb_repr := take 4 (sb_repr (sblock fs)) @ ptrs\<rparr>, current_dir = 0, fd = d\<rparr>"
proof -
  let ?d = "pwrite 0 (meta (sblock fs)) (fd fs)"
  have "stored (sblock fs) ?d" using sb_okD(3) [OF assms(1)] by (rule stored_pwrite)
  from open_stored [OF assms(1) this, of ptrs]
  have "minifs_open True ptrs (Some ?d) = Inr
      \<lparr>sblock = (sblock fs)\<lparr>sb_repr := take 4 (sb_repr (sblock fs)) @ ptrs\<rparr>, current_dir = 0, fd = ?d\<rparr>"
    by (simp add: opened_def)
  moreover have "same_but {0..<meta_size (sblock fs)} (fd fs) ?d"
    using length_meta [OF sb_okD(3) [OF assms(1)]] by (intro same_but_pwrite) simp
  ultimately show ?thesis using update_superblock_eq [OF assms(1)] by blast
qed

theorem fs_tables_persist_witness:
  "\<exists>d. minifs_update_superblock new_fs = Inr (new_fs\<lparr>fd := d\<rparr>) \<and>
    minifs_open True ptrs0 (Some d) = Inr
      \<lparr>sblock = (sblock new_fs)\<lparr>sb_repr := take 4 (sb_repr (sblock new_fs)) @ ptrs0\<rparr>, current_dir = 0, fd = d\<rparr>"
  using fs_tables_persist [OF fs_okD(3) [OF new_fs_ok(1)], of ptrs0] by auto

text \<open>
  C3. Appending: on a file system whose inodes have disjoint chains of blocks,
  \<open>minifs_append_data\<close> of data that fit adds exactly these bytes to the content of the inode,
  whatever number of blocks they take, and changes neither another inode's content nor the
  table of inodes. Data that do not fit end the process with status -1, and none of the bytes
  on the disk that belong to the tables or to a content has changed.
\<close>

theorem fs_append:
  assumes "tree_ok fs" and "i \<in> used_set fs" and "length dat < 2 ^ 32"
  shows "if length dat \<le> avail fs i
    then \<exists>fs'. minifs_append_data fs (of_nat i) dat (of_nat (length dat)) = Inr fs' \<and> tree_ok fs' \<and>
      same_tables fs fs' \<and> bytes_of fs' i = bytes_of fs i @ dat \<and>
      (\<forall>j\<in>used_set fs. j \<noteq> i \<longrightarrow> bytes_of fs' j = bytes_of fs j) \<and> avail fs' i + length dat = avail fs i
    else \<exists>d. minifs_append_data fs (of_nat i) dat (of_nat (length dat)) = Inl (Exit (-1), d) \<and> kept_disk fs d"
  using st.append_law [OF assms(1,2), of dat] st.full_law [OF assms(1,2), of dat] assms(3)
  by (auto simp: append_to_def)

theorem fs_append_witness:
  "\<exists>fs. minifs_append_data new_fs (of_nat 0) (replicate 3000 CHR ''x'') (of_nat 3000) = Inr fs \<and>
    bytes_of fs 0 = replicate 3000 CHR ''x''"
  using fs_append [OF fs_okD(1) [OF new_fs_ok(1)], of 0 "replicate 3000 CHR ''x''"]
  by (auto simp: fresh_root new_fs_avail)

text \<open>
  C19. Releasing: for an inode in use that is not the root, not the current directory and the
  parent of no directory, the end of \<open>rmdir\<close> and \<open>rm\<close> returns all blocks of its chain to the
  free ones, frees the inode, leaves the contents of all others as they are and keeps the
  invariant, the counts of the superblock included.
\<close>

theorem fs_release:
  assumes "fs_ok fs" and "removable fs t"
  shows "\<exists>fs'. release_inode (int t) fs = Inr fs' \<and> fs_ok fs' \<and> synced fs' \<and>
    used_set fs' = used_set fs - {t} \<and> free_blocks fs' = free_blocks fs + length (blocks_of fs t) \<and>
    (\<forall>j\<in>used_set fs'. bytes_of fs' j = bytes_of fs j)"
proof -
  have tu: "t \<in> used_set fs" "t \<noteq> 0" using assms(2) by (simp_all add: removable_def)
  have rok: "fs_ok (released fs t)" using assms by (rule released_ok)
  note u = updated_tree [OF fs_okD(1) [OF rok]]
  have "bytes_of (updated (released fs t)) j = bytes_of fs j" if "j \<in> used_set fs - {t}" for j
    using that u(2) [of j] released_old(3) [OF fs_okD(1) [OF assms(1)] tu(1), of j] by (simp add: released_used)
  then show ?thesis
    using release_inode_ok [OF assms] updated_fs_ok [OF rok] updated_synced [OF fs_okD(3) [OF rok]]
      released_free(1) [OF assms(1) tu] u(3)
    by (intro exI [of _ "updated (released fs t)"]) (simp add: released_used free_blocks_def)
qed

theorem fs_release_witness:
  "\<exists>fs t fs'. fs_ok fs \<and> t \<in> used_set fs \<and> release_inode (int t) fs = Inr fs' \<and> fs_ok fs' \<and>
    used_set fs' = {0} \<and> free_blocks fs < free_blocks fs'"
proof -
  from new_entry [of 1 MINIFS_INODE_FILE "-1"] obtain fs where
    f: "fs_ok fs" "used_set fs = {0, 1}" "1 < length (im fs)" "i_type (im fs ! 1) = MINIFS_INODE_FILE" by auto
  have r: "removable fs 1" using file_removable [OF f(1,3,4)] .
  have "blocks_of fs 1 \<noteq> []" using fs_okD(1) [OF f(1)] f(2) by (simp add: tree_ok_def file_chain_def)
  then have ne: "0 < length (blocks_of fs 1)" by simp
  from fs_release [OF f(1) r] obtain g where
    g: "release_inode (int 1) fs = Inr g" "fs_ok g" "used_set g = used_set fs - {1}"
      "free_blocks g = free_blocks fs + length (blocks_of fs 1)" by blast
  have "used_set g = {0}" using g(3) f(2) by auto
  moreover have "free_blocks fs < free_blocks g" using g(4) ne by linarith
  moreover have "1 \<in> used_set fs" using f(2) by simp
  ultimately show ?thesis using f(1) g(1,2) by blast
qed

text \<open>
  C20. Reading: for a file of a file system that satisfies the invariant, \<open>minifs_read_data\<close>
  returns its content and its size, block by block in the order of the chain. But before it
  ends, its loop has loaded the entry of index -1 of the table of blocks, a read outside the
  array, which the last component of the model's result reports.
\<close>

theorem fs_read_data:
  assumes "fs_ok fs" and "i < length (inode_map (sblock fs))" and "i_type (inode_map (sblock fs) ! i) = MINIFS_INODE_FILE"
  shows "minifs_read_data fs (int i) = Inr (bytes_of fs i, sint (i_size (inode_map (sblock fs) ! i)), True) \<and>
    length (bytes_of fs i) = unat (i_size (inode_map (sblock fs) ! i))"
  using read_data_ok [OF assms] file_inv [OF assms] by simp

theorem fs_read_data_witness:
  "\<exists>fs i. fs_ok fs \<and> minifs_read_data fs (int i) = Inr ([], 0, True)"
proof -
  from new_entry [of 1 MINIFS_INODE_FILE "-1"] obtain fs where
    f: "fs_ok fs" "1 < length (im fs)" "i_type (im fs ! 1) = MINIFS_INODE_FILE" "bytes_of fs 1 = []" by auto
  from fs_read_data [OF f(1-3)] f(4) have "minifs_read_data fs (int 1) = Inr ([], 0, True)"
    by (simp add: unat_eq_0)
  with f(1) show ?thesis by blast
qed

text \<open>
  C31. Marking an entry, for every position. That of an entry that is not the first one of a later
  block: \<open>minifs_remove_from_dir\<close> finds the block of the entry in the chain of the directory and sets
  the \<open>used\<close> byte of that entry to zero, and nothing else. That of the first entry of a later block:
  the test of the loop, \<open>>\<close> in the place of \<open>>=\<close>, does not go on to the block of the entry, and the
  byte that is cleared is the first one of the block that follows the block before on the disk,
  whatever inode it belongs to. A position in the block after the last of the directory: the walk
  ends with the block of index -1, and the byte is one of the tables on the disk or the first one
  behind them. A position beyond: the walk reads outside the table of blocks.
\<close>

theorem fs_remove_entry:
  assumes "fs_ok fs" and n: "n = unat (block_size (sblock fs)) div 32" and xs: "xs = blocks_of fs (unat (current_dir fs))"
    and r: "r = minifs_remove_from_dir fs (current_dir fs) (of_nat j)"
  shows "(j div n < length xs \<and> (j < n \<or> j mod n \<noteq> 0) \<longrightarrow>
      (\<exists>fs'. r = Inr fs' \<and> fs_ok fs' \<and> sblock fs' = sblock fs \<and>
        entries (bytes_of fs' (unat (current_dir fs))) = mark {j} (entries (bytes_of fs (unat (current_dir fs)))) \<and>
        (\<forall>i\<in>used_set fs. i \<noteq> unat (current_dir fs) \<longrightarrow> bytes_of fs' i = bytes_of fs i))) \<and>
    (\<forall>q<length xs. j = Suc q * n \<longrightarrow>
      r = Inr (fs\<lparr>fd := pwrite (body_pos (sblock fs) (Suc (xs ! q))) [NUL] (fd fs)\<rparr>)) \<and>
    (length xs * n < j \<and> j \<le> Suc (length xs) * n \<and> next_block (block_map (sblock fs) ! last xs) = -1 \<and>
        unat (block_size (sblock fs)) \<le> meta_size (sblock fs) \<longrightarrow>
      r = Inr (fs\<lparr>fd := pwrite (meta_size (sblock fs) - unat (block_size (sblock fs)) + 32 * (j - length xs * n)) [NUL] (fd fs)\<rparr>)) \<and>
    (Suc (length xs) * n < j \<and> j < 2 ^ 32 \<longrightarrow> r = Inl (OutOfBounds, fd fs))"
proof (intro conjI impI)
  note ok = assms(1)
  have pb: "n = per_block fs" by (simp add: n per_block_def)
  show "\<exists>fs'. r = Inr fs' \<and> fs_ok fs' \<and> sblock fs' = sblock fs \<and>
      entries (bytes_of fs' (unat (current_dir fs))) = mark {j} (entries (bytes_of fs (unat (current_dir fs)))) \<and>
      (\<forall>i\<in>used_set fs. i \<noteq> unat (current_dir fs) \<longrightarrow> bytes_of fs' i = bytes_of fs i)"
    if "j div n < length xs \<and> (j < n \<or> j mod n \<noteq> 0)"
  proof -
    have sl: "slot fs j" using that by (simp add: slot_def pb xs)
    show ?thesis
      using remove_from_dir_eq [OF ok sl] hidden_ok [OF ok sl] hidden_other(2) [OF ok sl]
      by (intro exI [of _ "hidden j fs"]) (simp add: r)
  qed
  show "\<forall>q<length xs. j = Suc q * n \<longrightarrow> r = Inr (fs\<lparr>fd := pwrite (body_pos (sblock fs) (Suc (xs ! q))) [NUL] (fd fs)\<rparr>)"
    using remove_from_dir_boundary [OF ok] unfolding r pb xs by blast
  show "r = Inr (fs\<lparr>fd := pwrite (meta_size (sblock fs) - unat (block_size (sblock fs)) + 32 * (j - length xs * n)) [NUL] (fd fs)\<rparr>)"
    if "length xs * n < j \<and> j \<le> Suc (length xs) * n \<and> next_block (block_map (sblock fs) ! last xs) = -1 \<and>
      unat (block_size (sblock fs)) \<le> meta_size (sblock fs)"
    using remove_from_dir_past [OF ok, of j] that unfolding r pb xs by blast
  show "r = Inl (OutOfBounds, fd fs)" if "Suc (length xs) * n < j \<and> j < 2 ^ 32"
    using remove_from_dir_out [OF ok, of j] that unfolding r pb xs by simp
qed

theorem fs_remove_entry_witness:
  "(\<exists>fs. minifs_remove_from_dir new_fs 0 31 = Inr fs \<and> fs_ok fs) \<and>
    minifs_remove_from_dir new_fs 0 32 = Inr (new_fs\<lparr>fd := pwrite 29736 [NUL] (fd new_fs)\<rparr>) \<and>
    minifs_remove_from_dir new_fs 0 64 = Inr (new_fs\<lparr>fd := pwrite 28712 [NUL] (fd new_fs)\<rparr>) \<and>
    minifs_remove_from_dir new_fs 0 65 = Inl (OutOfBounds, fd new_fs)"
proof -
  note c = fs_remove_entry [OF new_fs_ok(1) refl refl refl]
  have "\<exists>fs. minifs_remove_from_dir new_fs 0 31 = Inr fs \<and> fs_ok fs"
    using c [of 31] by (simp add: fresh_root fresh_simps) blast
  moreover have "minifs_remove_from_dir new_fs 0 32 = Inr (new_fs\<lparr>fd := pwrite 29736 [NUL] (fd new_fs)\<rparr>)"
    using c [of 32] by (simp add: fresh_root fresh_simps init_tables body_pos_def)
  moreover have "minifs_remove_from_dir new_fs 0 64 = Inr (new_fs\<lparr>fd := pwrite 28712 [NUL] (fd new_fs)\<rparr>)"
    using c [of 64] by (simp add: fresh_root fresh_simps init_tables)
  moreover have "minifs_remove_from_dir new_fs 0 65 = Inl (OutOfBounds, fd new_fs)"
    using c [of 65] by (simp add: fresh_root fresh_simps)
  ultimately show ?thesis by blast
qed

end
