(* ===== verification/Cmd_Stale.thy ===== *)
theory Cmd_Stale
  imports Cmd_Safe
begin

text \<open>
  A \<open>write\<close> whose call of \<open>strlen\<close> on the released line returns something else than the line's
  length: the size of the file is then not the length of its content, and this is what the next
  \<open>read\<close> makes of it. \<open>stale\<close> describes such a file system: all is in order but the size of one file.
\<close>

definition stale :: "Filesystem \<Rightarrow> nat \<Rightarrow> bool" where
  "stale fs i \<longleftrightarrow> walkable fs \<and> i \<in> used_set fs \<and> i \<noteq> 0"

lemma stale_write:
  assumes ok: "fs_ok fs" and i: "i < length (im fs)" "i_type (im fs ! i) = MINIFS_INODE_FILE"
    and len: "length dat < 4294967296" and fits: "length dat \<le> avail fs i"
  shows "\<exists>h. write_file i dat n fs = Inr h \<and> stale h i \<and> written fs h i dat \<and>
    i_size (im h ! i) = i_size (im fs ! i) + n"
proof -
  let ?cd = "unat (current_dir fs)"
  have iu: "i \<in> used_set fs" using file_inv [OF ok i] by simp
  from write_file_any [OF fs_okD(1) [OF ok] iu len fits, of n] obtain g h where
    h: "h = resized g i (i_size (im fs ! i) + n)" "write_file i dat n fs = Inr (updated h)" "same_tables fs g"
      "tree_ok h" "used_set h = used_set fs" "written fs (updated h) i dat"
    and im: "\<forall>j<length (im fs). im h ! j = (if j = i then (im fs ! j)\<lparr>i_size := i_size (im fs ! i) + n\<rparr> else im fs ! j)"
    by blast
  note sim = same_tables_simps [OF h(3)]
  note u = updated_tree [OF h(4)]
  have hs: "length (im h) = length (im fs)" "current_dir h = current_dir fs" "bsz h = bsz fs" using sim by (simp_all add: h(1))
  have dirs: "is_dir (updated h) j = is_dir fs j" for j
    using im [rule_format, of j] hs by (auto simp: is_dir_def split: if_splits)
  have z: "is_dir fs 0" "is_dir fs ?cd" "root_block (im fs ! 0) = 0" "dir_ok fs ?cd" "bsz fs mod 32 = 0"
    using ok dir_inv [OF ok, of ?cd] by (simp_all add: fs_ok_def)
  have ne: "i \<noteq> 0" "i \<noteq> ?cd" using i(2) z(1,2) by (auto simp: is_dir_def intro!: gr0I)
  have im0: "im h ! j = im fs ! j" if "j \<noteq> i" "j < length (im fs)" for j using im that by simp
  have "bytes_of (updated h) ?cd = bytes_of fs ?cd" using h(6) ne(2) is_dir_used [OF z(2)] by (simp add: written_def)
  then have "dir_ok (updated h) ?cd" using z(2,4) im0 [of ?cd] ne(2) hs by (simp add: dir_ok_def dirs) (simp add: is_dir_def)
  then have "stale (updated h) i"
    using u(1,3) z(1-3,5) hs im0 [of 0] ne(1) iu h(5) by (simp add: stale_def walkable_def dirs) (simp add: is_dir_def)
  then show ?thesis using h(2,6) im i(1) by (intro exI [of _ "updated h"]) simp
qed

text \<open>Content that is longer than the buffer is written past its end.\<close>

lemma read_data_loop_over:
  assumes "sb_ok (sblock fs)"
  shows "chain (bm fs) r xs \<Longrightarrow> 0 \<notin> set xs \<Longrightarrow> \<forall>b\<in>set xs. block_in fs b \<Longrightarrow> length xs < fuel \<Longrightarrow>
    length buffer \<le> unat cap \<Longrightarrow> unat cap < length buffer + length (content fs xs) \<Longrightarrow>
    read_data_loop fuel fs cap r buffer = Inl (OutOfBounds, fd fs)"
proof (induction xs arbitrary: r fuel buffer)
  case Nil
  then show ?case by simp
next
  case (Cons b xs)
  obtain k where k: "fuel = Suc k" using Cons.prems(4) by (cases fuel) auto
  have b: "b < length (bm fs)" "r = int b" "0 < b" and bin: "block_in fs b" using Cons.prems by auto
  have len: "length (body fs b) = unat (b_size (bm fs ! b))" using bin by (rule length_body)
  show ?case
  proof (cases "unat cap < length buffer + unat (b_size (bm fs ! b))")
    case True
    moreover from this Cons.prems(5) have "0 < unat (b_size (bm fs ! b))" by linarith
    then have "0 < b_size (bm fs ! b)" by (simp add: unat_gt_0 word_neq_0_conv)
    ultimately show ?thesis using b k by (subst read_data_loop.simps) (simp add: get_block_int)
  next
    case False
    have IH: "read_data_loop k fs cap (next_block (bm fs ! b)) (buffer @ body fs b) = Inl (OutOfBounds, fd fs)"
      using Cons.prems k False len by (intro Cons.IH) (auto simp: content_Cons)
    show ?thesis
    proof (cases "b_size (bm fs ! b) = 0")
      case True
      with len have "body fs b = []" by simp
      with True b k IH show ?thesis by (subst read_data_loop.simps) (simp add: get_block_int)
    next
      case nz: False
      then have "0 < b_size (bm fs ! b)" by (simp add: word_neq_0_conv)
      with False b k read_body [OF assms bin] IH show ?thesis
        by (subst read_data_loop.simps) (simp add: get_block_int)
    qed
  qed
qed

text \<open>What \<open>read\<close> makes of content \<open>cs\<close> and a size \<open>n\<close> that need not fit.\<close>

definition read_result :: "char list \<Rightarrow> u32 \<Rightarrow> session \<Rightarrow> session fres" where
  "read_result cs n s =
     (if unat n < length cs then Inl (OutOfBounds, sdisk s)
      else if length cs < unat n \<and> unat n < 2 ^ 31 then Inl (Uninit, sdisk s)
      else Inr (out ((if unat n < 2 ^ 31 then cs else []) @ newline) (strayed s)))"

lemma stale_read:
  assumes st: "stale (s_fs s) (unat i)" and "NUL \<notin> set token" and "data = cmd # token # rest"
    and t: "target_file (s_fs s) token = Some i"
  shows "minifs_read data s = read_result (bytes_of (s_fs s) (unat i)) (i_size (im (s_fs s) ! unat i)) s"
proof -
  let ?fs = "s_fs s" and ?n = "i_size (im (s_fs s) ! unat i)" and ?xs = "blocks_of (s_fs s) (unat i)"
  have w: "walkable ?fs" and u: "unat i \<in> used_set ?fs" "unat i \<noteq> 0" using st by (simp_all add: stale_def)
  have sb: "sb_ok (sblock ?fs)" and ch: "file_chain ?fs (root_block (im ?fs ! unat i)) ?xs"
    using w u by (simp_all add: walkable_def tree_ok_def blocks_ok_def)
  have c: "chain (bm ?fs) (root_block (im ?fs ! unat i)) ?xs" "distinct ?xs" "\<forall>b\<in>set ?xs. block_in ?fs b"
    using ch by (auto simp: file_chain_def)
  note zero = walk_zero [OF w u]
  note fuel = chain_fuel_enough [OF c(1,2), of ?n]
  have nz: "uint i \<noteq> -1" using uint_ge_0 [of i] by linarith
  have il: "unat i < length (im ?fs)" using u by (simp add: used_set_def)
  have m: "minifs_read data s = rbind (minifs_read_data ?fs (int (unat i))) (\<lambda>(file_content, dsize, stray).
      if nat dsize \<le> length file_content then Inr (out (take (nat dsize) file_content @ newline) (if stray then strayed s else s))
      else Inl (Uninit, sdisk s))"
    using t nz walk_target(1) [OF w assms(2)] walk_rows(1) [OF w] assms(3) by (simp add: minifs_read_def)
  show ?thesis
  proof (cases "unat ?n < length (bytes_of ?fs (unat i))")
    case True
    with read_data_loop_over [OF sb c(1) zero c(3) fuel, of "[]"]
    show ?thesis using il by (simp add: m minifs_read_data_def get_inode_def bytes_of_def read_result_def)
  next
    case False
    then have fits: "length ([] :: char list) + length (content ?fs ?xs) \<le> unat ?n" by (simp add: bytes_of_def)
    from read_data_loop_chain [OF sb c(1) zero c(3) fuel fits] obtain final where
      "final < 0" "read_data_loop (chain_fuel ?fs ?n) ?fs ?n (root_block (im ?fs ! unat i)) [] = Inr (bytes_of ?fs (unat i), final)"
      by (auto simp: bytes_of_def)
    then have d: "minifs_read_data ?fs (int (unat i)) = Inr (bytes_of ?fs (unat i), sint ?n, True)"
      using il by (simp add: minifs_read_data_def get_inode_def)
    have "sint ?n = (if unat ?n < 2147483648 then int (unat ?n) else int (unat ?n) - 4294967296)"
      using sint_of_nat_u32 [OF unat_u32, of ?n] by simp
    moreover have "int (unat ?n) - 4294967296 \<le> 0" using unat_u32 [of ?n] by linarith
    ultimately show ?thesis using False unfolding m d read_result_def by simp
  qed
qed

end
