(* ===== verification/Cmd_Claims.thy ===== *)
theory Cmd_Claims
  imports Fs_Claims Cmd_Stale
begin

text \<open>
  The properties of \<open>mkdir\<close> and \<open>touch\<close> on every branch, and of a new file as a user sees it.
\<close>


section \<open>The last entry of a directory\<close>

lemma rows_snoc:
  "rows (dirmap (es @ [e])) = rows (dirmap es) @ [(length es, fst (snd e), snd (snd e), fst e)]"
  by (simp add: rows_dirmap split_def)

lemma last_row_snoc: "P r \<Longrightarrow> last_row P (rs @ [r]) = Some (row_inode r)"
  by (cases "filter P rs") (simp_all add: last_row_def)

lemma target_file_new:
  assumes "cur_entries fs = es @ [(u, name_field name, of_nat i)]" and "unat (of_nat i :: u32) = i"
    and "i_type (im fs ! i) = MINIFS_INODE_FILE" and "NUL \<notin> set name"
  shows "target_file fs (take 26 name) = Some (of_nat i)"
  using assms c_str_name_field [OF assms(4)]
  by (simp add: target_file_def assms(1) rows_snoc last_row_snoc row_is_simp)

text \<open>No entry has a name longer than 26 characters.\<close>

lemma entry_name_short: "e \<in> set (entries cs) \<Longrightarrow> length (fst (snd e)) \<le> 27"
proof -
  have "e \<in> set (dec_table dec_entry 32 n ds) \<Longrightarrow> length (fst (snd e)) \<le> 27" for n ds
    by (induction n arbitrary: ds) (auto simp: dec_entry_def)
  then show "e \<in> set (entries cs) \<Longrightarrow> length (fst (snd e)) \<le> 27" by (simp add: entries_def)
qed

lemma target_file_long:
  assumes "27 \<le> length name"
  shows "target_file fs name = None"
proof -
  have "\<not> row_is fs ty name r" if r: "r \<in> set (rows (dirmap (cur_entries fs)))" for ty r
  proof
    assume a: "row_is fs ty name r"
    obtain k where k: "k < length (cur_entries fs)" "r = rows (dirmap (cur_entries fs)) ! k"
      using r by (auto simp: in_set_conv_nth)
    then have "c_str (fst (snd (cur_entries fs ! k))) = Some name" using a by (simp add: rows_nth row_is_simp)
    from c_str_length [OF this] entry_name_short [OF nth_mem [OF k(1)]] assms show False by simp
  qed
  then have "filter (row_is fs MINIFS_INODE_FILE name) (rows (dirmap (cur_entries fs))) = []"
    by (simp add: filter_empty_conv)
  then show ?thesis by (simp add: target_file_def last_row_def)
qed

text \<open>What \<open>touch\<close> and \<open>mkdir\<close> do when there is room.\<close>

lemma made:
  assumes ok: "fs_ok (s_fs s)" and "length name \<le> 27" and "0 < free_inodes (s_fs s)" and "1 < free_blocks (s_fs s)"
    and "ty = MINIFS_INODE_FILE \<or> ty = MINIFS_INODE_DIRECTORY" and "int32 (par (s_fs s))"
    and "ty = MINIFS_INODE_DIRECTORY \<longrightarrow> par (s_fs s) = int (unat (current_dir (s_fs s)))"
  obtains fs' i where "make_inode ty par name s = Inr (s\<lparr>s_fs := fs'\<rparr>)" and "fs_ok fs'" and "synced fs'"
    and "added (s_fs s) fs' i ty (par (s_fs s)) name" and "free_blocks (s_fs s) \<le> free_blocks fs' + 3"
  using make_inode_outcome [where par = par, OF ok assms(5-7), of name] assms(2-4) that
  by (auto split: if_splits)

lemma added_facts:
  assumes "added fs fs' i ty par name" and "fs_ok fs"
  shows "i < length (im fs')" and "i_type (im fs' ! i) = ty" and "bytes_of fs' i = []" and "current_dir fs' = current_dir fs"
    and "cur_entries fs' = cur_entries fs @ [(CHR 0x01, name_field name, of_nat i)]" and "i \<noteq> unat (current_dir fs)"
    and "parent (im fs' ! i) = par" and "bsz fs' = bsz fs" and "i \<in> used_set fs'"
proof -
  show "i_type (im fs' ! i) = ty" "bytes_of fs' i = []" and cd: "current_dir fs' = current_dir fs"
    "parent (im fs' ! i) = par" "bsz fs' = bsz fs" and u: "i \<in> used_set fs'"
    using assms(1) by (simp_all add: added_def)
  show "cur_entries fs' = cur_entries fs @ [(CHR 0x01, name_field name, of_nat i)]"
    using assms(1) by (simp add: added_def cd)
  show "i < length (im fs')" using u by (simp add: used_set_def)
  have "i \<notin> used_set fs" using assms(1) by (simp add: added_def)
  then show "i \<noteq> unat (current_dir fs)" using is_dir_used [OF fs_okD(5) [OF assms(2)]] by blast
qed


section \<open>Properties\<close>

text \<open>The outcomes of \<open>mkdir\<close> and \<open>touch\<close>.\<close>

definition make_outcome :: "u32 \<Rightarrow> int \<Rightarrow> string \<Rightarrow> session \<Rightarrow> session fres \<Rightarrow> bool" where
  "make_outcome ty par name s r \<longleftrightarrow>
     (if length name > 27 then r = Inr (err (''filename is too long'' @ newline) s)
      else if free_inodes (s_fs s) = 0 then r = Inr (err (''Ran out of free inodes'' @ newline) s)
      else if free_blocks (s_fs s) = 0 then r = Inr (err (''Ran out of free blocks'' @ newline) s)
      else if free_blocks (s_fs s) = 1 \<and> dir_full (s_fs s) then (\<exists>d. r = Inl (Exit (-1), d) \<and> kept_disk (s_fs s) d)
      else (\<exists>fs' i. r = Inr (s\<lparr>s_fs := fs'\<rparr>) \<and> fs_ok fs' \<and> synced fs' \<and> added (s_fs s) fs' i ty par name))"

text \<open>
  C12. \<open>mkdir\<close> and \<open>touch\<close>, on every branch: a name of more than 27 characters, no free inode
  or no free block are refused with a message and change nothing; when one block is free, which the
  inode takes, and the last block of the current directory is full, so that the entry needs another,
  the process ends with the recorded bytes of the disk as they were; in all other cases one free inode becomes an empty directory (with the current directory
  as its parent) or file, one entry with its name is added at the end of the current directory,
  every other inode keeps its content, and the tables are on the disk.
\<close>

theorem cmd_make:
  assumes "fs_ok (s_fs s)" and "data = cmd # name # rest"
  shows "make_outcome MINIFS_INODE_DIRECTORY (int (unat (current_dir (s_fs s)))) name s (minifs_mkdir data s) \<and>
    make_outcome MINIFS_INODE_FILE (-1) name s (minifs_touch data s)"
proof
  note o = make_inode_outcome [OF assms(1), of MINIFS_INODE_DIRECTORY "\<lambda>fs. sint (current_dir fs)" name]
  from o mkdir_parent [OF assms(1)]
  show "make_outcome MINIFS_INODE_DIRECTORY (int (unat (current_dir (s_fs s)))) name s (minifs_mkdir data s)"
    unfolding make_outcome_def minifs_mkdir_def assms(2) by (simp split: if_splits) blast+
  from make_inode_outcome [OF assms(1), of MINIFS_INODE_FILE "\<lambda>fs. -1" name]
  show "make_outcome MINIFS_INODE_FILE (-1) name s (minifs_touch data s)"
    unfolding make_outcome_def minifs_touch_def assms(2) by (simp add: int32_def split: if_splits) blast+
qed

theorem cmd_make_witness:
  "\<exists>fs i. minifs_touch [''touch'', ''notes''] (session0 new_fs []) = Inr (session0 fs []) \<and> fs_ok fs \<and>
    used_set fs = {0, i} \<and> entries (bytes_of fs 0) = [(CHR 0x01, name_field ''notes'', of_nat i)]"
proof -
  from cmd_make [of "session0 new_fs []" "[''touch'', ''notes'']"] new_fs_ok(1)
  obtain fs i where "minifs_touch [''touch'', ''notes''] (session0 new_fs []) = Inr ((session0 new_fs [])\<lparr>s_fs := fs\<rparr>)"
    "fs_ok fs" "added new_fs fs i MINIFS_INODE_FILE (-1) ''notes''"
    by (auto simp: make_outcome_def fresh_free)
  then show ?thesis
    by (intro exI [of _ fs] exI [of _ i]) (auto simp: session0_def added_def fresh_root fresh_simps)
qed

text \<open>
  C4. A new file: \<open>touch\<close>, \<open>write\<close> of a line and \<open>read\<close>, one after the other, whatever else is in the
  directory, for a name of at most 26 characters, when an inode is free and the free blocks hold the
  line with three blocks to spare. \<open>write\<close> calls \<open>strlen\<close> on the line it has released, and \<open>read\<close>
  depends on what that call returns: it prints exactly the line when it is the line's length; when
  it is less, \<open>read\<close> writes past the end of its buffer; when it is more, \<open>read\<close> prints memory that was
  never written, or nothing if it is 2^31 or more. A \<open>read\<close> that prints has loaded \<open>block_map[-1]\<close>,
  without using the value.
\<close>

theorem cmd_new_file:
  assumes ok: "fs_ok (s_fs s)" and name: "NUL \<notin> set name" "length name \<le> 26"
    and inp: "s_in s = Some line # ls" and len: "length line < 2 ^ 31" and fi: "0 < free_inodes (s_fs s)"
    and room: "length line + 3 * unat (block_size (sblock (s_fs s))) \<le>
      unat (block_size (sblock (s_fs s))) * free_blocks (s_fs s)"
  shows "\<exists>s1 s2. minifs_execute af [''touch'', name] s = Inr s1 \<and> minifs_execute af [''write'', name] s1 = Inr s2 \<and>
    s_in s2 = ls \<and> minifs_execute af [''read'', name] s2 =
      (if unat (af line) = length line then Inr (out (line @ newline) (strayed s2))
       else if unat (af line) < length line then Inl (OutOfBounds, sdisk s2)
       else if unat (af line) < 2 ^ 31 then Inl (Uninit, sdisk s2)
       else Inr (out newline (strayed s2)))"
proof -
  let ?fs = "s_fs s"
  have bs: "0 < bsz ?fs" using fs_okD(2) [OF ok] by (simp add: blocks_ok_def)
  have "bsz ?fs * 3 \<le> bsz ?fs * free_blocks ?fs" using room by linarith
  then have fb: "3 \<le> free_blocks ?fs" using bs by (simp only: mult_le_cancel1)
  obtain g i where g: "make_inode MINIFS_INODE_FILE (\<lambda>fs. -1) name s = Inr (s\<lparr>s_fs := g\<rparr>)" "fs_ok g" "synced g"
      "added ?fs g i MINIFS_INODE_FILE (-1) name" "free_blocks ?fs \<le> free_blocks g + 3"
    by (rule made [OF ok, of name MINIFS_INODE_FILE "\<lambda>fs. -1"]) (use name fi fb in \<open>simp_all add: int32_def\<close>)
  note a = added_facts [OF g(4) ok]
  let ?s1 = "s\<lparr>s_fs := g\<rparr>"
  have s1: "minifs_execute af [''touch'', name] s = Inr ?s1"
    using g(1) by (simp add: execute_eq minifs_touch_def)
  have il: "unat (of_nat i :: u32) = i" using a(1) inodes_few [OF fs_okD(3) [OF g(2)]] by (intro of_nat_u32) simp
  have t1: "target_file g name = Some (of_nat i)"
    using target_file_new [OF a(5) il a(2) name(1)] name(2) by simp
  have "bsz ?fs * free_blocks ?fs \<le> bsz ?fs * (free_blocks g + 3)" using g(5) by (rule mult_le_mono2)
  then have "length line \<le> bsz g * free_blocks g" using room by (simp add: a(8) add_mult_distrib2)
  then have fit: "length line \<le> avail g i" by (simp add: avail_def)
  from stale_write [OF g(2) a(1,2) _ fit, of "af line"] len obtain h where
    h: "write_file i line (af line) g = Inr h" "stale h i" "written g h i line"
      "i_size (im h ! i) = i_size (im g ! i) + af line" by auto
  have "i_size (im g ! i) = 0" using file_inv [OF g(2) a(1,2)] a(3) by (simp add: unat_eq_0)
  then have sz: "i_size (im h ! i) = af line" using h(4) by simp
  let ?s2 = "(prompted ?s1)\<lparr>s_fs := h\<rparr>"
  have "minifs_write af [''write'', name] ?s1 = Inr ?s2"
    using minifs_write_eq [of ?s1 name "[''write'', name]" "''write''" "[]" af] g(2) name(1) t1 inp h(1)
    by (simp add: next_line_def il on_fs_def prompted_def)
  then have s2: "minifs_execute af [''write'', name] ?s1 = Inr ?s2" by (simp add: execute_eq)
  have cd: "current_dir h = current_dir ?fs" "unat (current_dir ?fs) \<noteq> i" "unat (current_dir ?fs) \<in> used_set g"
    using h(3) a(4,6) is_dir_used [OF fs_okD(5) [OF g(2)]] by (simp_all add: written_def)
  have "cur_entries h = cur_entries ?fs @ [(CHR 0x01, name_field name, of_nat i)]"
    using h(3) a(4,5) cd by (simp add: written_def)
  then have t2: "target_file h name = Some (of_nat i)"
    using target_file_new [of h "cur_entries ?fs" _ name i] il h(3) a(1,2) name by (simp add: written_def)
  have bh: "bytes_of h i = line" using h(3) a(3) by (simp add: written_def)
  have "minifs_read [''read'', name] ?s2 = read_result line (af line) ?s2"
    using stale_read [of ?s2 "of_nat i" name "[''read'', name]" "''read''" "[]"] h(2) name(1) t2 bh sz by (simp add: il)
  then have "minifs_execute af [''read'', name] ?s2 =
      (if unat (af line) = length line then Inr (out (line @ newline) (strayed ?s2))
       else if unat (af line) < length line then Inl (OutOfBounds, sdisk ?s2)
       else if unat (af line) < 2 ^ 31 then Inl (Uninit, sdisk ?s2)
       else Inr (out newline (strayed ?s2)))"
    using len by (simp add: execute_eq read_result_def)
  with s1 s2 inp show ?thesis by (intro exI [of _ ?s1] exI [of _ ?s2]) (simp add: prompted_def)
qed

theorem cmd_new_file_witness:
  "(\<exists>s2. minifs_execute (\<lambda>l. of_nat (length l)) [''read'', ''notes''] s2 = Inr (out (''buy milk'' @ newline) (strayed s2))) \<and>
   (\<exists>s1 s2. minifs_execute (\<lambda>l. 0) [''touch'', ''notes''] (session0 new_fs [Some ''buy milk'']) = Inr s1 \<and>
    minifs_execute (\<lambda>l. 0) [''write'', ''notes''] s1 = Inr s2 \<and>
    minifs_execute (\<lambda>l. 0) [''read'', ''notes''] s2 = Inl (OutOfBounds, sdisk s2))"
proof
  show "\<exists>s2. minifs_execute (\<lambda>l. of_nat (length l)) [''read'', ''notes''] s2 = Inr (out (''buy milk'' @ newline) (strayed s2))"
    using cmd_new_file [of "session0 new_fs [Some ''buy milk'']" "''notes''" "''buy milk''" "[]" "\<lambda>l. of_nat (length l)"]
      new_fs_ok(1) by (auto simp: fresh_free fresh_simps)
  show "\<exists>s1 s2. minifs_execute (\<lambda>l. 0) [''touch'', ''notes''] (session0 new_fs [Some ''buy milk'']) = Inr s1 \<and>
      minifs_execute (\<lambda>l. 0) [''write'', ''notes''] s1 = Inr s2 \<and>
      minifs_execute (\<lambda>l. 0) [''read'', ''notes''] s2 = Inl (OutOfBounds, sdisk s2)"
    using cmd_new_file [of "session0 new_fs [Some ''buy milk'']" "''notes''" "''buy milk''" "[]" "\<lambda>l. 0"]
      new_fs_ok(1) by (auto simp: fresh_free fresh_simps)
qed

text \<open>
  C30. A long name: \<open>touch\<close> accepts a name of exactly 27 characters and makes a file, but what it
  stores is cut to 26: the file cannot be found under its name afterwards, only under the first
  26 characters of it.
\<close>

theorem cmd_long_name:
  assumes ok: "fs_ok (s_fs s)" and name: "NUL \<notin> set name" "length name = 27"
    and fi: "0 < free_inodes (s_fs s)" and fb: "1 < free_blocks (s_fs s)"
  shows "\<exists>s1. minifs_touch [''touch'', name] s = Inr s1 \<and>
    minifs_read [''read'', name] s1 = Inr (err (''No such file'' @ newline) s1) \<and>
    minifs_read [''read'', take 26 name] s1 = Inr (out newline (strayed s1))"
proof -
  obtain g i where g: "make_inode MINIFS_INODE_FILE (\<lambda>fs. -1) name s = Inr (s\<lparr>s_fs := g\<rparr>)" "fs_ok g"
      "added (s_fs s) g i MINIFS_INODE_FILE (-1) name"
    by (rule made [OF ok, of name MINIFS_INODE_FILE "\<lambda>fs. -1"]) (use name fi fb in \<open>simp_all add: int32_def\<close>)
  note a = added_facts [OF g(3) ok]
  let ?s1 = "s\<lparr>s_fs := g\<rparr>"
  have il: "unat (of_nat i :: u32) = i" using a(1) inodes_few [OF fs_okD(3) [OF g(2)]] by (intro of_nat_u32) simp
  have t: "target_file g (take 26 name) = Some (of_nat i)" using target_file_new [OF a(5) il a(2) name(1)] .
  have n26: "NUL \<notin> set (take 26 name)" using name(1) by (meson in_set_takeD)
  have "minifs_read [''read'', name] ?s1 = Inr (err (''No such file'' @ newline) ?s1)"
    using minifs_read_eq [of ?s1 name "[''read'', name]" "''read''" "[]"] g(2) name target_file_long [of name g] by simp
  moreover have "minifs_read [''read'', take 26 name] ?s1 = Inr (out newline (strayed ?s1))"
    using minifs_read_eq [of ?s1 "take 26 name" "[''read'', take 26 name]" "''read''" "[]"] g(2) n26 t a(3)
    by (simp add: il)
  ultimately show ?thesis using g(1) by (intro exI [of _ ?s1]) (simp add: minifs_touch_def)
qed

theorem cmd_long_name_witness:
  "\<exists>s1. minifs_touch [''touch'', replicate 27 CHR ''x''] (session0 new_fs []) = Inr s1 \<and>
    minifs_read [''read'', replicate 27 CHR ''x''] s1 = Inr (err (''No such file'' @ newline) s1) \<and>
    minifs_read [''read'', replicate 26 CHR ''x''] s1 = Inr (out newline (strayed s1))"
  using cmd_long_name [of "session0 new_fs []" "replicate 27 CHR ''x''"] new_fs_ok(1)
  by (simp add: fresh_free)

end
