(* ===== verification/Cmd_Progress.thy ===== *)
theory Cmd_Progress
  imports Cmd_Main
begin

text \<open>
  How much room a command needs, and that the loop of \<open>main\<close> gets through all of its lines when
  there is room for them.
\<close>


section \<open>Room\<close>

text \<open>
  The bytes of the free blocks. No command uses up more than three blocks, besides the line that
  \<open>write\<close> stores.
\<close>

definition room :: "Filesystem \<Rightarrow> nat" where
  "room fs = bsz fs * free_blocks fs"

definition line_cost :: "nat \<Rightarrow> string option \<Rightarrow> nat" where
  "line_cost bs l = 3 * bs + (case l of None \<Rightarrow> 0 | Some str \<Rightarrow> length str)"

definition cost :: "nat \<Rightarrow> string option list \<Rightarrow> nat" where
  "cost bs ls = sum_list (map (line_cost bs) ls)"

lemma cost_Cons [simp]: "cost bs (l # ls) = line_cost bs l + cost bs ls"
  by (simp add: cost_def)

text \<open>A command that returned used up a bounded amount of room, and no line or the one after it.\<close>

definition used_up :: "session \<Rightarrow> session \<Rightarrow> bool" where
  "used_up s s' \<longleftrightarrow> bsz (s_fs s') = bsz (s_fs s) \<and>
     (s_in s' = s_in s \<and> room (s_fs s) \<le> room (s_fs s') + 3 * bsz (s_fs s) \<or>
      (\<exists>l ls. s_in s = Some l # ls \<and> s_in s' = ls \<and> room (s_fs s) \<le> room (s_fs s') + 3 * bsz (s_fs s) + length l))"

definition goes_on :: "session \<Rightarrow> session fres \<Rightarrow> bool" where
  "goes_on s r \<longleftrightarrow> (\<exists>s'. r = Inr s' \<and> used_up s s')"

lemma used_up_same: "s_fs s' = s_fs s \<Longrightarrow> s_in s' = s_in s \<Longrightarrow> used_up s s'"
  by (simp add: used_up_def)

lemma goes_on_Inr [simp]: "goes_on s (Inr s') \<longleftrightarrow> used_up s s'"
  by (simp add: goes_on_def)

lemma used_up_fs:
  "bsz g = bsz (s_fs s) \<Longrightarrow> free_blocks (s_fs s) \<le> free_blocks g + 3 \<Longrightarrow> used_up s (s\<lparr>s_fs := g\<rparr>)"
proof -
  assume g: "bsz g = bsz (s_fs s)" "free_blocks (s_fs s) \<le> free_blocks g + 3"
  have "bsz (s_fs s) * free_blocks (s_fs s) \<le> bsz (s_fs s) * (free_blocks g + 3)" using g(2) by (rule mult_le_mono2)
  then show ?thesis using g(1) by (simp add: used_up_def room_def algebra_simps)
qed

lemma used_up_added:
  "added (s_fs s) g i ty par name \<Longrightarrow> free_blocks (s_fs s) \<le> free_blocks g + 3 \<Longrightarrow> used_up s (s\<lparr>s_fs := g\<rparr>)"
  by (rule used_up_fs) (simp_all add: added_def)

lemma used_up_removed: "removed (s_fs s) g t ks \<Longrightarrow> used_up s (s\<lparr>s_fs := g\<rparr>)"
  by (rule used_up_fs) (simp_all add: removed_def)


section \<open>Commands\<close>

lemma make_inode_progress:
  assumes ok: "fs_ok (s_fs s)" and ty: "ty = MINIFS_INODE_FILE \<or> ty = MINIFS_INODE_DIRECTORY"
    and ip: "int32 (par (s_fs s))"
    and par: "ty = MINIFS_INODE_DIRECTORY \<longrightarrow> par (s_fs s) = int (unat (current_dir (s_fs s)))"
    and fb: "3 \<le> free_blocks (s_fs s)"
  shows "goes_on s (make_inode ty par name s)"
  using make_inode_outcome [where par = par, OF ok ty ip par, of name] fb
  by (auto simp: used_up_same split: if_splits intro: used_up_added)

lemma write_progress:
  assumes ok: "fs_ok (s_fs s)" and t: "NUL \<notin> set token" and af: "kept_data af (''write'' # token # rest) s"
    and inp: "s_in s = Some l # ls" "length l < 4294967296" and rm: "length l \<le> room (s_fs s)"
  shows "goes_on s (minifs_write af (cmd # token # rest) s)"
proof (cases "target_file (s_fs s) token")
  case None
  then show ?thesis using minifs_write_eq [OF ok t refl, of af cmd rest] by (simp add: used_up_same)
next
  case (Some i)
  note i = target_file_ok(2) [OF ok t Some]
  have "length l \<le> avail (s_fs s) (unat i)" using rm by (simp add: room_def avail_def)
  moreover have "af l = of_nat (length l)" using kept_dataD [OF af Some] inp(1) by (simp add: next_line_def)
  ultimately obtain g where
    g: "write_file (unat i) l (af l) (s_fs s) = Inr g" "written (s_fs s) g (unat i) l"
    using write_file_ok [OF ok _ _ inp(2), of "unat i" "af l"] i by auto
  have "minifs_write af (cmd # token # rest) s = Inr ((prompted s)\<lparr>s_fs := g\<rparr>)"
    using minifs_write_eq [OF ok t refl, of af cmd rest] Some inp(1) g(1)
    by (simp add: next_line_def on_fs_def prompted_def)
  moreover have "used_up s ((prompted s)\<lparr>s_fs := g\<rparr>)"
    using g(2) inp(1) by (simp add: used_up_def prompted_def written_def room_def)
  ultimately show ?thesis by simp
qed

text \<open>What does not end the process: not \<open>exit\<close>, nor \<open>write\<close> without a further line.\<close>

definition runs_on :: "string list \<Rightarrow> session \<Rightarrow> bool" where
  "runs_on data s \<longleftrightarrow> (data \<noteq> [] \<longrightarrow> hd data \<noteq> ''exit'' \<and> (hd data = ''write'' \<longrightarrow> (\<exists>l ls. s_in s = Some l # ls \<and>
     length l < 4294967296 \<and> length l \<le> room (s_fs s))))"

lemma execute_progress:
  assumes ok: "fs_ok (s_fs s)" and data: "\<forall>t\<in>set data. NUL \<notin> set t" and care: "careful (s_fs s) data"
    and af: "kept_data af data s" and fb: "3 \<le> free_blocks (s_fs s)" and on: "runs_on data s"
  shows "goes_on s (minifs_execute af data s)"
proof -
  have one: "used_up s s" "used_up s (err str s)" "used_up s (out str s)" "used_up s (out str (strayed s))" for str
    by (rule used_up_same; simp)+
  obtain str where deb: "minifs_debug data s = Inr (out str s)" using minifs_debug_ok [OF ok] by blast
  have any: "goes_on s (minifs_ls data s)" "goes_on s (minifs_help command_texts data s)" "goes_on s (minifs_debug data s)"
    using one by (simp_all add: minifs_ls_eq [OF ok] minifs_help_def deb)
  consider "data = []" | cmd where "data = [cmd]" | cmd token rest where "data = cmd # token # rest"
    by (metis list.exhaust)
  then show ?thesis
  proof cases
    case 1
    then show ?thesis using one by (simp add: execute_eq)
  next
    case 2
    then have "data \<noteq> []" "hd data = cmd" "cmd \<noteq> ''exit''" "\<not> 2 \<le> length data" using on by (simp_all add: runs_on_def)
    with any one show ?thesis
      by (simp add: execute_eq minifs_cd_def minifs_mkdir_def minifs_touch_def minifs_write_def minifs_read_def
          minifs_rmdir_def minifs_rm_def)
  next
    case 3
    have t: "NUL \<notin> set token" using data 3 by simp
    have cd: "goes_on s (minifs_cd data s)"
      using minifs_cd_eq [OF ok t 3] one by (auto simp: used_up_def room_def free_blocks_def split: option.split)
    have mk: "goes_on s (minifs_mkdir data s)"
      using make_inode_progress [OF ok, of MINIFS_INODE_DIRECTORY "\<lambda>fs. sint (current_dir fs)" token]
        mkdir_parent [OF ok] fb 3 by (simp add: minifs_mkdir_def)
    have tc: "goes_on s (minifs_touch data s)"
      using make_inode_progress [OF ok, of MINIFS_INODE_FILE "\<lambda>fs. -1" token] fb 3
      by (simp add: minifs_touch_def int32_def)
    have rd: "goes_on s (minifs_read data s)"
      using minifs_read_eq [OF ok t 3] one by (simp split: option.split)
    have rmd: "goes_on s (minifs_rmdir data s)" if "cmd = ''rmdir''"
      using rmdir_outcome [OF ok t, of cmd rest] care that one
      by (auto simp: 3 intro: used_up_removed split: option.splits)
    have rm: "goes_on s (minifs_rm data s)" if "cmd = ''rm''"
      using rm_outcome [OF ok t, of cmd rest] care that one
      by (auto simp: 3 intro: used_up_removed split: option.splits)
    have wr: "goes_on s (minifs_write af data s)" if "cmd = ''write''"
    proof -
      have k: "kept_data af (''write'' # token # rest) s" using af that by (simp add: 3)
      from on that obtain l ls where "s_in s = Some l # ls" "length l < 4294967296" "length l \<le> room (s_fs s)"
        unfolding 3 runs_on_def by auto
      from write_progress [OF ok t k this] show ?thesis by (simp add: 3)
    qed
    have "data \<noteq> []" "hd data = cmd" "cmd \<noteq> ''exit''" using on by (simp_all add: 3 runs_on_def)
    with any cd mk tc rd rmd rm wr one(1) show ?thesis by (simp add: execute_eq)
  qed
qed


section \<open>The loop gets through its lines\<close>

text \<open>
  Input that can be executed to its end: only lines, none of which ends the program, and the last
  is not a \<open>write\<close> that would wait for a further one.
\<close>

definition first_word :: "string \<Rightarrow> string" where
  "first_word l = (case words isspace l of [] \<Rightarrow> [] | w # ws \<Rightarrow> w)"

fun complete :: "string option list \<Rightarrow> bool" where
  "complete [] = True"
| "complete [l] = (case l of None \<Rightarrow> False | Some l \<Rightarrow> first_word l \<noteq> ''exit'' \<and> first_word l \<noteq> ''write'')"
| "complete (l # k # ls) = ((case l of None \<Rightarrow> False | Some l \<Rightarrow> first_word l \<noteq> ''exit'') \<and> complete (k # ls))"

lemma complete_Cons: "complete (Some l # ls) \<Longrightarrow> first_word l \<noteq> ''exit'' \<and> complete ls"
  by (cases ls) auto

lemma complete_write: "complete (Some l # ls) \<Longrightarrow> first_word l = ''write'' \<Longrightarrow> \<exists>k ks. ls = Some k # ks"
  by (cases ls rule: complete.cases) (auto split: option.splits)

lemma complete_head: "complete (l # ls) \<Longrightarrow> \<exists>k. l = Some k"
  by (cases ls) (auto split: option.splits)

lemma main_loop_complete:
  "ready s \<Longrightarrow> wary af s \<Longrightarrow> complete (s_in s) \<Longrightarrow> cost (bsz (s_fs s)) (s_in s) \<le> room (s_fs s) \<Longrightarrow>
    \<exists>s'. main_loop af s = Inr s' \<and> reach_s af s s' \<and> s_in s' = []"
proof (induction "length (s_in s)" arbitrary: s rule: less_induct)
  case less
  show ?case
  proof (cases "s_in s")
    case Nil
    then show ?thesis by (auto simp: main_loop_wait intro: reach_s.start)
  next
    case (Cons x ls)
    then obtain l where x: "x = Some l" using complete_head less.prems(3) by metis
    note inp = Cons [unfolded x]
    let ?p = "prompt ls s"
    have ok: "fs_ok (s_fs ?p)" and safe: "safe_input s" and nc: "\<not> careless af s"
      using less.prems(1,2) by (auto simp: ready_def wary_def intro: reach_s.start)
    have l: "safe_line l" using safe inp by (simp add: safe_input_def)
    have bs: "0 < bsz (s_fs s)" using fs_okD(2) [OF ok] by (simp add: blocks_ok_def)
    have rm: "3 * bsz (s_fs s) + length l + cost (bsz (s_fs s)) ls \<le> room (s_fs s)"
      using less.prems(4) by (simp add: inp line_cost_def)
    then have "3 * bsz (s_fs s) \<le> room (s_fs s)" by linarith
    then have "bsz (s_fs s) * 3 \<le> bsz (s_fs s) * free_blocks (s_fs s)" by (simp only: room_def mult.commute [of 3])
    then have fb: "3 \<le> free_blocks (s_fs ?p)" using bs by (simp only: mult_le_cancel1 prompt_simps)
    have fw: "first_word l \<noteq> ''exit''" "first_word l = ''write'' \<Longrightarrow> \<exists>k ks. ls = Some k # ks"
      using complete_Cons complete_write less.prems(3) unfolding inp by blast+
    have on: "runs_on (words isspace l) ?p"
    proof -
      have "length k < 4294967296 \<and> length k \<le> room (s_fs s)" if "ls = Some k # ks" for k ks
        using safe inp that rm by (auto simp: safe_input_def safe_line_def line_cost_def)
      then show ?thesis using fw by (auto simp: runs_on_def first_word_def split: list.splits)
    qed
    from execute_progress [OF ok safe_line_words [OF l] carelessD [OF nc inp] fb on] obtain s' where
      s': "minifs_execute af (words isspace l) ?p = Inr s'" "used_up ?p s'" unfolding goes_on_def by blast
    have r: "reach_s af s s'" by (rule reach_s.turn [OF reach_s.start inp l nc s'(1)])
    have inv: "ready s'" "wary af s'"
      using reach_ready [OF r less.prems(1) safe] less.prems(2) reach_s_trans [OF _ r] by (auto simp: wary_def)
    have next_in: "complete (s_in s') \<and> cost (bsz (s_fs s')) (s_in s') \<le> room (s_fs s') \<and> length (s_in s') < length (s_in s)"
    proof -
      have c: "complete ls" using complete_Cons less.prems(3) unfolding inp by blast
      consider "s_in s' = ls" "room (s_fs s) \<le> room (s_fs s') + 3 * bsz (s_fs s)"
        | k ks where "ls = Some k # ks" "s_in s' = ks" "room (s_fs s) \<le> room (s_fs s') + 3 * bsz (s_fs s) + length k"
        using s'(2) by (auto simp: used_up_def)
      then show ?thesis
      proof cases
        case 1
        then show ?thesis using s'(2) c rm by (simp add: used_up_def inp)
      next
        case (2 k ks)
        then have "complete ks" using c complete_Cons by blast
        then show ?thesis using s'(2) 2 rm by (simp add: used_up_def inp line_cost_def)
      qed
    qed
    from less.hyps [OF _ inv] next_in obtain t where "main_loop af s' = Inr t" "reach_s af s' t" "s_in t = []" by blast
    then show ?thesis using reach_s_loop [OF r] reach_s_trans [OF _ r] by auto
  qed
qed

end
