(* ===== verification/Vfs_Spec.thy ===== *)
theory Vfs_Spec
  imports Shell
begin

text \<open>
  What the shell of MiniFS promises, without disk, blocks and tables: a map from numbers to files,
  which hold a string, and directories, which hold entries and the number of their parent. The
  commands act on the map and on the output; which free number \<open>mkdir\<close> and \<open>touch\<close> take, and
  whether there is room for them, is left open. A directory that is removed is neither the root nor
  the current one nor the parent of another.

  \<open>forward_simulation\<close> is the interface under which one state machine implements another.
\<close>


section \<open>Simulations\<close>

locale forward_simulation =
  fixes step :: "'a \<Rightarrow> 'a \<Rightarrow> bool" and spec :: "'b \<Rightarrow> 'b \<Rightarrow> bool" and abs :: "'a \<Rightarrow> 'b" and inv :: "'a \<Rightarrow> bool"
  assumes inv_step: "inv s \<Longrightarrow> step s s' \<Longrightarrow> inv s'"
    and sim_step: "inv s \<Longrightarrow> step s s' \<Longrightarrow> spec (abs s) (abs s')"
begin

lemma steps_inv: "step\<^sup>*\<^sup>* s s' \<Longrightarrow> inv s \<Longrightarrow> inv s'"
  by (induction rule: rtranclp_induct) (blast intro: inv_step)+

lemma steps_sim: "step\<^sup>*\<^sup>* s s' \<Longrightarrow> inv s \<Longrightarrow> spec\<^sup>*\<^sup>* (abs s) (abs s')"
proof (induction rule: rtranclp_induct)
  case base
  show ?case by simp
next
  case (step t u)
  then have "spec (abs t) (abs u)" using steps_inv sim_step by blast
  with step show ?case by (simp add: rtranclp.rtrancl_into_rtrancl)
qed

end


section \<open>Files and directories\<close>

text \<open>An entry: whether it is in use, its name, the number it leads to.\<close>

type_synonym ventry = "bool \<times> string \<times> nat"

datatype node = File string | Dir "ventry list" nat

record vfs =
  nodes :: "nat \<Rightarrow> node option"
  cwd :: nat

fun is_Dir :: "node option \<Rightarrow> bool" where
  "is_Dir (Some (Dir es p)) = True"
| "is_Dir _ = False"

fun is_File :: "node option \<Rightarrow> bool" where
  "is_File (Some (File c)) = True"
| "is_File _ = False"

fun v_entries :: "node option \<Rightarrow> ventry list" where
  "v_entries (Some (Dir es p)) = es"
| "v_entries _ = []"

fun v_parent :: "node option \<Rightarrow> nat" where
  "v_parent (Some (Dir es p)) = p"
| "v_parent _ = 0"

fun v_content :: "node option \<Rightarrow> string" where
  "v_content (Some (File c)) = c"
| "v_content _ = []"

abbreviation here :: "vfs \<Rightarrow> ventry list" where
  "here v \<equiv> v_entries (nodes v (cwd v))"

definition v_listing :: "vfs \<Rightarrow> string" where
  "v_listing v = blue ''.'' @ '' '' @ blue ''..'' @ '' '' @
     concat (map (\<lambda>(u, name, t).
       if \<not> u then [] else if is_Dir (nodes v t) then blue name @ '' ''
       else if is_File (nodes v t) then name @ '' '' else []) (here v)) @ newline"

text \<open>The first directory of a name, the last file of a name; an entry counts even when not in use.\<close>

definition v_cd :: "string \<Rightarrow> vfs \<Rightarrow> nat option" where
  "v_cd token v =
     (if token = ''.'' then Some (cwd v)
      else if token = ''..'' then Some (v_parent (nodes v (cwd v)))
      else map_option (\<lambda>e. snd (snd e)) (find (\<lambda>(u, name, t). is_Dir (nodes v t) \<and> name = token) (here v)))"

definition v_last :: "(node option \<Rightarrow> bool) \<Rightarrow> string \<Rightarrow> vfs \<Rightarrow> nat option" where
  "v_last test token v =
     map_option (\<lambda>e. snd (snd e)) (find (\<lambda>(u, name, t). test (nodes v t) \<and> name = token) (rev (here v)))"

abbreviation v_file :: "string \<Rightarrow> vfs \<Rightarrow> nat option" where
  "v_file \<equiv> v_last is_File"

text \<open>A new node under a number and a name, at the end of the current directory.\<close>

definition v_add :: "node \<Rightarrow> string \<Rightarrow> nat \<Rightarrow> vfs \<Rightarrow> vfs" where
  "v_add x name i v =
     v\<lparr>nodes := (nodes v)
        (cwd v \<mapsto> Dir (here v @ [(True, take 26 name, i)]) (v_parent (nodes v (cwd v))), i \<mapsto> x)\<rparr>"

definition v_append :: "nat \<Rightarrow> string \<Rightarrow> vfs \<Rightarrow> vfs" where
  "v_append i str v = v\<lparr>nodes := (nodes v)(i \<mapsto> File (v_content (nodes v i) @ str))\<rparr>"

text \<open>
  A node gone: all entries of its name here that lead to a node of its kind are no longer in use,
  and its number is free.
\<close>

definition v_remove :: "(node option \<Rightarrow> bool) \<Rightarrow> string \<Rightarrow> nat \<Rightarrow> vfs \<Rightarrow> vfs" where
  "v_remove test token i v =
     v\<lparr>nodes := (nodes v)
        (cwd v \<mapsto> Dir (map (\<lambda>(u, name, t). (u \<and> \<not> (test (nodes v t) \<and> name = token), name, t)) (here v))
           (v_parent (nodes v (cwd v))),
         i := None)\<rparr>"

definition v_removable :: "nat \<Rightarrow> vfs \<Rightarrow> bool" where
  "v_removable i v \<longleftrightarrow> i \<noteq> 0 \<and> i \<noteq> cwd v \<and> (\<forall>j. is_Dir (nodes v j) \<longrightarrow> j \<noteq> i \<longrightarrow> v_parent (nodes v j) \<noteq> i)"


section \<open>Commands\<close>

record vsession =
  v_fs :: vfs
  v_in :: "string option list"
  v_out :: string
  v_err :: string

definition v_say :: "string \<Rightarrow> vsession \<Rightarrow> vsession" where
  "v_say str v = v\<lparr>v_out := v_out v @ str\<rparr>"

definition v_warn :: "string \<Rightarrow> vsession \<Rightarrow> vsession" where
  "v_warn str v = v\<lparr>v_err := v_err v @ str\<rparr>"

text \<open>The message for a command without its argument.\<close>

definition v_usage :: "(string \<times> string) list" where
  "v_usage =
    [(''cd'', '' <dirname>'' @ newline), (''mkdir'', '' <dirname>'' @ newline), (''touch'', '' <filename>'' @ newline),
     (''write'', '' <filename>''), (''read'', '' <filename>''), (''rmdir'', '' <dirname>''), (''rm'', '' <filename>'')]"

text \<open>
  One command, given as its words. \<open>read\<close> prints nothing for a file that is larger than an \<open>int\<close>
  can count; \<open>debug\<close> prints something.
\<close>

inductive v_exec :: "string list \<Rightarrow> vsession \<Rightarrow> vsession \<Rightarrow> bool" where
  nothing: "v_exec [] v v"
| unknown: "cmd \<notin> set (map fst command_texts) \<Longrightarrow> v_exec (cmd # args) v v"
| usage: "map_of v_usage cmd = Some str \<Longrightarrow> v_exec [cmd] v (v_warn (''format: '' @ cmd @ str) v)"
| help_cmd: "v_exec (''help'' # args) v (v_say (help_text command_texts) v)"
| debug_cmd: "v_exec (''debug'' # args) v (v_say str v)"
| ls_cmd: "v_exec (''ls'' # args) v (v_say (v_listing (v_fs v)) v)"
| cd_dir: "v_cd token (v_fs v) = Some i \<Longrightarrow> v_exec (''cd'' # token # args) v (v\<lparr>v_fs := (v_fs v)\<lparr>cwd := i\<rparr>\<rparr>)"
| cd_none: "v_cd token (v_fs v) = None \<Longrightarrow>
    v_exec (''cd'' # token # args) v (v_warn (''directory not found'' @ newline) v)"
| long_name: "cmd \<in> {''mkdir'', ''touch''} \<Longrightarrow> length name > 27 \<Longrightarrow>
    v_exec (cmd # name # args) v (v_warn (''filename is too long'' @ newline) v)"
| no_room: "cmd \<in> {''mkdir'', ''touch''} \<Longrightarrow> length name \<le> 27 \<Longrightarrow>
    str \<in> {''Ran out of free inodes'' @ newline, ''Ran out of free blocks'' @ newline} \<Longrightarrow>
    v_exec (cmd # name # args) v (v_warn str v)"
| mkdir_new: "length name \<le> 27 \<Longrightarrow> nodes (v_fs v) i = None \<Longrightarrow>
    v_exec (''mkdir'' # name # args) v (v\<lparr>v_fs := v_add (Dir [] (cwd (v_fs v))) name i (v_fs v)\<rparr>)"
| touch_new: "length name \<le> 27 \<Longrightarrow> nodes (v_fs v) i = None \<Longrightarrow>
    v_exec (''touch'' # name # args) v (v\<lparr>v_fs := v_add (File []) name i (v_fs v)\<rparr>)"
| no_dir_removed: "v_last is_Dir token (v_fs v) = None \<Longrightarrow>
    v_exec (''rmdir'' # token # args) v (v_warn (''no such directory'' @ newline) v)"
| dir_removed: "v_last is_Dir token (v_fs v) = Some i \<Longrightarrow> v_removable i (v_fs v) \<Longrightarrow>
    v_exec (''rmdir'' # token # args) v (v\<lparr>v_fs := v_remove is_Dir token i (v_fs v)\<rparr>)"
| no_file_removed: "v_file token (v_fs v) = None \<Longrightarrow>
    v_exec (''rm'' # token # args) v (v_warn (''no such file'' @ newline) v)"
| file_removed: "v_file token (v_fs v) = Some i \<Longrightarrow>
    v_exec (''rm'' # token # args) v (v\<lparr>v_fs := v_remove is_File token i (v_fs v)\<rparr>)"
| no_file: "cmd \<in> {''write'', ''read''} \<Longrightarrow> v_file token (v_fs v) = None \<Longrightarrow>
    v_exec (cmd # token # args) v (v_warn (''No such file'' @ newline) v)"
| write_line: "v_file token (v_fs v) = Some i \<Longrightarrow> v_in v = Some line # ls \<Longrightarrow>
    v_exec (''write'' # token # args) v
      (v_say ''Enter data: '' (v\<lparr>v_in := ls, v_fs := v_append i line (v_fs v)\<rparr>))"
| read_file: "v_file token (v_fs v) = Some i \<Longrightarrow> v_content (nodes (v_fs v) i) = c \<Longrightarrow>
    v_exec (''read'' # token # args) v (v_say ((if length c < 2 ^ 31 then c else []) @ newline) v)"

text \<open>One turn of the loop: a prompt, a line, the command of its words.\<close>

inductive v_turn :: "vsession \<Rightarrow> vsession \<Rightarrow> bool" where
  turn: "v_in v = Some line # ls \<Longrightarrow> v_exec (words isspace line) (v_say ''$ '' (v\<lparr>v_in := ls\<rparr>)) v' \<Longrightarrow> v_turn v v'"

end
