(* ===== verification/Vfs_Sim.thy ===== *)
theory Vfs_Sim
  imports Vfs_Spec Cmd_Loop
begin

text \<open>
  The shell of MiniFS implements \<open>Vfs_Spec\<close>: the files a file system on a disk stands for, what each
  command does to them, and the simulation of the main loop.
\<close>


section \<open>Entries in place of rows\<close>

lemma find_map: "find P (map f xs) = map_option f (find (\<lambda>x. P (f x)) xs)"
  by (induction xs) auto

lemma find_first_find: "map_option (\<lambda>k. f (xs ! k)) (find_first P xs) = map_option f (find P xs)"
  by (induction xs) (auto simp: option.map_comp o_def)

lemma last_row_find: "last_row P rs = map_option row_inode (find P (rev rs))"
proof (induction rs rule: rev_induct)
  case Nil
  show ?case by (simp add: last_row_def)
next
  case (snoc r rs)
  show ?case
  proof (cases "P r")
    case True
    then show ?thesis by (cases "filter P rs") (simp_all add: last_row_def)
  next
    case False
    with snoc show ?thesis by (simp add: last_row_def)
  qed
qed

definition row_entry :: "nat \<times> char list \<times> u32 \<times> char \<Rightarrow> dentry" where
  "row_entry r = (case r of (index, name, i, u) \<Rightarrow> (u, name, i))"

lemma row_entry_simps [simp]: "row_entry (index, name, i, u) = (u, name, i)"
  by (simp add: row_entry_def)

lemma entries_of_rows: "map row_entry (rows (dirmap es)) = es"
  by (rule nth_equalityI) (simp_all add: rows_nth)

text \<open>The test of an entry: its type and its name.\<close>

definition entry_is :: "Filesystem \<Rightarrow> u32 \<Rightarrow> string \<Rightarrow> dentry \<Rightarrow> bool" where
  "entry_is fs ty token e \<longleftrightarrow> i_type (im fs ! unat (snd (snd e))) = ty \<and> c_str (fst (snd e)) = Some token"

lemma find_rows:
  "map_option row_inode (find (row_is fs ty token) rs) =
    map_option (\<lambda>e. snd (snd e)) (find (entry_is fs ty token) (map row_entry rs))"
proof -
  have "row_is fs ty token = (\<lambda>r. entry_is fs ty token (row_entry r))"
    by (rule ext) (auto simp: row_is_def entry_is_def)
  moreover have "row_inode = (\<lambda>r. snd (snd (row_entry r)))" by (rule ext) auto
  ultimately show ?thesis by (simp add: find_map option.map_comp o_def)
qed

lemma named_dir_entry:
  "named_dir fs token = map_option (\<lambda>e. snd (snd e)) (find (entry_is fs MINIFS_INODE_DIRECTORY token) (cur_entries fs))"
  using find_first_find [of row_inode "rows (dirmap (cur_entries fs))" "row_is fs MINIFS_INODE_DIRECTORY token"]
    find_rows [of fs MINIFS_INODE_DIRECTORY token "rows (dirmap (cur_entries fs))"]
  by (simp add: named_dir_def Let_def entries_of_rows)

lemma victim_entry:
  "victim fs ty token = map_option (\<lambda>e. snd (snd e)) (find (entry_is fs ty token) (rev (cur_entries fs)))"
  using find_rows [of fs ty token "rev (rows (dirmap (cur_entries fs)))"]
  by (simp add: victim_def last_row_find rev_map [symmetric] entries_of_rows)

definition entry_text :: "Filesystem \<Rightarrow> dentry \<Rightarrow> string" where
  "entry_text fs e = (case e of (u, name, i) \<Rightarrow>
     if u = NUL then []
     else if i_type (im fs ! unat i) = MINIFS_INODE_DIRECTORY then blue (the (c_str name)) @ '' ''
     else if i_type (im fs ! unat i) = MINIFS_INODE_FILE then the (c_str name) @ '' '' else [])"

lemma ls_entries: "map (ls_text fs) (rows (dirmap es)) = map (entry_text fs) es"
  by (rule nth_equalityI) (simp_all add: rows_nth ls_text_simp entry_text_def split_def)


section \<open>The files of a file system\<close>

definition v_entry :: "dentry \<Rightarrow> ventry" where
  "v_entry e = (case e of (u, name, i) \<Rightarrow> (u \<noteq> NUL, the (c_str name), unat i))"

definition v_node :: "Filesystem \<Rightarrow> nat \<Rightarrow> node" where
  "v_node fs i =
     (if i_type (im fs ! i) = MINIFS_INODE_DIRECTORY
      then Dir (map v_entry (entries (bytes_of fs i))) (nat (parent (im fs ! i)))
      else File (bytes_of fs i))"

definition vfs_of :: "Filesystem \<Rightarrow> vfs" where
  "vfs_of fs = \<lparr>nodes = \<lambda>i. if i \<in> used_set fs then Some (v_node fs i) else None, cwd = unat (current_dir fs)\<rparr>"

definition vsession_of :: "session \<Rightarrow> vsession" where
  "vsession_of s = \<lparr>v_fs = vfs_of (s_fs s), v_in = s_in s, v_out = s_out s, v_err = s_err s\<rparr>"

lemma is_Dir_iff [simp]: "is_Dir (nodes (vfs_of fs) i) \<longleftrightarrow> is_dir fs i"
  by (auto simp: vfs_of_def v_node_def is_dir_def used_set_def)

lemma is_File_iff:
  assumes "fs_ok fs"
  shows "is_File (nodes (vfs_of fs) i) \<longleftrightarrow> i < length (im fs) \<and> i_type (im fs ! i) = MINIFS_INODE_FILE"
  using fs_okD(8) [OF assms, of i] by (auto simp: vfs_of_def v_node_def inode_inv_def used_set_def)

lemma cwd_vfs [simp]: "cwd (vfs_of fs) = unat (current_dir fs)"
  by (simp add: vfs_of_def)

lemma here_eq:
  assumes "fs_ok fs"
  shows "v_entries (nodes (vfs_of fs) (unat (current_dir fs))) = map v_entry (cur_entries fs)"
    and "v_parent (nodes (vfs_of fs) (unat (current_dir fs))) = nat (parent (im fs ! unat (current_dir fs)))"
  using fs_okD(5) [OF assms] is_dir_used [OF fs_okD(5) [OF assms]]
  by (simp_all add: vfs_of_def v_node_def is_dir_def)

lemma entry_ok:
  assumes "fs_ok fs" and "(u, name, i) \<in> set (cur_entries fs)"
  shows "unat i < length (im fs)" and "\<exists>str. c_str name = Some str"
  using dir_inv [OF assms(1) fs_okD(5) [OF assms(1)]] assms(2) c_str_None_iff [of name]
  by (auto simp: dir_ok_def dentry_ok_def)

lemma v_listing_eq:
  assumes "fs_ok fs"
  shows "v_listing (vfs_of fs) =
    blue ''.'' @ '' '' @ blue ''..'' @ '' '' @ concat (map (ls_text fs) (rows (dirmap (cur_entries fs)))) @ newline"
proof -
  have "(case v_entry e of (u, name, t) \<Rightarrow>
       if \<not> u then [] else if is_Dir (nodes (vfs_of fs) t) then blue name @ '' ''
       else if is_File (nodes (vfs_of fs) t) then name @ '' '' else []) = entry_text fs e"
    if e: "e \<in> set (cur_entries fs)" for e
  proof -
    obtain u name i where "e = (u, name, i)" by (cases e) auto
    moreover from this e have "unat i < length (im fs)" using entry_ok(1) [OF assms] by blast
    ultimately show ?thesis by (simp add: v_entry_def entry_text_def is_dir_def is_File_iff [OF assms])
  qed
  then show ?thesis
    by (simp add: v_listing_def here_eq [OF assms] ls_entries o_def cong: map_cong)
qed

lemma find_entry:
  assumes ok: "fs_ok fs" and es: "set es \<subseteq> set (cur_entries fs)"
    and tst: "\<And>i. i < length (im fs) \<Longrightarrow> test (nodes (vfs_of fs) i) \<longleftrightarrow> i_type (im fs ! i) = ty"
  shows "map_option (\<lambda>e. snd (snd e)) (find (\<lambda>(u, name, t). test (nodes (vfs_of fs) t) \<and> name = token) (map v_entry es)) =
    map_option unat (map_option (\<lambda>e. snd (snd e)) (find (entry_is fs ty token) es))"
proof -
  have "(case v_entry e of (u, name, t) \<Rightarrow> test (nodes (vfs_of fs) t) \<and> name = token) = entry_is fs ty token e"
    if e: "e \<in> set es" for e
  proof -
    obtain u name i where "e = (u, name, i)" by (cases e) auto
    moreover from this e es have "unat i < length (im fs)" "\<exists>str. c_str name = Some str"
      using entry_ok [OF ok] by blast+
    ultimately show ?thesis using tst by (auto simp: v_entry_def entry_is_def)
  qed
  then have "find (\<lambda>e. case v_entry e of (u, name, t) \<Rightarrow> test (nodes (vfs_of fs) t) \<and> name = token) es =
      find (entry_is fs ty token) es" by (rule find_cong [OF refl])
  then show ?thesis by (simp add: find_map option.map_comp o_def v_entry_def split_def)
qed

lemma v_cd_eq:
  assumes ok: "fs_ok fs"
  shows "v_cd token (vfs_of fs) = map_option unat (cd_target fs token)"
proof -
  let ?cd = "unat (current_dir fs)"
  have p: "0 \<le> parent (im fs ! ?cd)" "is_dir fs (nat (parent (im fs ! ?cd)))"
    using dir_inv [OF ok fs_okD(5) [OF ok]] by (auto simp: dir_ok_def)
  then have "nat (parent (im fs ! ?cd)) < 4294967296"
    using inodes_few [OF fs_okD(3) [OF ok]] by (simp add: is_dir_def)
  then have "unat (of_int (parent (im fs ! ?cd)) :: u32) = nat (parent (im fs ! ?cd))"
    unfolding status_of_nat [OF p(1)] by (rule of_nat_u32)
  moreover have "map_option (\<lambda>e. snd (snd e)) (find (\<lambda>(u, name, t). is_Dir (nodes (vfs_of fs) t) \<and> name = token)
      (map v_entry (cur_entries fs))) = map_option unat (named_dir fs token)"
    unfolding named_dir_entry using ok by (rule find_entry) (simp_all add: is_dir_def)
  ultimately show ?thesis by (simp add: v_cd_def cd_target_def here_eq [OF ok] del: is_Dir_iff)
qed

lemma v_last_eq:
  assumes ok: "fs_ok fs" and "\<And>i. i < length (im fs) \<Longrightarrow> test (nodes (vfs_of fs) i) \<longleftrightarrow> i_type (im fs ! i) = ty"
  shows "v_last test token (vfs_of fs) = map_option unat (victim fs ty token)"
proof -
  have "map_option (\<lambda>e. snd (snd e)) (find (\<lambda>(u, name, t). test (nodes (vfs_of fs) t) \<and> name = token)
      (map v_entry (rev (cur_entries fs)))) = map_option unat (victim fs ty token)"
    unfolding victim_entry using assms by (intro find_entry) simp_all
  then show ?thesis by (simp add: v_last_def here_eq [OF ok] rev_map)
qed

lemma v_file_victim:
  assumes "fs_ok fs"
  shows "v_file token (vfs_of fs) = map_option unat (victim fs MINIFS_INODE_FILE token)"
  using assms by (rule v_last_eq) (simp add: is_File_iff [OF assms])

lemma v_dir_victim:
  assumes "fs_ok fs"
  shows "v_last is_Dir token (vfs_of fs) = map_option unat (victim fs MINIFS_INODE_DIRECTORY token)"
  using assms by (rule v_last_eq) (simp add: is_dir_def)

lemma v_file_eq: "fs_ok fs \<Longrightarrow> v_file token (vfs_of fs) = map_option unat (target_file fs token)"
  by (simp add: v_file_victim victim_def target_file_def)


section \<open>What the commands do to the files\<close>

lemma vfs_cd: "vfs_of (fs\<lparr>current_dir := c\<rparr>) = (vfs_of fs)\<lparr>cwd := unat c\<rparr>"
proof -
  have "v_node (fs\<lparr>current_dir := c\<rparr>) i = v_node fs i" for i unfolding cd_retagged by (simp add: v_node_def)
  moreover have "used_set (fs\<lparr>current_dir := c\<rparr>) = used_set fs" by (simp add: used_set_def)
  ultimately show ?thesis by (auto simp: vfs_of_def)
qed

lemma vfs_same:
  assumes "same_files fs fs'" and "current_dir fs' = 0"
  shows "vfs_of fs' = (vfs_of fs)\<lparr>cwd := 0\<rparr>"
proof -
  have "v_node fs' i = v_node fs i" if "i \<in> used_set fs" for i
    using assms(1) that by (simp add: same_files_def v_node_def)
  then show ?thesis using assms by (auto simp: vfs_of_def same_files_def)
qed

lemma vfs_add:
  assumes a: "added fs g i ty par name" and ok: "fs_ok fs" and g: "fs_ok g" and name: "NUL \<notin> set name"
  shows "vfs_of g = v_add (v_node g i) name i (vfs_of fs)" and "nodes (vfs_of fs) i = None"
proof -
  let ?cd = "unat (current_dir fs)"
  have i: "i \<notin> used_set fs" "used_set g = insert i (used_set fs)" "current_dir g = current_dir fs"
    using a by (simp_all add: added_def)
  have cd: "?cd \<in> used_set fs" "is_dir fs ?cd" using is_dir_used [OF fs_okD(5) [OF ok]] fs_okD(5) [OF ok] by auto
  have same: "v_node g j = v_node fs j" if "j \<in> used_set fs" "j \<noteq> ?cd" for j
    using a that i(1) unfolding v_node_def added_def by metis
  have "i \<in> used_set g" using i(2) by simp
  then have "i < length (im g)" by (simp add: used_set_def)
  then have "unat (of_nat i :: u32) = i" using inodes_few [OF fs_okD(3) [OF g]] by (intro of_nat_u32) simp
  then have e: "v_entry (CHR 0x01, name_field name, of_nat i) = (True, take 26 name, i)"
    by (simp add: v_entry_def c_str_name_field [OF name])
  have "i_type (im g ! ?cd) = MINIFS_INODE_DIRECTORY" "parent (im g ! ?cd) = parent (im fs ! ?cd)"
    using a cd i(1) by (auto simp: added_def is_dir_def)
  then have new: "v_node g ?cd = Dir (here (vfs_of fs) @ [(True, take 26 name, i)]) (v_parent (nodes (vfs_of fs) ?cd))"
    using a here_eq [OF ok] by (simp add: v_node_def added_def e)
  show "nodes (vfs_of fs) i = None" using i(1) by (simp add: vfs_of_def)
  have "nodes (vfs_of g) j = nodes (v_add (v_node g i) name i (vfs_of fs)) j" for j
  proof -
    consider "j = i" | "j = ?cd" "j \<noteq> i" | "j \<noteq> ?cd" "j \<noteq> i" by blast
    then show ?thesis
    proof cases
      case 1
      then show ?thesis using i(2) by (simp add: v_add_def vfs_of_def)
    next
      case 2
      then have "nodes (vfs_of g) j = Some (v_node g ?cd)" using i(2) cd(1) by (simp add: vfs_of_def)
      then show ?thesis unfolding new using 2 by (simp add: v_add_def)
    next
      case 3
      then have "nodes (v_add (v_node g i) name i (vfs_of fs)) j = nodes (vfs_of fs) j"
        by (simp add: v_add_def)
      then show ?thesis using 3 i(2) same [of j] by (simp add: vfs_of_def)
    qed
  qed
  then have "nodes (vfs_of g) = nodes (v_add (v_node g i) name i (vfs_of fs))" by (rule ext)
  moreover have "cwd (vfs_of g) = cwd (v_add (v_node g i) name i (vfs_of fs))"
    using i(3) by (simp add: vfs_of_def v_add_def)
  ultimately show "vfs_of g = v_add (v_node g i) name i (vfs_of fs)" by (simp add: vfs.equality)
qed

lemma vfs_written:
  assumes w: "written fs g i dat" and i: "i < length (im fs)" "i_type (im fs ! i) = MINIFS_INODE_FILE"
  shows "vfs_of g = v_append i dat (vfs_of fs)"
proof -
  have iu: "i \<in> used_set fs" using i by (simp add: used_set_def)
  have l: "j < length (im fs)" if "j \<in> used_set fs" for j using that by (simp add: used_set_def)
  have same: "v_node g j = v_node fs j" if "j \<in> used_set fs" "j \<noteq> i" for j
    using w that l [OF that(1)] by (simp add: v_node_def written_def)
  have "v_node g i = File (bytes_of fs i @ dat)" using w i by (simp add: v_node_def written_def)
  moreover have "v_content (nodes (vfs_of fs) i) = bytes_of fs i" using iu i(2) by (simp add: vfs_of_def v_node_def)
  ultimately have "nodes (vfs_of g) = nodes (v_append i dat (vfs_of fs))"
    using w iu same by (intro ext) (simp add: v_append_def, simp add: vfs_of_def written_def)
  moreover have "cwd (vfs_of g) = cwd (v_append i dat (vfs_of fs))"
    using w by (simp add: vfs_of_def v_append_def written_def)
  ultimately show ?thesis by (simp add: vfs.equality)
qed

lemma vfs_removed:
  assumes r: "removed fs g t (matching fs ty token)" and ok: "fs_ok fs" and t: "removable fs t"
    and tst: "\<And>i. i < length (im fs) \<Longrightarrow> test (nodes (vfs_of fs) i) \<longleftrightarrow> i_type (im fs ! i) = ty"
  shows "vfs_of g = v_remove test token t (vfs_of fs)"
proof -
  let ?cd = "unat (current_dir fs)"
  have cd: "?cd \<in> used_set fs" "is_dir fs ?cd" "?cd \<noteq> t"
    using is_dir_used [OF fs_okD(5) [OF ok]] fs_okD(5) [OF ok] t by (auto simp: removable_def)
  have g: "used_set g = used_set fs - {t}" "current_dir g = current_dir fs" "im g = (im fs)[t := zero_Inode]"
      "cur_entries g = mark (matching fs ty token) (cur_entries fs)"
    using r unfolding removed_def by blast+
  have im: "im g ! j = im fs ! j" if "j \<noteq> t" for j using that by (simp add: g(3))
  have same: "v_node g j = v_node fs j" if "j \<in> used_set fs" "j \<noteq> t" "j \<noteq> ?cd" for j
    using r that im by (simp add: v_node_def removed_def)
  have "map v_entry (cur_entries g) =
      map (\<lambda>(u, name, i). (u \<and> \<not> (test (nodes (vfs_of fs) i) \<and> name = token), name, i)) (map v_entry (cur_entries fs))"
    (is "?l = ?r")
  proof (rule nth_equalityI)
    show "length ?l = length ?r" by (simp add: g(4))
  next
    fix k assume "k < length ?l"
    then have k: "k < length (cur_entries fs)" by (simp add: g(4))
    obtain u name i where e: "cur_entries fs ! k = (u, name, i)" by (cases "cur_entries fs ! k") auto
    then have "(u, name, i) \<in> set (cur_entries fs)" using k by (metis nth_mem)
    then have "unat i < length (im fs)" "\<exists>str. c_str name = Some str" using entry_ok [OF ok] by blast+
    then have "k \<in> matching fs ty token \<longleftrightarrow> test (nodes (vfs_of fs) (unat i)) \<and> the (c_str name) = token"
      using tst k by (auto simp: matching_def e)
    then show "?l ! k = ?r ! k" using k by (simp add: g(4) e v_entry_def)
  qed
  then have new: "v_node g ?cd = Dir (map (\<lambda>(u, name, i). (u \<and> \<not> (test (nodes (vfs_of fs) i) \<and> name = token), name, i))
      (here (vfs_of fs))) (v_parent (nodes (vfs_of fs) ?cd))"
    using cd here_eq [OF ok] im [OF cd(3)] by (simp add: v_node_def g(2) is_dir_def)
  have "nodes (vfs_of g) j = nodes (v_remove test token t (vfs_of fs)) j" for j
  proof -
    consider "j = t" | "j = ?cd" "j \<noteq> t" | "j \<noteq> ?cd" "j \<noteq> t" by blast
    then show ?thesis
    proof cases
      case 1
      then show ?thesis using g(1) by (simp add: v_remove_def vfs_of_def)
    next
      case 2
      then have "nodes (vfs_of g) j = Some (v_node g ?cd)" using g(1) cd(1,3) by (simp add: vfs_of_def)
      then show ?thesis unfolding new using 2 by (simp add: v_remove_def)
    next
      case 3
      then have "nodes (v_remove test token t (vfs_of fs)) j = nodes (vfs_of fs) j" by (simp add: v_remove_def)
      then show ?thesis using 3 g(1) same [of j] by (simp add: vfs_of_def)
    qed
  qed
  then have "nodes (vfs_of g) = nodes (v_remove test token t (vfs_of fs))" by (rule ext)
  moreover have "cwd (vfs_of g) = cwd (v_remove test token t (vfs_of fs))"
    using g(2) by (simp add: vfs_of_def v_remove_def)
  ultimately show ?thesis by (simp add: vfs.equality)
qed

lemma v_removable:
  assumes "fs_ok fs" and "removable fs t"
  shows "v_removable t (vfs_of fs)"
proof -
  have "v_parent (nodes (vfs_of fs) j) = nat (parent (im fs ! j))" if "is_dir fs j" for j
    using that is_dir_used [OF that] by (simp add: vfs_of_def v_node_def is_dir_def)
  moreover have "j < length (im fs)" if "is_dir fs j" for j using that by (simp add: is_dir_def)
  ultimately show ?thesis using assms(2) by (auto simp: v_removable_def removable_def)
qed

end
