(* ===== verification/Vfs_Run.thy ===== *)
theory Vfs_Run
  imports Vfs_Sim
begin

text \<open>
  Each command, and with it each turn of the main loop, is a step of \<open>Vfs_Spec\<close> on the files the
  session stands for: the interpretation of \<open>forward_simulation\<close> on the loop.
\<close>


section \<open>Sessions\<close>

lemma vsession_simps [simp]:
  "v_fs (vsession_of s) = vfs_of (s_fs s)" "v_in (vsession_of s) = s_in s" "v_out (vsession_of s) = s_out s"
  "v_err (vsession_of s) = s_err s"
  by (simp_all add: vsession_of_def)

lemma vsession_out: "vsession_of (out str s) = v_say str (vsession_of s)"
  by (simp add: vsession_of_def v_say_def out_def)

lemma vsession_err: "vsession_of (err str s) = v_warn str (vsession_of s)"
  by (simp add: vsession_of_def v_warn_def err_def)

lemma vsession_stray [simp]: "vsession_of (strayed s) = vsession_of s"
  by (simp add: vsession_of_def)

lemma vsession_fs: "vsession_of (s\<lparr>s_fs := fs\<rparr>) = (vsession_of s)\<lparr>v_fs := vfs_of fs\<rparr>"
  by (simp add: vsession_of_def)

lemma vsession_prompt: "vsession_of (prompt ls s) = v_say ''$ '' ((vsession_of s)\<lparr>v_in := ls\<rparr>)"
  by (simp add: prompt_def vsession_out) (simp add: vsession_of_def)


section \<open>Commands\<close>

lemma cd_sim:
  assumes ok: "fs_ok (s_fs s)" and args: "\<forall>t\<in>set args. NUL \<notin> set t" and run: "minifs_cd (''cd'' # args) s = Inr s'"
  shows "v_exec (''cd'' # args) (vsession_of s) (vsession_of s')"
proof (cases args)
  case Nil
  then have "s' = err (''format: '' @ ''cd'' @ '' <dirname>'' @ newline) s" using run by (simp add: minifs_cd_def Let_def)
  then show ?thesis using Nil v_exec.usage [of "''cd''"] by (simp add: vsession_err v_usage_def)
next
  case (Cons token rest)
  then have t: "NUL \<notin> set token" using args by simp
  show ?thesis
  proof (cases "cd_target (s_fs s) token")
    case None
    then have "s' = err (''directory not found'' @ newline) s"
      using run minifs_cd_eq [OF ok t refl, of "''cd''" rest] by (simp add: Cons)
    moreover have "v_cd token (v_fs (vsession_of s)) = None" using None v_cd_eq [OF ok] by simp
    from v_exec.cd_none [OF this, of rest] calculation show ?thesis by (simp only: Cons vsession_err)
  next
    case (Some i)
    then have "s' = s\<lparr>s_fs := (s_fs s)\<lparr>current_dir := i\<rparr>\<rparr>"
      using run minifs_cd_eq [OF ok t refl, of "''cd''" rest] by (simp add: Cons)
    moreover have "v_cd token (v_fs (vsession_of s)) = Some (unat i)" using Some v_cd_eq [OF ok] by simp
    ultimately show ?thesis
      using v_exec.cd_dir [of token "vsession_of s" "unat i" rest] by (simp add: Cons vsession_fs vfs_cd)
  qed
qed

lemma ls_sim:
  assumes "fs_ok (s_fs s)" and "minifs_ls (''ls'' # args) s = Inr s'"
  shows "v_exec (''ls'' # args) (vsession_of s) (vsession_of s')"
proof -
  have "s' = out (v_listing (vfs_of (s_fs s))) s"
    using assms(2) by (simp add: minifs_ls_eq [OF assms(1)] v_listing_eq [OF assms(1)])
  then show ?thesis using v_exec.ls_cmd [of args "vsession_of s"] by (simp add: vsession_out)
qed

text \<open>\<open>mkdir\<close> and \<open>touch\<close>: a message, or a new node.\<close>

lemma make_sim:
  assumes ok: "fs_ok (s_fs s)" and name: "NUL \<notin> set name" and cmd: "cmd \<in> {''mkdir'', ''touch''}"
    and ty: "ty = MINIFS_INODE_FILE \<or> ty = MINIFS_INODE_DIRECTORY" and ip: "int32 (par (s_fs s))"
    and par: "ty = MINIFS_INODE_DIRECTORY \<longrightarrow> par (s_fs s) = int (unat (current_dir (s_fs s)))"
    and x: "x = (if ty = MINIFS_INODE_DIRECTORY then Dir [] (unat (current_dir (s_fs s))) else File [])"
    and new: "\<And>i. length name \<le> 27 \<Longrightarrow> nodes (v_fs (vsession_of s)) i = None \<Longrightarrow>
      v_exec (cmd # name # args) (vsession_of s) ((vsession_of s)\<lparr>v_fs := v_add x name i (v_fs (vsession_of s))\<rparr>)"
    and run: "make_inode ty par name s = Inr s'"
  shows "v_exec (cmd # name # args) (vsession_of s) (vsession_of s')"
proof -
  let ?full = "{''Ran out of free inodes'' @ newline, ''Ran out of free blocks'' @ newline}"
  consider "length name > 27" "s' = err (''filename is too long'' @ newline) s"
    | str where "length name \<le> 27" "str \<in> ?full" "s' = err str s"
    | g i where "length name \<le> 27" "s' = s\<lparr>s_fs := g\<rparr>" "fs_ok g" "added (s_fs s) g i ty (par (s_fs s)) name"
    using make_inode_outcome [where par = par, OF ok ty ip par, of name] run by (auto split: if_splits)
  then show ?thesis
  proof cases
    case 1
    from v_exec.long_name [OF cmd 1(1), of args] show ?thesis unfolding 1(2) vsession_err .
  next
    case (2 str)
    from v_exec.no_room [OF cmd 2(1,2), of args] show ?thesis unfolding 2(3) vsession_err .
  next
    case (3 g i)
    have "v_node g i = x" using 3(4) par by (simp add: x added_def v_node_def)
    with vfs_add [OF 3(4) ok 3(3) name] new [OF 3(1), of i] show ?thesis by (simp add: 3(2) vsession_fs)
  qed
qed

lemma touch_sim:
  assumes ok: "fs_ok (s_fs s)" and args: "\<forall>t\<in>set args. NUL \<notin> set t" and run: "minifs_touch (''touch'' # args) s = Inr s'"
  shows "v_exec (''touch'' # args) (vsession_of s) (vsession_of s')"
proof (cases args)
  case Nil
  then have "s' = err (''format: '' @ ''touch'' @ '' <filename>'' @ newline) s" using run by (simp add: minifs_touch_def)
  then show ?thesis using Nil v_exec.usage [of "''touch''"] by (simp add: vsession_err v_usage_def)
next
  case (Cons name rest)
  have m: "make_inode MINIFS_INODE_FILE (\<lambda>fs. -1) name s = Inr s'" using run by (simp add: Cons minifs_touch_def)
  have n: "NUL \<notin> set name" using args Cons by simp
  show ?thesis
    unfolding Cons using v_exec.touch_new [of name "vsession_of s" _ rest]
    by (intro make_sim [OF ok n _ _ _ _ refl _ m]) (simp_all add: int32_def)
qed

lemma mkdir_sim:
  assumes ok: "fs_ok (s_fs s)" and args: "\<forall>t\<in>set args. NUL \<notin> set t" and run: "minifs_mkdir (''mkdir'' # args) s = Inr s'"
  shows "v_exec (''mkdir'' # args) (vsession_of s) (vsession_of s')"
proof (cases args)
  case Nil
  then have "s' = err (''format: '' @ ''mkdir'' @ '' <dirname>'' @ newline) s" using run by (simp add: minifs_mkdir_def)
  then show ?thesis using Nil v_exec.usage [of "''mkdir''"] by (simp add: vsession_err v_usage_def)
next
  case (Cons name rest)
  have m: "make_inode MINIFS_INODE_DIRECTORY (\<lambda>fs. sint (current_dir fs)) name s = Inr s'"
    using run by (simp add: Cons minifs_mkdir_def)
  have n: "NUL \<notin> set name" using args Cons by simp
  show ?thesis
    unfolding Cons using v_exec.mkdir_new [of name "vsession_of s" _ rest] mkdir_parent [OF ok]
    by (intro make_sim [OF ok n _ _ _ _ refl _ m]) simp_all
qed

lemma write_sim:
  assumes ok: "fs_ok (s_fs s)" and args: "\<forall>t\<in>set args. NUL \<notin> set t" and run: "minifs_write af (''write'' # args) s = Inr s'"
    and af: "kept_data af (''write'' # args) s" and len: "\<forall>l. next_line s = Some l \<longrightarrow> length l < 4294967296"
  shows "v_exec (''write'' # args) (vsession_of s) (vsession_of s')"
proof (cases args)
  case Nil
  then have "s' = err (''format: '' @ ''write'' @ '' <filename>'') s" using run by (simp add: minifs_write_def)
  then show ?thesis using Nil v_exec.usage [of "''write''"] by (simp add: vsession_err v_usage_def)
next
  case (Cons token rest)
  then have t: "NUL \<notin> set token" using args by simp
  note eq = minifs_write_eq [OF ok t refl, of af "''write''" rest]
  show ?thesis
  proof (cases "target_file (s_fs s) token")
    case None
    then have "s' = err (''No such file'' @ newline) s" using run eq by (simp add: Cons)
    then show ?thesis using None v_file_eq [OF ok, of token] v_exec.no_file [of "''write''" token "vsession_of s" rest]
      by (simp add: Cons vsession_err)
  next
    case (Some i)
    note i = target_file_ok(2) [OF ok t Some]
    from run eq Some obtain l ls where l: "s_in s = Some l # ls" "next_line s = Some l"
      by (auto simp: Cons next_line_def split: list.splits option.splits)
    with run eq Some have w: "on_fs (write_file (unat i) l (af l)) (prompted s) = Inr s'" by (simp add: Cons)
    then obtain g where g: "write_file (unat i) l (af l) (s_fs s) = Inr g" "s' = (prompted s)\<lparr>s_fs := g\<rparr>"
      by (auto simp: on_fs_def prompted_def res_simps)
    have "written (s_fs s) g (unat i) l"
      using write_file_ok [OF ok, of "unat i" l "af l"] i g(1) len l(2) kept_dataD [OF af [unfolded Cons] Some l(2)] by (auto split: if_splits)
    then have "vfs_of g = v_append (unat i) l (vfs_of (s_fs s))" using i by (intro vfs_written) simp_all
    then have "vsession_of s' = v_say ''Enter data: '' ((vsession_of s)\<lparr>v_in := ls, v_fs := v_append (unat i) l (vfs_of (s_fs s))\<rparr>)"
      using l(1) by (simp add: g(2) vsession_of_def prompted_def v_say_def)
    then show ?thesis
      using v_exec.write_line [of token "vsession_of s" "unat i" l ls rest] v_file_eq [OF ok, of token] Some l(1)
      by (simp add: Cons)
  qed
qed

lemma read_sim:
  assumes ok: "fs_ok (s_fs s)" and args: "\<forall>t\<in>set args. NUL \<notin> set t" and run: "minifs_read (''read'' # args) s = Inr s'"
  shows "v_exec (''read'' # args) (vsession_of s) (vsession_of s')"
proof (cases args)
  case Nil
  then have "s' = err (''format: '' @ ''read'' @ '' <filename>'') s" using run by (simp add: minifs_read_def)
  then show ?thesis using Nil v_exec.usage [of "''read''"] by (simp add: vsession_err v_usage_def)
next
  case (Cons token rest)
  then have t: "NUL \<notin> set token" using args by simp
  note eq = minifs_read_eq [OF ok t refl, of "''read''" rest]
  show ?thesis
  proof (cases "target_file (s_fs s) token")
    case None
    then have "s' = err (''No such file'' @ newline) s" using run eq by (simp add: Cons)
    then show ?thesis using None v_file_eq [OF ok, of token] v_exec.no_file [of "''read''" token "vsession_of s" rest]
      by (simp add: Cons vsession_err)
  next
    case (Some i)
    note i = target_file_ok(2) [OF ok t Some]
    have "v_content (nodes (vfs_of (s_fs s)) (unat i)) = bytes_of (s_fs s) (unat i)"
      using i by (simp add: vfs_of_def v_node_def used_set_def)
    moreover have "s' = out ((if length (bytes_of (s_fs s) (unat i)) < 2147483648 then bytes_of (s_fs s) (unat i) else []) @ newline) (strayed s)"
      using run eq Some by (simp add: Cons)
    ultimately show ?thesis
      using v_exec.read_file [of token "vsession_of s" "unat i" "bytes_of (s_fs s) (unat i)" rest] v_file_eq [OF ok, of token] Some
      by (simp add: Cons vsession_out)
  qed
qed

text \<open>The removals.\<close>

lemma rmdir_sim:
  assumes ok: "fs_ok (s_fs s)" and args: "\<forall>t\<in>set args. NUL \<notin> set t" and care: "careful (s_fs s) (''rmdir'' # args)"
    and run: "minifs_rmdir (''rmdir'' # args) s = Inr s'"
  shows "v_exec (''rmdir'' # args) (vsession_of s) (vsession_of s')"
proof (cases args)
  case Nil
  then have "s' = err (''format: '' @ ''rmdir'' @ '' <dirname>'') s" using run by (simp add: minifs_rmdir_def)
  then show ?thesis using Nil v_exec.usage [of "''rmdir''"] by (simp add: vsession_err v_usage_def)
next
  case (Cons token rest)
  then have "NUL \<notin> set token" "removes_well (s_fs s) MINIFS_INODE_DIRECTORY token" using args care by simp_all
  note o = rmdir_outcome [OF ok this, of "''rmdir''" rest]
  show ?thesis
  proof (cases "victim (s_fs s) MINIFS_INODE_DIRECTORY token")
    case None
    then have "s' = err (''no such directory'' @ newline) s" using run o by (simp add: Cons)
    then show ?thesis using None v_dir_victim [OF ok, of token] v_exec.no_dir_removed [of token "vsession_of s" rest]
      by (simp add: Cons vsession_err)
  next
    case (Some i)
    with o run obtain g where g: "removable (s_fs s) (unat i)" "s' = s\<lparr>s_fs := g\<rparr>"
        "removed (s_fs s) g (unat i) (matching (s_fs s) MINIFS_INODE_DIRECTORY token)" by (auto simp: Cons)
    have "vfs_of g = v_remove is_Dir token (unat i) (vfs_of (s_fs s))"
      using g(3) ok g(1) by (rule vfs_removed) (simp add: is_dir_def)
    then show ?thesis
      using Some v_dir_victim [OF ok, of token] v_removable [OF ok g(1)] v_exec.dir_removed [of token "vsession_of s" "unat i" rest]
      by (simp add: Cons g(2) vsession_fs)
  qed
qed

lemma rm_sim:
  assumes ok: "fs_ok (s_fs s)" and args: "\<forall>t\<in>set args. NUL \<notin> set t" and care: "careful (s_fs s) (''rm'' # args)"
    and run: "minifs_rm (''rm'' # args) s = Inr s'"
  shows "v_exec (''rm'' # args) (vsession_of s) (vsession_of s')"
proof (cases args)
  case Nil
  then have "s' = err (''format: '' @ ''rm'' @ '' <filename>'') s" using run by (simp add: minifs_rm_def)
  then show ?thesis using Nil v_exec.usage [of "''rm''"] by (simp add: vsession_err v_usage_def)
next
  case (Cons token rest)
  then have "NUL \<notin> set token" "removes_well (s_fs s) MINIFS_INODE_FILE token" using args care by simp_all
  note o = rm_outcome [OF ok this, of "''rm''" rest]
  show ?thesis
  proof (cases "victim (s_fs s) MINIFS_INODE_FILE token")
    case None
    then have "s' = err (''no such file'' @ newline) s" using run o by (simp add: Cons)
    then show ?thesis using None v_file_victim [OF ok, of token] v_exec.no_file_removed [of token "vsession_of s" rest]
      by (simp add: Cons vsession_err)
  next
    case (Some i)
    with o run obtain g where g: "removable (s_fs s) (unat i)" "s' = s\<lparr>s_fs := g\<rparr>"
        "removed (s_fs s) g (unat i) (matching (s_fs s) MINIFS_INODE_FILE token)" by (auto simp: Cons)
    have "vfs_of g = v_remove is_File token (unat i) (vfs_of (s_fs s))"
      using g(3) ok g(1) by (rule vfs_removed) (simp add: is_File_iff [OF ok])
    then show ?thesis
      using Some v_file_victim [OF ok, of token] v_exec.file_removed [of token "vsession_of s" "unat i" rest]
      by (simp add: Cons g(2) vsession_fs)
  qed
qed


lemma execute_sim:
  assumes ok: "fs_ok (s_fs s)" and args: "\<forall>t\<in>set data. NUL \<notin> set t"
    and care: "careful (s_fs s) data"
    and af: "kept_data af data s" and len: "\<forall>l. next_line s = Some l \<longrightarrow> length l < 4294967296"
    and run: "minifs_execute af data s = Inr s'"
  shows "v_exec data (vsession_of s) (vsession_of s')"
proof (cases data)
  case Nil
  then show ?thesis using run by (simp add: execute_eq v_exec.nothing)
next
  case (Cons cmd rest)
  have a: "\<forall>t\<in>set rest. NUL \<notin> set t" using args Cons by simp
  show ?thesis
  proof (cases "cmd \<in> set (map fst command_texts)")
    case False
    then have "s' = s" using run by (auto simp: Cons execute_eq command_texts_def)
    then show ?thesis using v_exec.unknown [OF False] by (simp only: Cons)
  next
    case True
    then have "cmd = ''cd'' \<or> cmd = ''ls'' \<or> cmd = ''mkdir'' \<or> cmd = ''rmdir'' \<or> cmd = ''touch'' \<or> cmd = ''rm'' \<or>
      cmd = ''write'' \<or> cmd = ''read'' \<or> cmd = ''help'' \<or> cmd = ''exit'' \<or> cmd = ''debug''"
      unfolding command_texts_def by (simp only: list.map fst_conv list.set insert_iff empty_iff simp_thms)
    then consider "cmd = ''cd''" | "cmd = ''ls''" | "cmd = ''mkdir''" | "cmd = ''touch''" | "cmd = ''write''"
      | "cmd = ''read''" | "cmd = ''help''" | "cmd = ''exit''" | "cmd = ''debug''" | "cmd = ''rmdir''" | "cmd = ''rm''"
      by metis
    then show ?thesis
    proof cases
      case 1
      have "minifs_cd (''cd'' # rest) s = Inr s'" using run by (simp add: Cons execute_eq 1)
      from cd_sim [OF ok a this] show ?thesis by (simp only: Cons 1)
    next
      case 2
      have "minifs_ls (''ls'' # rest) s = Inr s'" using run by (simp add: Cons execute_eq 2)
      from ls_sim [OF ok this] show ?thesis by (simp only: Cons 2)
    next
      case 3
      have "minifs_mkdir (''mkdir'' # rest) s = Inr s'" using run by (simp add: Cons execute_eq 3)
      from mkdir_sim [OF ok a this] show ?thesis by (simp only: Cons 3)
    next
      case 4
      have "minifs_touch (''touch'' # rest) s = Inr s'" using run by (simp add: Cons execute_eq 4)
      from touch_sim [OF ok a this] show ?thesis by (simp only: Cons 4)
    next
      case 5
      have "minifs_write af (''write'' # rest) s = Inr s'" using run by (simp add: Cons execute_eq 5)
      from write_sim [OF ok a this af [unfolded Cons 5] len] show ?thesis by (simp only: Cons 5)
    next
      case 6
      have "minifs_read (''read'' # rest) s = Inr s'" using run by (simp add: Cons execute_eq 6)
      from read_sim [OF ok a this] show ?thesis by (simp only: Cons 6)
    next
      case 7
      then have "s' = out (help_text command_texts) s" using run by (simp add: Cons execute_eq minifs_help_def)
      then show ?thesis using v_exec.help_cmd [of rest "vsession_of s"] by (simp only: 7 Cons vsession_out)
    next
      case 8
      then show ?thesis using run by (simp add: Cons execute_eq minifs_exit_def)
    next
      case 9
      obtain str where "minifs_debug data s = Inr (out str s)" using minifs_debug_ok [OF ok] by blast
      then have "s' = out str s" using run by (simp add: Cons 9 execute_eq)
      then show ?thesis using v_exec.debug_cmd [of rest "vsession_of s" str] by (simp only: 9 Cons vsession_out)
    next
      case 10
      have "minifs_rmdir (''rmdir'' # rest) s = Inr s'" using run by (simp add: Cons execute_eq 10)
      from rmdir_sim [OF ok a _ this] care show ?thesis by (simp only: Cons 10)
    next
      case 11
      have "minifs_rm (''rm'' # rest) s = Inr s'" using run by (simp add: Cons execute_eq 11)
      from rm_sim [OF ok a _ this] care show ?thesis by (simp only: Cons 11)
    qed
  qed
qed


section \<open>The loop\<close>

definition loop_turn :: "(string \<Rightarrow> u32) \<Rightarrow> session \<Rightarrow> session \<Rightarrow> bool" where
  "loop_turn af s s' \<longleftrightarrow> \<not> careless af s \<and> (\<exists>l ls. s_in s = Some l # ls \<and> safe_line l \<and>
     minifs_execute af (words isspace l) (prompt ls s) = Inr s')"

lemma reach_turns: "reach_s af s0 s \<Longrightarrow> (loop_turn af)\<^sup>*\<^sup>* s0 s"
  by (induction rule: reach_s.induct) (auto simp: loop_turn_def intro: rtranclp.rtrancl_into_rtrancl)

definition loop_inv :: "session \<Rightarrow> bool" where
  "loop_inv s \<longleftrightarrow> ready s \<and> safe_input s"

lemma loop_turn_inv:
  assumes "loop_inv s" and "loop_turn af s s'"
  shows "loop_inv s'"
proof -
  from assms(2) have "reach_s af s s'" unfolding loop_turn_def by (blast intro: reach_s.intros)
  from reach_ready [OF this] assms(1) show ?thesis by (simp add: loop_inv_def)
qed

lemma loop_turn_sim:
  assumes "loop_inv s" and "loop_turn af s s'"
  shows "v_turn (vsession_of s) (vsession_of s')"
proof -
  from assms(2) obtain l ls where t: "s_in s = Some l # ls" "safe_line l" "\<not> careless af s"
      "minifs_execute af (words isspace l) (prompt ls s) = Inr s'" by (auto simp: loop_turn_def)
  have "\<forall>k. next_line (prompt ls s) = Some k \<longrightarrow> length k < 4294967296"
    using assms(1) t(1) by (auto simp: loop_inv_def next_line_def safe_input_def safe_line_def split: list.splits)
  moreover have "fs_ok (s_fs (prompt ls s))" using assms(1) by (simp add: loop_inv_def ready_def)
  ultimately have "v_exec (words isspace l) (vsession_of (prompt ls s)) (vsession_of s')"
    using execute_sim [OF _ safe_line_words [OF t(2)] carelessD [OF t(3,1)] _ t(4)] by blast
  then show ?thesis using t(1) by (intro v_turn.turn [where line = l and ls = ls]) (simp_all add: vsession_prompt)
qed

interpretation loop: forward_simulation "loop_turn af" v_turn vsession_of loop_inv for af
  by unfold_locales (auto intro: loop_turn_inv loop_turn_sim)

text \<open>Every session the loop reaches is, for the user, one the specification allows.\<close>

lemma reach_sim:
  assumes "reach_s af s0 s" and "ready s0" and "safe_input s0"
  shows "v_turn\<^sup>*\<^sup>* (vsession_of s0) (vsession_of s)"
  using loop.steps_sim [OF reach_turns] assms by (simp add: loop_inv_def)

end
