(* ===== verification/Vfs_Life.thy ===== *)
theory Vfs_Life
  imports Vfs_Run Cmd_Main
begin

text \<open>
  The specification over the life of a disk: it is formatted, commands run, the program ends, the
  next run starts in the root. From every directory the way up leads to the root, in the
  specification, and so on every disk that runs of the program leave.
\<close>


section \<open>The life of a disk\<close>

inductive v_life :: "vsession \<Rightarrow> bool" where
  format: "v_life \<lparr>v_fs = \<lparr>nodes = [0 \<mapsto> Dir [] 0], cwd = 0\<rparr>, v_in = input, v_out = [], v_err = []\<rparr>"
| turn: "v_life v \<Longrightarrow> v_turn v v' \<Longrightarrow> v_life v'"
| restart: "v_life v \<Longrightarrow> v_life \<lparr>v_fs = (v_fs v)\<lparr>cwd := 0\<rparr>, v_in = input, v_out = [], v_err = []\<rparr>"

lemma v_life_turns: "v_turn\<^sup>*\<^sup>* v v' \<Longrightarrow> v_life v \<Longrightarrow> v_life v'"
  by (induction rule: rtranclp_induct) (auto intro: v_life.turn)


section \<open>The way up\<close>

inductive v_up :: "vfs \<Rightarrow> nat \<Rightarrow> bool" for v where
  root: "v_up v 0"
| up: "v_up v (v_parent (nodes v i)) \<Longrightarrow> v_up v i"

definition v_tree :: "vfs \<Rightarrow> bool" where
  "v_tree v \<longleftrightarrow> is_Dir (nodes v 0) \<and> is_Dir (nodes v (cwd v)) \<and>
     (\<forall>i. is_Dir (nodes v i) \<longrightarrow> is_Dir (nodes v (v_parent (nodes v i))) \<and> v_up v i)"

lemma v_treeD:
  assumes "v_tree v"
  shows "is_Dir (nodes v 0)" and "is_Dir (nodes v (cwd v))"
    and "is_Dir (nodes v i) \<Longrightarrow> is_Dir (nodes v (v_parent (nodes v i)))" and "is_Dir (nodes v i) \<Longrightarrow> v_up v i"
  using assms by (simp_all add: v_tree_def)

text \<open>A change that keeps the directories outside \<open>R\<close> with their parents, none of them in \<open>R\<close>.\<close>

definition v_keeps :: "nat set \<Rightarrow> vfs \<Rightarrow> vfs \<Rightarrow> bool" where
  "v_keeps R v v' \<longleftrightarrow> 0 \<notin> R \<and> (\<forall>i. is_Dir (nodes v i) \<longrightarrow> i \<notin> R \<longrightarrow>
     is_Dir (nodes v' i) \<and> v_parent (nodes v' i) = v_parent (nodes v i) \<and> v_parent (nodes v i) \<notin> R)"

lemma v_keepsD:
  assumes "v_keeps R v v'"
  shows "0 \<notin> R" and "is_Dir (nodes v i) \<Longrightarrow> i \<notin> R \<Longrightarrow> is_Dir (nodes v' i)"
    and "is_Dir (nodes v i) \<Longrightarrow> i \<notin> R \<Longrightarrow> v_parent (nodes v' i) = v_parent (nodes v i)"
    and "is_Dir (nodes v i) \<Longrightarrow> i \<notin> R \<Longrightarrow> v_parent (nodes v i) \<notin> R"
  using assms by (simp_all add: v_keeps_def)

lemma v_up_keeps: "v_up v i \<Longrightarrow> v_tree v \<Longrightarrow> v_keeps R v v' \<Longrightarrow> is_Dir (nodes v i) \<Longrightarrow> i \<notin> R \<Longrightarrow> v_up v' i"
proof (induction rule: v_up.induct)
  case root
  show ?case by (rule v_up.root)
next
  case (up i)
  then have "v_up v' (v_parent (nodes v i))" using v_treeD(3) v_keepsD(4) by blast
  then have "v_up v' (v_parent (nodes v' i))" unfolding v_keepsD(3) [OF up.prems(2-4)] .
  then show ?case by (rule v_up.up)
qed

text \<open>A directory that is new has its parent among those that are kept.\<close>

lemma v_tree_keeps:
  assumes t: "v_tree v" and k: "v_keeps R v v'" and "is_Dir (nodes v' (cwd v'))"
    and new: "\<And>i. is_Dir (nodes v' i) \<Longrightarrow> i \<in> R \<or> \<not> is_Dir (nodes v i) \<Longrightarrow>
      is_Dir (nodes v (v_parent (nodes v' i))) \<and> v_parent (nodes v' i) \<notin> R"
  shows "v_tree v'"
proof -
  have "is_Dir (nodes v' (v_parent (nodes v' i))) \<and> v_up v' i" if d: "is_Dir (nodes v' i)" for i
  proof -
    let ?p = "v_parent (nodes v' i)"
    have "is_Dir (nodes v ?p) \<and> ?p \<notin> R"
    proof (cases "is_Dir (nodes v i) \<and> i \<notin> R")
      case True
      with v_treeD(3) [OF t] v_keepsD(3,4) [OF k] show ?thesis by simp
    next
      case False
      with new [OF d] show ?thesis by blast
    qed
    with v_keepsD(2) [OF k] v_up_keeps [OF v_treeD(4) [OF t] t k] show ?thesis by (blast intro: v_up.up)
  qed
  moreover have "is_Dir (nodes v' 0)" using v_treeD(1) [OF t] v_keepsD(1,2) [OF k] by blast
  ultimately show ?thesis using assms(3) by (simp add: v_tree_def)
qed

lemma v_last_test: "v_last test token v = Some i \<Longrightarrow> test (nodes v i)"
  by (auto simp: v_last_def find_Some_iff)

lemma is_FileE: "is_File x \<Longrightarrow> \<not> is_Dir x"
  by (cases x rule: is_File.cases) simp_all

lemma is_DirE: "is_Dir x \<Longrightarrow> \<exists>es p. x = Some (Dir es p)"
  by (cases x rule: is_Dir.cases) simp_all

lemma v_tree_add:
  assumes t: "v_tree v" and "nodes v i = None" and x: "is_Dir (Some x) \<Longrightarrow> v_parent (Some x) = cwd v"
  shows "v_tree (v_add x name i v)"
proof (rule v_tree_keeps [OF t, of "{}"])
  have ne: "i \<noteq> cwd v" using v_treeD(2) [OF t] assms(2) by auto
  show "v_keeps {} v (v_add x name i v)" using assms(2) by (auto simp: v_keeps_def v_add_def)
  show "is_Dir (nodes (v_add x name i v) (cwd (v_add x name i v)))" using ne by (simp add: v_add_def)
  show "is_Dir (nodes v (v_parent (nodes (v_add x name i v) j))) \<and> v_parent (nodes (v_add x name i v) j) \<notin> {}"
    if "is_Dir (nodes (v_add x name i v) j)" "j \<in> {} \<or> \<not> is_Dir (nodes v j)" for j
    using that x v_treeD(2) [OF t] by (auto simp: v_add_def split: if_splits)
qed

lemma v_tree_append:
  assumes t: "v_tree v" and "is_File (nodes v i)"
  shows "v_tree (v_append i str v)"
proof (rule v_tree_keeps [OF t, of "{}"])
  have d: "is_Dir (nodes (v_append i str v) j) \<longleftrightarrow> is_Dir (nodes v j)" for j
    using is_FileE [OF assms(2)] by (simp add: v_append_def)
  show "v_keeps {} v (v_append i str v)" using d is_FileE [OF assms(2)] by (auto simp: v_keeps_def v_append_def)
  show "is_Dir (nodes (v_append i str v) (cwd (v_append i str v)))" unfolding d using v_treeD(2) [OF t] by (simp add: v_append_def)
qed (use is_FileE [OF assms(2)] in \<open>auto simp: v_append_def split: if_splits\<close>)

lemma v_tree_remove:
  assumes t: "v_tree v" and "is_File (nodes v i) \<or> v_removable i v"
  shows "v_tree (v_remove test token i v)"
proof (rule v_tree_keeps [OF t, of "{i}"])
  have ne: "i \<noteq> 0" "i \<noteq> cwd v" "\<And>j. is_Dir (nodes v j) \<Longrightarrow> j \<noteq> i \<Longrightarrow> v_parent (nodes v j) \<noteq> i"
    using assms(2) v_treeD(1-3) [OF t] is_FileE unfolding v_removable_def by metis+
  show "v_keeps {i} v (v_remove test token i v)" using ne by (auto simp: v_keeps_def v_remove_def)
  show "is_Dir (nodes (v_remove test token i v) (cwd (v_remove test token i v)))" using ne by (simp add: v_remove_def)
  show "is_Dir (nodes v (v_parent (nodes (v_remove test token i v) j))) \<and> v_parent (nodes (v_remove test token i v) j) \<notin> {i}"
    if "is_Dir (nodes (v_remove test token i v) j)" "j \<in> {i} \<or> \<not> is_Dir (nodes v j)" for j
    using that v_treeD(2) [OF t] by (auto simp: v_remove_def split: if_splits)
qed

lemma v_tree_cd:
  assumes t: "v_tree v" and "v_cd token v = Some i"
  shows "v_tree (v\<lparr>cwd := i\<rparr>)"
proof (rule v_tree_keeps [OF t, of "{}"])
  have "is_Dir (nodes v i)"
    using assms(2) v_treeD(2,3) [OF t] by (auto simp: v_cd_def find_Some_iff split: if_splits)
  then show "is_Dir (nodes (v\<lparr>cwd := i\<rparr>) (cwd (v\<lparr>cwd := i\<rparr>)))" by simp
qed (simp_all add: v_keeps_def)

lemma v_exec_tree: "v_exec args v v' \<Longrightarrow> v_tree (v_fs v) \<Longrightarrow> v_tree (v_fs v')"
proof (induction rule: v_exec.induct)
  case (cd_dir token v i args)
  then show ?case by (simp add: v_tree_cd)
next
  case (mkdir_new name v i args)
  then show ?case by (simp add: v_tree_add)
next
  case (touch_new name v i args)
  then have "v_tree (v_add (File []) name i (v_fs v))" by (intro v_tree_add) simp_all
  then show ?case by simp
next
  case (dir_removed token v i args)
  then show ?case by (simp add: v_tree_remove)
next
  case (file_removed token v i args)
  then show ?case by (simp add: v_tree_remove v_last_test)
next
  case (write_line token v i line ls args)
  then show ?case by (simp add: v_say_def v_tree_append v_last_test)
qed (simp_all add: v_say_def v_warn_def)

lemma v_turn_tree: "v_turn v v' \<Longrightarrow> v_tree (v_fs v) \<Longrightarrow> v_tree (v_fs v')"
  by (erule v_turn.cases) (auto dest!: v_exec_tree simp: v_say_def)

lemma v_life_tree: "v_life v \<Longrightarrow> v_tree (v_fs v)"
proof (induction rule: v_life.induct)
  case (format input)
  show ?case by (simp add: v_tree_def v_up.root split: if_splits)
next
  case (turn v v')
  then show ?case by (blast intro: v_turn_tree)
next
  case (restart v input)
  from restart.IH have "v_tree ((v_fs v)\<lparr>cwd := 0\<rparr>)"
    by (rule v_tree_keeps [where R = "{}"]) (use v_treeD(1) [OF restart.IH] in \<open>simp_all add: v_keeps_def\<close>)
  then show ?case by simp
qed


section \<open>Runs of the program\<close>

lemma vfs_fresh:
  assumes "length pad = 4" and "length ptrs = 16"
  shows "vfs_of (fresh pad ptrs d) = \<lparr>nodes = [0 \<mapsto> Dir [] 0], cwd = 0\<rparr>"
proof -
  have "v_node (fresh pad ptrs d) 0 = Dir [] 0"
    using fresh_root [of pad ptrs d] by (simp add: v_node_def is_dir_def) (simp add: fresh_simps init_tables entries_def)
  then show ?thesis by (auto simp: vfs_of_def fresh_root fresh_simps)
qed

text \<open>What a run leaves, for the specification.\<close>

definition lives :: "disk \<Rightarrow> bool" where
  "lives d \<longleftrightarrow> (\<exists>fs v. fs_ok fs \<and> synced fs \<and> kept_disk fs d \<and> v_life v \<and> vfs_of fs = v_fs v)"

lemma run_lives:
  assumes inv: "ready s" and "wary af s" and life: "v_life (vsession_of s)"
  shows "lives (left_disk (main_loop af s))"
proof -
  have safe: "safe_input s" using assms(2) by (simp add: wary_def)
  have "stops_well af s (main_loop af s)"
    using main_loop_outcome [OF inv safe, of af] assms(2) unfolding wary_def by blast
  then obtain s' where s': "reach_s af s s'" "kept_disk (s_fs s') (left_disk (main_loop af s))" by (rule stops_disk)
  from reach_ready [OF s'(1) inv safe] have "fs_ok (s_fs s')" "synced (s_fs s')" by (simp_all add: ready_def)
  moreover have "v_life (vsession_of s')" using v_life_turns [OF reach_sim [OF s'(1) inv safe] life] .
  ultimately show ?thesis using s'(2) unfolding lives_def by (intro exI [of _ "s_fs s'"] exI [of _ "vsession_of s'"]) simp
qed

lemma lives_reopen:
  assumes "lives d" and "length ptrs = 16"
  shows "check_exists (Some d)" and "\<exists>fs v. minifs_open True ptrs (Some d) = Inr fs \<and> fs_ok fs \<and> synced fs \<and>
    v_life v \<and> vfs_of fs = (v_fs v)\<lparr>cwd := 0\<rparr>"
proof -
  from assms(1) obtain fs v where
    f: "fs_ok fs" "synced fs" "kept_disk fs d" "v_life v" "vfs_of fs = v_fs v" by (auto simp: lives_def)
  from f(1,3) show "check_exists (Some d)" by (rule kept_exists)
  from reopen [OF f(1-3) assms(2)] vfs_same f(4,5) show "\<exists>fs v. minifs_open True ptrs (Some d) = Inr fs \<and>
      fs_ok fs \<and> synced fs \<and> v_life v \<and> vfs_of fs = (v_fs v)\<lparr>cwd := 0\<rparr>" by metis
qed

lemma runs_life:
  "left_by_runs af d \<Longrightarrow> lives d"
proof (induction rule: left_by_runs.induct)
  case (first f pad ptrs d fs input)
  let ?fs = "fresh pad ptrs (case f of None \<Rightarrow> [] | Some d \<Rightarrow> d)"
  have fs: "fs = ?fs" using first(4,5) init_fresh [OF first(2), of f] fresh_ok(3) [OF first(2,3), of "case f of None \<Rightarrow> [] | Some d \<Rightarrow> d"] by auto
  have "ready (session0 ?fs input)" using fresh_ok(1,2) [OF first(2,3)] by (simp add: ready_def)
  moreover have "v_life (vsession_of (session0 ?fs input))"
    using v_life.format [of input] by (simp add: vsession_of_def vfs_fresh [OF first(2,3)])
  ultimately show ?case
    using run_lives first(6) main_first [OF first(2,3,1)] by (simp add: fs)
next
  case (again d ptrs fs input pad)
  from lives_reopen [OF again.IH again.hyps(2)] again.hyps(3) obtain v where
    f: "check_exists (Some d)" "fs_ok fs" "synced fs" "v_life v" "vfs_of fs = (v_fs v)\<lparr>cwd := 0\<rparr>" by auto
  have "v_life (vsession_of (session0 fs input))"
    using v_life.restart [OF f(4), of input] by (simp add: vsession_of_def f(5))
  then have "lives (left_disk (main_loop af (session0 fs input)))"
    using f(2,3) again.hyps(4) by (intro run_lives) (simp_all add: ready_def)
  then show ?case using f(1) again.hyps(3) by (simp add: minifs_main_def session0_def)
qed

text \<open>The way up on the disk.\<close>

lemma life_up:
  assumes "v_life v" and "vfs_of fs = (v_fs v)\<lparr>cwd := 0\<rparr>" and "is_dir fs i"
  shows "\<exists>n. ((\<lambda>j. nat (parent (im fs ! j))) ^^ n) i = 0"
proof -
  have t: "v_tree (vfs_of fs)" using v_life_tree [OF v_life.restart [OF assms(1)]] assms(2) by simp
  have p: "v_parent (nodes (vfs_of fs) j) = nat (parent (im fs ! j))" if "is_dir fs j" for j
    using that by (simp add: vfs_of_def v_node_def is_dir_def used_set_def)
  have "v_up (vfs_of fs) i \<Longrightarrow> is_dir fs i \<Longrightarrow> \<exists>n. ((\<lambda>j. nat (parent (im fs ! j))) ^^ n) i = 0" for i
  proof (induction rule: v_up.induct)
    case root
    show ?case by (rule exI [of _ 0]) simp
  next
    case (up i)
    have "is_dir fs (v_parent (nodes (vfs_of fs) i))" using v_treeD(3) [OF t, of i] up.prems by simp
    with up.IH obtain n where "((\<lambda>j. nat (parent (im fs ! j))) ^^ n) (nat (parent (im fs ! i)))= 0"
      unfolding p [OF up.prems] by blast
    then show ?case by (intro exI [of _ "Suc n"]) (simp del: funpow.simps add: funpow_Suc_right)
  qed
  with v_treeD(4) [OF t, of i] assms(3) show ?thesis by simp
qed

end
