(* ===== verification/Run_Claims.thy ===== *)
theory Run_Claims
  imports Cmd_Claims Cmd_Progress Vfs_Life
begin

text \<open>
  The properties of moving between directories, of removing, of the tokens of a line, and of the
  program MiniFS as a whole: the invariant of its loop, restarts and sequences of runs.
\<close>


section \<open>A new directory is found\<close>


lemma named_dir_find:
  "named_dir fs token = map_option (\<lambda>e. snd (snd e))
     (find (\<lambda>(u, name, i). i_type (im fs ! unat i) = MINIFS_INODE_DIRECTORY \<and> c_str name = Some token) (cur_entries fs))"
proof -
  have "entry_is fs MINIFS_INODE_DIRECTORY token =
      (\<lambda>(u, name, i). i_type (im fs ! unat i) = MINIFS_INODE_DIRECTORY \<and> c_str name = Some token)"
    by (rule ext) (simp add: entry_is_def split_def)
  then show ?thesis by (simp add: named_dir_entry)
qed


section \<open>A file to remove\<close>

lemma file_to_remove:
  obtains fs where "fs_ok fs" and "synced fs" and "used_set fs = {0, 1}"
    and "removes_well fs MINIFS_INODE_FILE ''notes''" and "victim fs MINIFS_INODE_FILE ''notes'' = Some 1"
proof -
  obtain fs where
    f: "fs_ok fs" "synced fs" "used_set fs = {0, 1}" "1 < length (im fs)" "i_type (im fs ! 1) = MINIFS_INODE_FILE"
      "length (dir_blocks fs) = 1" "bsz fs = 1024" "cur_entries fs = [(CHR 0x01, name_field ''notes'', of_nat 1)]"
    using new_entry [of 1 MINIFS_INODE_FILE "-1" "''notes''"] by auto
  have c: "c_str (name_field ''notes'') = Some ''notes''" using c_str_name_field [of "''notes''"] by simp
  have v: "victim fs MINIFS_INODE_FILE ''notes'' = Some 1"
    using c f(5) by (simp add: victim_def f(8) rows_def dirmap_def last_row_def row_is_simp)
  have m: "matching fs MINIFS_INODE_FILE ''notes'' = {0}" using c f(5) by (auto simp: matching_def f(8))
  have p: "per_block fs = 32" using f(7) by (simp add: per_block_def)
  have sl: "slot fs 0" "slot fs 1" using f(6) by (simp_all add: slot_def p)
  have "removable fs 1" using f(1,4,5) by (rule file_removable)
  then have "removes_well fs MINIFS_INODE_FILE ''notes''"
    using v m sl by (simp add: removes_well_def f(8))
  with f(1-3) v show thesis by (intro that)
qed


section \<open>Properties\<close>



text \<open>
  C29. \<open>ls\<close> prints, after the two standard names, the names of the entries that are in use, in the
  order of the directory and each followed by a blank, those of directories in blue, and changes
  nothing else.
\<close>

theorem cmd_ls:
  assumes "fs_ok (s_fs s)"
  shows "minifs_ls data s = Inr (out (blue ''.'' @ '' '' @ blue ''..'' @ '' '' @
    concat (map (\<lambda>(u, name, i).
        if u = NUL then []
        else if i_type (inode_map (sblock (s_fs s)) ! unat i) = MINIFS_INODE_DIRECTORY then blue (the (c_str name)) @ '' ''
        else if i_type (inode_map (sblock (s_fs s)) ! unat i) = MINIFS_INODE_FILE then the (c_str name) @ '' ''
        else [])
      (entries (bytes_of (s_fs s) (unat (current_dir (s_fs s)))))) @ newline) s)"
  by (simp add: minifs_ls_eq [OF assms] ls_entries entry_text_def [abs_def] split_def)

theorem cmd_ls_witness:
  "\<exists>fs. fs_ok fs \<and> minifs_ls [''ls''] (session0 fs []) =
    Inr (out (blue ''.'' @ '' '' @ blue ''..'' @ '' '' @ ''notes '' @ newline) (session0 fs []))"
proof -
  from new_entry [of 1 MINIFS_INODE_FILE "-1" "''notes''"] obtain fs where
    f: "fs_ok fs" "i_type (im fs ! 1) = MINIFS_INODE_FILE" "cur_entries fs = [(CHR 0x01, name_field ''notes'', of_nat 1)]" by auto
  from cmd_ls [of "session0 fs []" "[''ls'']"] f c_str_name_field [of "''notes''"] show ?thesis
    by (intro exI [of _ fs]) (simp add: MINIFS_INODE_FILE_def MINIFS_INODE_DIRECTORY_def)
qed


text \<open>
  C28. \<open>cd\<close>: it ends in a directory of the table for every name, or prints a message and stays;
  and the entry it follows is the first of the name that is a directory, an entry marked as
  removed included.
\<close>

theorem cmd_cd:
  assumes "fs_ok (s_fs s)" and "NUL \<notin> set token"
  shows "(case cd_target (s_fs s) token of
      Some i \<Rightarrow> minifs_cd [cmd, token] s = Inr (s\<lparr>s_fs := (s_fs s)\<lparr>current_dir := i\<rparr>\<rparr>) \<and>
        unat i < length (inode_map (sblock (s_fs s))) \<and>
        i_type (inode_map (sblock (s_fs s)) ! unat i) = MINIFS_INODE_DIRECTORY
    | None \<Rightarrow> minifs_cd [cmd, token] s = Inr (err (''directory not found'' @ newline) s)) \<and>
    (token \<notin> {''.'', ''..''} \<longrightarrow> cd_target (s_fs s) token = map_option (\<lambda>e. snd (snd e))
      (find (\<lambda>(u, name, i). i_type (inode_map (sblock (s_fs s)) ! unat i) = MINIFS_INODE_DIRECTORY \<and> c_str name = Some token)
        (entries (bytes_of (s_fs s) (unat (current_dir (s_fs s)))))))"
proof
  show "case cd_target (s_fs s) token of
      Some i \<Rightarrow> minifs_cd [cmd, token] s = Inr (s\<lparr>s_fs := (s_fs s)\<lparr>current_dir := i\<rparr>\<rparr>) \<and>
        unat i < length (im (s_fs s)) \<and> i_type (im (s_fs s) ! unat i) = MINIFS_INODE_DIRECTORY
    | None \<Rightarrow> minifs_cd [cmd, token] s = Inr (err (''directory not found'' @ newline) s)"
    using minifs_cd_eq [OF assms, of "[cmd, token]" cmd "[]"] cd_target_dir [OF assms(1), of token]
    by (auto simp: is_dir_def split: option.split)
  have "named_dir (s_fs s) token = map_option (\<lambda>e. snd (snd e))
      (find (\<lambda>(u, name, i). i_type (im (s_fs s) ! unat i) = MINIFS_INODE_DIRECTORY \<and> c_str name = Some token)
        (cur_entries (s_fs s)))" by (rule named_dir_find)
  then show "token \<notin> {''.'', ''..''} \<longrightarrow> cd_target (s_fs s) token = map_option (\<lambda>e. snd (snd e))
      (find (\<lambda>(u, name, i). i_type (im (s_fs s) ! unat i) = MINIFS_INODE_DIRECTORY \<and> c_str name = Some token)
        (cur_entries (s_fs s)))"
    by (simp add: cd_target_def)
qed

theorem cmd_cd_witness:
  "minifs_cd [''cd'', ''nowhere''] (session0 new_fs []) =
    Inr (err (''directory not found'' @ newline) (session0 new_fs []))"
proof -
  note c = cmd_cd [of "session0 new_fs []" "''nowhere''" "''cd''"]
  from c new_fs_ok(1) have "cd_target new_fs ''nowhere'' = None" by (simp add: fresh_simps fresh_root)
  with c new_fs_ok(1) show ?thesis by simp
qed

text \<open>
  C5. The loop of \<open>main\<close>, from a session whose invariant holds, for any lines without zero bytes and
  whatever \<open>strlen\<close> returns on a line that is released. Each session it goes through satisfies the
  invariant, its tables written. It ends because the input is used up, here or in \<open>write\<close>, by
  \<open>exit\<close>, because the blocks ran out or at the end of the input, with the disk one of its sessions
  recorded, unless it comes to a careless line: a removal that is not careful, or a \<open>write\<close> after
  which \<open>strlen\<close> on the released line is not the line's length. Up to there no undefined value is used
  and the only loads outside an array are those of \<open>block_map[-1]\<close>, whose values are not used: no
  more of them than lines ask for a \<open>read\<close>.
\<close>

theorem cmd_loop_safe:
  assumes "fs_ok (s_fs s)" and "synced (s_fs s)" and "safe_lines (s_in s)"
  shows "(\<forall>s'. reach_s af s s' \<longrightarrow> fs_ok (s_fs s') \<and> synced (s_fs s') \<and> main_loop af s = main_loop af s' \<and>
      s_stray s' + reads_asked (s_in s') \<le> s_stray s + reads_asked (s_in s)) \<and>
    ((\<exists>s'. reach_s af s s' \<and> careless af s') \<or>
     (case main_loop af s of
        Inr s' \<Rightarrow> reach_s af s s' \<and> s_in s' = []
      | Inl (e, d) \<Rightarrow> e \<in> {Exit 0, Exit (-1), NullDeref, Waits} \<and> (\<exists>s'. reach_s af s s' \<and> kept_disk (s_fs s') d)))"
proof -
  have inv: "ready s" "safe_input s" using assms by (simp_all add: ready_def safe_input_def safe_lines_def)
  have "\<forall>s'. reach_s af s s' \<longrightarrow> fs_ok (s_fs s') \<and> synced (s_fs s') \<and> main_loop af s = main_loop af s' \<and>
      s_stray s' + reads_asked (s_in s') \<le> s_stray s + reads_asked (s_in s)"
    using reach_ready [OF _ inv] reach_s_loop reach_stray [OF _ inv] by (auto simp: ready_def)
  moreover have "stops_well af s r \<Longrightarrow> (case r of
        Inr s' \<Rightarrow> reach_s af s s' \<and> s_in s' = []
      | Inl (e, d) \<Rightarrow> e \<in> {Exit 0, Exit (-1), NullDeref, Waits} \<and> (\<exists>s'. reach_s af s s' \<and> kept_disk (s_fs s') d))" for r
    by (auto simp: stops_well_def split: sum.splits)
  ultimately show ?thesis using main_loop_outcome [OF inv] by blast
qed

theorem cmd_loop_safe_witness:
  "\<exists>fs s'. fs_ok fs \<and> used_set fs = {0, 1} \<and>
    reach_s (\<lambda>l. 0) (session0 fs [Some ''rm notes'', None]) s' \<and> s_in s' = [None] \<and>
    fs_ok (s_fs s') \<and> synced (s_fs s') \<and> used_set (s_fs s') = {0} \<and> s_stray s' = 0"
proof -
  let ?af = "\<lambda>l :: string. 0 :: u32"
  obtain fs where f: "fs_ok fs" "synced fs" "used_set fs = {0, 1}" "removes_well fs MINIFS_INODE_FILE ''notes''"
      "victim fs MINIFS_INODE_FILE ''notes'' = Some 1" by (rule file_to_remove)
  let ?s = "session0 fs [Some ''rm notes'', None]" and ?p = "prompt [None] (session0 fs [Some ''rm notes'', None])"
  have w: "words isspace ''rm notes'' = [''rm'', ''notes'']" by code_simp
  have l: "safe_line ''rm notes''" "\<not> careless ?af ?s" using f(4) by (simp_all add: safe_line_def careless_def kept_data_def w)
  from rm_outcome [of ?p "''notes''" "''rm''" "[]"] f obtain g where
    g: "minifs_rm [''rm'', ''notes''] ?p = Inr (?p\<lparr>s_fs := g\<rparr>)" "removed fs g (unat (1 :: u32)) (matching fs MINIFS_INODE_FILE ''notes'')"
    by auto
  then have "minifs_execute ?af (words isspace ''rm notes'') ?p = Inr (?p\<lparr>s_fs := g\<rparr>)"
    by (simp add: w execute_eq)
  from reach_s.turn [OF reach_s.start _ l this] have r: "reach_s ?af ?s (?p\<lparr>s_fs := g\<rparr>)" by simp
  have "safe_lines (s_in ?s)" using l by (simp add: safe_lines_def)
  with cmd_loop_safe [of ?s ?af] f(1,2) r
  have "fs_ok g \<and> synced g" and "s_stray (?p\<lparr>s_fs := g\<rparr>) = 0"
    by (fastforce simp: prompt_def, simp add: prompt_def)
  moreover have "used_set g = {0}" using g(2) f(3) by (auto simp: removed_def)
  ultimately show ?thesis using r f(1,3) by (intro exI [of _ fs] exI [of _ "?p\<lparr>s_fs := g\<rparr>"]) simp
qed

text \<open>
  C2. The shell implements its specification, \<open>Vfs_Spec\<close>: for any lines without zero bytes and
  whatever \<open>strlen\<close> returns on a released line, what the loop does to the files and writes to the
  outputs is what a run of the specification does, up to a careless line, if it comes to one: a
  removal that is not careful, or a \<open>write\<close> after which \<open>strlen\<close> on the released line is not the
  line's length. If it comes to none, then whatever way the loop ends, \<open>minifs_open\<close> on
  the disk it leaves behind succeeds and finds, in the root directory, the files and directories of
  a state of that run, the last one when the loop ends waiting for input.
\<close>

theorem cmd_loop_refines:
  assumes "fs_ok (s_fs s)" and "synced (s_fs s)" and "safe_lines (s_in s)" and "length ptrs = 16"
  shows "\<exists>s'. reach_s af s s' \<and> v_turn\<^sup>*\<^sup>* (vsession_of s) (vsession_of s') \<and>
    (careless af s' \<and> main_loop af s = main_loop af s' \<or>
     (\<forall>t. main_loop af s = Inr t \<longrightarrow> s' = t) \<and>
     (\<exists>fs'. minifs_open True ptrs (Some (left_disk (main_loop af s))) = Inr fs' \<and>
        fs_ok fs' \<and> synced fs' \<and> vfs_of fs' = (vfs_of (s_fs s'))\<lparr>cwd := 0\<rparr>))"
proof -
  have inv: "ready s" "safe_input s" using assms by (simp_all add: ready_def safe_input_def safe_lines_def)
  note sim = reach_sim [OF _ inv]
  consider t where "reach_s af s t" "careless af t" | "stops_well af s (main_loop af s)"
    using main_loop_outcome [OF inv] by blast
  then show ?thesis
  proof cases
    case 1
    then show ?thesis using sim reach_s_loop by blast
  next
    case 2
    then obtain s' where s': "reach_s af s s'" "kept_disk (s_fs s') (left_disk (main_loop af s))"
        "\<forall>t. main_loop af s = Inr t \<longrightarrow> s' = t" by (rule stops_disk)
    have "fs_ok (s_fs s')" "synced (s_fs s')" using reach_ready [OF s'(1) inv] by (simp_all add: ready_def)
    from reopen [OF this s'(2) assms(4)] obtain fs' where
      f: "minifs_open True ptrs (Some (left_disk (main_loop af s))) = Inr fs'" "fs_ok fs'" "synced fs'"
        "current_dir fs' = 0" "same_files (s_fs s') fs'" by blast
    from sim [OF s'(1)] s'(1,3) f(1-3) vfs_same [OF f(5,4)] show ?thesis by blast
  qed
qed

theorem cmd_loop_refines_witness:
  "\<exists>s' fs. v_turn\<^sup>*\<^sup>* (vsession_of (session0 new_fs [Some ''mkdir doc'', None])) (vsession_of s') \<and>
    minifs_open True ptrs0 (Some (left_disk (main_loop kept_line (session0 new_fs [Some ''mkdir doc'', None])))) = Inr fs \<and>
    vfs_of fs = (vfs_of (s_fs s'))\<lparr>cwd := 0\<rparr>"
proof -
  let ?s = "session0 new_fs [Some ''mkdir doc'', None]"
  have "words isspace ''mkdir doc'' = [''mkdir'', ''doc'']" by code_simp
  then have l: "safe_line ''mkdir doc''" "removes_nothing ''mkdir doc''"
    by (simp_all add: safe_line_def removes_nothing_def)
  have ok: "fs_ok (s_fs ?s)" "synced (s_fs ?s)" using new_fs_ok by simp_all
  have "wary kept_line ?s"
    by (rule wary_lines) (use ok l in \<open>auto simp: ready_def kept_line_all\<close>)
  then have "\<not> careless kept_line s'" if "reach_s kept_line ?s s'" for s' using that by (simp add: wary_def)
  moreover have "safe_lines (s_in ?s)" using l by (simp add: safe_lines_def)
  moreover have "length ptrs0 = 16" by simp
  ultimately show ?thesis using cmd_loop_refines [OF ok, of ptrs0 kept_line] by blast
qed

text \<open>
  C6. Runs of the program one after the other, the first on a file that does not exist or is no
  file system, each with lines none of which turns out careless (a removal that is not careful, or a
  \<open>write\<close> after which \<open>strlen\<close> on the released line is not its length) and each ended at any of its prompts, by its end or by running out of blocks: the file always is a file system the next
  run accepts, opens and finds in order. Its files and directories are those of one life of the
  specification, from the format over the turns of all runs, and \<open>cd ..\<close> repeated leads from
  every directory to the root.
\<close>

theorem cmd_runs_volume:
  assumes "left_by_runs af d" and "length ptrs = 16"
  shows "check_exists (Some d) \<and> (\<exists>fs v. minifs_open True ptrs (Some d) = Inr fs \<and> fs_ok fs \<and> synced fs \<and>
    v_life v \<and> vfs_of fs = (v_fs v)\<lparr>cwd := 0\<rparr> \<and>
    (\<forall>i. is_dir fs i \<longrightarrow> (\<exists>n. ((\<lambda>j. nat (parent (im fs ! j))) ^^ n) i = 0)))"
proof -
  from runs_life [OF assms(1)] have "lives d" .
  from lives_reopen [OF this assms(2)] obtain fs v where
    f: "check_exists (Some d)" "minifs_open True ptrs (Some d) = Inr fs" "fs_ok fs" "synced fs"
      "v_life v" "vfs_of fs = (v_fs v)\<lparr>cwd := 0\<rparr>" by blast
  moreover from life_up [OF f(5,6)] have "\<forall>i. is_dir fs i \<longrightarrow> (\<exists>n. ((\<lambda>j. nat (parent (im fs ! j))) ^^ n) i = 0)" by blast
  ultimately show ?thesis by blast
qed

theorem cmd_runs_volume_witness:
  "\<exists>d fs. left_by_runs kept_line d \<and> minifs_open True ptrs0 (Some d) = Inr fs \<and> fs_ok fs"
proof -
  have "wary kept_line (session0 new_fs [None])"
    by (rule wary_lines) (use new_fs_ok in \<open>auto simp: ready_def kept_line_all\<close>)
  moreover have "minifs_init True pad0 None = Inr (pwrite 0 (meta (init_maps pad0)) [])" by (simp add: init_fresh)
  moreover have "minifs_open True ptrs0 (Some (pwrite 0 (meta (init_maps pad0)) [])) = Inr new_fs" by (rule fresh_ok) simp_all
  ultimately have "left_by_runs kept_line (left_disk (minifs_main kept_line True True pad0 ptrs0 2 None [None]))"
    by (intro left_by_runs.first) simp_all
  moreover have "length ptrs0 = 16" by simp
  from cmd_runs_volume [OF calculation this] calculation show ?thesis by blast
qed

text \<open>
  C16. \<open>rmdir\<close>, when no matching entry is the first one of a later block of the directory and the
  last directory with the name may go (it is in use, is neither the root nor the current directory,
  and is the parent of no other directory): the
  entries of directories with the name are marked as removed, the inode of the last of them is
  released with its blocks, the contents of all other inodes are as before and the invariant
  holds. Whether the directory has entries is not asked.
\<close>

theorem cmd_rmdir:
  assumes "fs_ok (s_fs s)" and n: "n = unat (block_size (sblock (s_fs s))) div 32"
    and sl: "\<forall>k\<in>matching (s_fs s) MINIFS_INODE_DIRECTORY token. k < n \<or> k mod n \<noteq> 0" and "NUL \<notin> set token"
    and "victim (s_fs s) MINIFS_INODE_DIRECTORY token = Some i" and "removable (s_fs s) (unat i)"
  shows "\<exists>fs'. minifs_rmdir [cmd, token] s = Inr (s\<lparr>s_fs := fs'\<rparr>) \<and> fs_ok fs' \<and> synced fs' \<and>
    used_set fs' = used_set (s_fs s) - {unat i} \<and> current_dir fs' = current_dir (s_fs s) \<and>
    entries (bytes_of fs' (unat (current_dir fs'))) =
      mark (matching (s_fs s) MINIFS_INODE_DIRECTORY token) (entries (bytes_of (s_fs s) (unat (current_dir (s_fs s))))) \<and>
    (\<forall>j\<in>used_set fs'. j \<noteq> unat (current_dir (s_fs s)) \<longrightarrow> bytes_of fs' j = bytes_of (s_fs s) j) \<and>
    free_blocks fs' = free_blocks (s_fs s) + length (blocks_of (s_fs s) (unat i))"
proof -
  have "\<forall>k\<in>matching (s_fs s) MINIFS_INODE_DIRECTORY token. slot (s_fs s) k"
    using sl unfolding n by (intro matching_slot [OF assms(1)]) (simp only: per_block_def)
  from rmdir_ok [OF assms(1) this assms(4-6) refl] show ?thesis unfolding removed_def by blast
qed

theorem cmd_rmdir_witness:
  "\<exists>fs fs'. fs_ok fs \<and> minifs_rmdir [''rmdir'', ''doc''] (session0 fs []) = Inr (session0 fs' []) \<and>
    used_set fs = {0, 1} \<and> used_set fs' = {0} \<and> entries (bytes_of fs' 0) = [(NUL, name_field ''doc'', of_nat 1)]"
proof -
  obtain fs where
    f: "fs_ok fs" "1 < length (im fs)" "used_set fs = {0, 1}" "i_type (im fs ! 1) = MINIFS_INODE_DIRECTORY"
      "current_dir fs = 0" "bsz fs = 1024" "cur_entries fs = [(CHR 0x01, name_field ''doc'', of_nat 1)]"
      "parent (im fs ! 0) = 0"
    using new_entry [of 1 MINIFS_INODE_DIRECTORY 0 "''doc''"] by auto
  have c: "c_str (name_field ''doc'') = Some ''doc''" using c_str_name_field [of "''doc''"] by simp
  have v: "victim fs MINIFS_INODE_DIRECTORY ''doc'' = Some 1"
    using c f(4) by (simp add: victim_def f(7) rows_def dirmap_def last_row_def row_is_simp)
  have m: "matching fs MINIFS_INODE_DIRECTORY ''doc'' = {0}" using c f(4) by (auto simp: matching_def f(7))
  have sl: "\<forall>k\<in>matching fs MINIFS_INODE_DIRECTORY ''doc''. k < 32 \<or> k mod 32 \<noteq> 0" by (simp add: m)
  have n: "32 = bsz fs div 32" using f(6) by simp
  have "nat (parent (im fs ! j)) \<noteq> 1" if j: "is_dir fs j" "j \<noteq> 1" for j
  proof -
    have "j = 0" using is_dir_used [OF j(1)] j(2) f(3) by blast
    then show ?thesis using f(8) by simp
  qed
  then have r: "removable fs (unat (1 :: u32))" using f(3,5) unfolding removable_def by simp
  have t: "NUL \<notin> set ''doc''" by simp
  from cmd_rmdir [of "session0 fs []" 32 "''doc''" 1 "''rmdir''", unfolded session0_simps, OF f(1) n sl t v r] obtain g where
    g: "minifs_rmdir [''rmdir'', ''doc''] (session0 fs []) = Inr ((session0 fs [])\<lparr>s_fs := g\<rparr>)"
      "used_set g = used_set fs - {unat (1 :: u32)}" "current_dir g = current_dir fs"
      "cur_entries g = mark {0} (cur_entries fs)" unfolding m by blast
  have "used_set g = {0}" using g(2) f(3) by auto
  moreover have "entries (bytes_of g 0) = [(NUL, name_field ''doc'', of_nat 1)]"
    using g(3,4) f(5) unfolding f(7) by (simp add: mark_def)
  moreover have "minifs_rmdir [''rmdir'', ''doc''] (session0 fs []) = Inr (session0 g [])"
    unfolding g(1) by (simp add: session0_def)
  ultimately show ?thesis using f(1,3) by blast
qed



text \<open>
  C15. The same call for a file with a larger inode: when its number is more than a block beyond the
  positions the blocks of the directory have room for, the search for the position runs past the
  end of the chain, to the block of index -1, and \<open>rm\<close> reads outside the table of blocks.
\<close>

theorem cmd_rm_crash:
  assumes "fs_ok (s_fs s)" and n: "n = unat (block_size (sblock (s_fs s))) div 32"
    and sl: "\<forall>k\<in>matching (s_fs s) MINIFS_INODE_FILE token. k < n \<or> k mod n \<noteq> 0" and "NUL \<notin> set token"
    and "victim (s_fs s) MINIFS_INODE_FILE token = Some i"
    and big: "Suc (length (blocks_of (s_fs s) (unat (current_dir (s_fs s))))) * n < unat i"
  shows "\<exists>d. minifs_rm [cmd, token] s = Inl (OutOfBounds, d)"
proof -
  have slots: "\<forall>k\<in>matching (s_fs s) MINIFS_INODE_FILE token. slot (s_fs s) k"
    using sl unfolding n by (intro matching_slot [OF assms(1)]) (simp only: per_block_def)
  from big have "Suc (length (dir_blocks (s_fs s))) * per_block (s_fs s) < unat i" unfolding n by (simp only: per_block_def)
  from rm_out_of_bounds [OF assms(1) slots assms(4,5) this refl] show ?thesis .
qed

theorem cmd_rm_crash_witness:
  "\<exists>fs d. fs_ok fs \<and> used_set fs = {0, 70} \<and> minifs_rm [''rm'', ''notes''] (session0 fs []) = Inl (OutOfBounds, d)"
proof -
  obtain fs where
    f: "fs_ok fs" "used_set fs = {0, 70}" "i_type (im fs ! 70) = MINIFS_INODE_FILE" "current_dir fs = 0"
      "length (blocks_of fs 0) = 1" "bsz fs = 1024" "cur_entries fs = [(CHR 0x01, name_field ''notes'', of_nat 70)]"
    using new_entry [of 70 MINIFS_INODE_FILE "-1" "''notes''"] by auto
  have c: "c_str (name_field ''notes'') = Some ''notes''" using c_str_name_field [of "''notes''"] by simp
  have v: "victim fs MINIFS_INODE_FILE ''notes'' = Some 70"
    using c f(3) by (simp add: victim_def f(7) rows_def dirmap_def last_row_def row_is_simp)
  have "matching fs MINIFS_INODE_FILE ''notes'' = {0}" using c f(3) by (auto simp: matching_def f(7))
  then have sl: "\<forall>k\<in>matching fs MINIFS_INODE_FILE ''notes''. k < 32 \<or> k mod 32 \<noteq> 0" by simp
  have n: "32 = bsz fs div 32" using f(6) by simp
  have b: "Suc (length (blocks_of fs (unat (current_dir fs)))) * 32 < unat (70 :: u32)" using f(4,5) by simp
  have t: "NUL \<notin> set ''notes''" by simp
  from cmd_rm_crash [of "session0 fs []" 32 "''notes''" 70 "''rm''", unfolded session0_simps, OF f(1) n sl t v b] f(1,2)
  show ?thesis by blast
qed

text \<open>
  C27. The tokens of a line: \<open>split_line\<close> returns the maximal runs of non-blanks in their order,
  each as a string of its own with its end, for a line with blanks anywhere, and \<open>free_lines\<close>
  releases just the blocks it took.
\<close>

theorem cmd_split_line:
  assumes "NUL \<notin> set s"
  shows "\<exists>lines taken. split_line (Some (s @ [NUL])) = Inr (lines, length (words isspace s), taken) \<and>
    token_strings lines = words isspace s \<and> free_lines lines (length (words isspace s)) = Inr taken"
proof (cases "s = []")
  case True
  then show ?thesis using split_line_words [OF assms, of "[]"] by (simp add: token_strings_def)
next
  case False
  then show ?thesis
    using split_line_words [OF assms, of "[]"] token_strings_words [OF assms] by simp
qed

theorem cmd_split_line_witness:
  "\<exists>lines taken. split_line (Some (''  write   notes '' @ [NUL])) = Inr (lines, 2, taken) \<and>
    token_strings lines = [''write'', ''notes''] \<and> free_lines lines 2 = Inr taken"
proof -
  have "words isspace ''  write   notes '' = [''write'', ''notes'']" by code_simp
  with cmd_split_line [of "''  write   notes ''"] show ?thesis by (simp add: numeral_2_eq_2)
qed

text \<open>
  C7. Every line is executed: when the free blocks have room for three blocks for each line and the
  bytes of the lines, and no line ends the program, is a \<open>write\<close> with no further line or turns out
  careless (a removal that is not careful, or a \<open>write\<close> after which \<open>strlen\<close> on the released line
  is not its length), the loop goes through all of its input, as a run of the
  specification, and comes to wait for more in a session whose invariant holds.
\<close>

theorem cmd_all_lines_run:
  assumes "fs_ok (s_fs s)" and "synced (s_fs s)" and "wary af s" and "complete (s_in s)"
    and room: "(\<Sum>l\<leftarrow>s_in s. 3 * unat (block_size (sblock (s_fs s))) + (case l of None \<Rightarrow> 0 | Some str \<Rightarrow> length str)) \<le>
      unat (block_size (sblock (s_fs s))) * free_blocks (s_fs s)"
  shows "\<exists>s'. main_loop af s = Inr s' \<and> s_in s' = [] \<and> v_turn\<^sup>*\<^sup>* (vsession_of s) (vsession_of s') \<and>
    fs_ok (s_fs s') \<and> synced (s_fs s')"
proof -
  have inv: "ready s" "safe_input s" using assms(1-3) by (simp_all add: ready_def wary_def)
  have "cost (bsz (s_fs s)) (s_in s) \<le> Cmd_Progress.room (s_fs s)"
    using room by (simp only: cost_def line_cost_def [abs_def] room_def)
  from main_loop_complete [OF inv(1) assms(3,4) this] obtain s' where
    s': "main_loop af s = Inr s'" "reach_s af s s'" "s_in s' = []" by blast
  with reach_sim [OF s'(2) inv] reach_ready [OF s'(2) inv] show ?thesis by (auto simp: ready_def)
qed

theorem cmd_all_lines_run_witness:
  "\<exists>s'. main_loop kept_line (session0 new_fs [Some ''touch notes'', Some ''write notes'', Some ''some text'', Some ''read notes'']) = Inr s' \<and>
    s_in s' = [] \<and> fs_ok (s_fs s')"
proof -
  let ?ls = "[Some ''touch notes'', Some ''write notes'', Some ''some text'', Some ''read notes'']"
  have w: "words isspace ''touch notes'' = [''touch'', ''notes'']" "words isspace ''write notes'' = [''write'', ''notes'']"
    "words isspace ''some text'' = [''some'', ''text'']" "words isspace ''read notes'' = [''read'', ''notes'']"
    by code_simp+
  let ?s = "session0 new_fs ?ls"
  have ok: "fs_ok (s_fs ?s)" "synced (s_fs ?s)" using new_fs_ok by simp_all
  have "safe_line l \<and> removes_nothing l" if "Some l \<in> set ?ls" for l
    using that by (auto simp: safe_line_def removes_nothing_def w)
  then have "wary kept_line ?s" using ok kept_line_all by (intro wary_lines) (simp_all add: ready_def)
  moreover have "complete (s_in ?s)" by (simp add: first_word_def w)
  moreover have "(\<Sum>l\<leftarrow>s_in ?s. 3 * bsz (s_fs ?s) + (case l of None \<Rightarrow> 0 | Some str \<Rightarrow> length str)) \<le>
      bsz (s_fs ?s) * free_blocks (s_fs ?s)" by (simp add: fresh_simps(3) fresh_free)
  ultimately show ?thesis using cmd_all_lines_run [OF ok] by auto
qed

end
