(* ===== verification/Utils_Test.thy ===== *)
theory Utils_Test
  imports Utils
begin

text \<open>
  The test program internal/utils/utils-test.c: its four cases of \<open>split_line\<close> and what it prints.
  \<open>test_case_verdict\<close> says what a case reports for any line and any expected words.
\<close>

text \<open>What is printed when an expectation of case \<open>k\<close> is not met.\<close>

definition bad_text :: "string \<Rightarrow> string" where
  "bad_text k = ''[BAD] '' @ k @ '' test_split_lines'' @ [CHR 0x0A]"

text \<open>The comparisons \<open>strcmp(lines[index], expected)\<close> from an index on.\<close>

fun compare_lines :: "string \<Rightarrow> char list list option \<Rightarrow> nat \<Rightarrow> string list \<Rightarrow> bool \<times> string \<Rightarrow> (bool \<times> string) res" where
  "compare_lines k lines index [] r = Inr r"
| "compare_lines k lines index (e # es) (status, str) =
     rbind (need NullDeref lines) (\<lambda>ls.
     if index < length ls then
       rbind (need OutOfBounds (strcmp0 (ls ! index) (e @ [NUL]))) (\<lambda>eq.
       compare_lines k lines (Suc index) es (if eq then (status, str) else (False, str @ bad_text k)))
     else Inl OutOfBounds)"

text \<open>One case: split, check the count and the lines, release.\<close>

definition test_case :: "string \<Rightarrow> string \<Rightarrow> string list \<Rightarrow> bool \<times> string \<Rightarrow> (bool \<times> string) res" where
  "test_case k data expected r =
     rbind (split_line (Some (data @ [NUL]))) (\<lambda>(lines, count, taken).
     let r = (if count \<noteq> length expected then (False, snd r @ bad_text k) else r) in
     rbind (compare_lines k lines 0 expected r) (\<lambda>r.
     rbind (free_lines lines count) (\<lambda>released. Inr r)))"

definition test_split_lines :: "(bool \<times> string) res" where
  "test_split_lines =
     rbind (test_case ''1'' ''test1'' [''test1''] (True, [])) (\<lambda>r.
     rbind (test_case ''2'' ''test2.0 test2.1'' [''test2.0'', ''test2.1''] r) (\<lambda>r.
     rbind (test_case ''3'' ''  testa   testb'' [''testa'', ''testb''] r) (\<lambda>r.
     rbind (test_case ''4'' ''  testa     testb      '' [''testa'', ''testb''] r) (\<lambda>(status, str).
     Inr (status, str @ (if status then ''[OK] '' else ''[BAD] '') @ ''test_split_lines'' @ [CHR 0x0A])))))"

definition utils_test :: "string res" where
  "utils_test =
     rbind test_split_lines (\<lambda>(status, str).
     Inr (str @ (if True \<and> status then ''[GLOBAL OK]'' @ [CHR 0x0A] else [])))"


section \<open>What a case reports\<close>

text \<open>The words that differ from those expected at their place, one report for each of them.\<close>

definition mismatches :: "string list \<Rightarrow> string list \<Rightarrow> nat" where
  "mismatches ws es = length (filter (\<lambda>(w, e). w \<noteq> e) (zip ws es))"

definition report :: "string \<Rightarrow> nat \<Rightarrow> bool \<times> string \<Rightarrow> bool \<times> string" where
  "report k n r = (fst r \<and> n = 0, snd r @ concat (replicate n (bad_text k)))"

lemma report_0 [simp]: "report k 0 r = r"
  by (simp add: report_def)

lemma strcmp0_words:
  assumes "NUL \<notin> set a" and "NUL \<notin> set b"
  shows "strcmp0 (a @ [NUL]) (b @ [NUL]) = Some (a = b)"
  using strcmp0_terminated [of a b "[]" "[]"] assms by simp

lemma compare_lines_words:
  assumes "\<forall>w\<in>set ws. NUL \<notin> set w" and "\<forall>e\<in>set es. NUL \<notin> set e"
  shows "compare_lines k (Some (map (\<lambda>w. w @ [NUL]) ws)) index es r =
    (if index + length es \<le> length ws \<or> es = [] then Inr (report k (mismatches (drop index ws) es) r) else Inl OutOfBounds)"
  using assms(2)
proof (induction es arbitrary: index r)
  case Nil
  then show ?case by (simp add: mismatches_def)
next
  case (Cons e es)
  show ?case
  proof (cases "index < length ws")
    case True
    have d: "drop index ws = ws ! index # drop (Suc index) ws" using True by (simp add: Cons_nth_drop_Suc)
    have "strcmp0 (ws ! index @ [NUL]) (e @ [NUL]) = Some (ws ! index = e)"
      using assms(1) True Cons.prems by (intro strcmp0_words) simp_all
    moreover have "mismatches (drop index ws) (e # es) = (if ws ! index = e then 0 else 1) + mismatches (drop (Suc index) ws) es"
      by (simp add: d mismatches_def)
    ultimately show ?thesis
      using True Cons by (cases r) (auto simp: report_def mismatches_def)
  next
    case False
    then show ?thesis by (cases r) simp
  qed
qed

text \<open>
  A case with at least one word reports each difference between the words and those expected, and a
  wrong number of words; where there are fewer words than expected it reads past the array.
\<close>

lemma test_case_verdict:
  assumes "NUL \<notin> set data" and "\<forall>e\<in>set expected. NUL \<notin> set e" and "words isspace data = ws" and "ws \<noteq> []"
  shows "test_case k data expected r =
    (if length expected \<le> length ws
     then Inr (report k ((if length ws = length expected then 0 else 1) + mismatches ws expected) r)
     else Inl OutOfBounds)"
proof -
  have "data \<noteq> []" using assms(3,4) by auto
  moreover have "\<forall>w\<in>set ws. NUL \<notin> set w" using words_chars [of _ isspace data] assms(1,3) by force
  ultimately show ?thesis
    using split_line_words [OF assms(1), of "[]"] compare_lines_words [OF _ assms(2)] assms(3)
    by (auto simp: test_case_def Let_def report_def)
qed

lemma test_case_words:
  assumes "NUL \<notin> set data" and "words isspace data = expected" and "expected \<noteq> []"
  shows "test_case k data expected r = Inr r"
proof -
  have "\<forall>w\<in>set expected. NUL \<notin> set w" using words_chars [of _ isspace data] assms(1,2) by force
  moreover have "mismatches expected expected = 0" by (simp add: mismatches_def zip_same_conv_map filter_empty_conv)
  ultimately show ?thesis using test_case_verdict [OF assms(1) _ assms(2,3)] by simp
qed


section \<open>The program passes\<close>

text \<open>
  The test program of \<open>split_line\<close>: all of its comparisons hold, no access of it leaves an
  array, and its output is the two lines of success.
\<close>

theorem utils_test_passes:
  "utils_test = Inr (''[OK] test_split_lines'' @ [CHR 0x0A] @ ''[GLOBAL OK]'' @ [CHR 0x0A])"
proof -
  have "words isspace ''test1'' = [''test1'']" "words isspace ''test2.0 test2.1'' = [''test2.0'', ''test2.1'']"
    "words isspace ''  testa   testb'' = [''testa'', ''testb'']"
    "words isspace ''  testa     testb      '' = [''testa'', ''testb'']"
    by code_simp+
  then show ?thesis
    by (simp add: utils_test_def test_split_lines_def test_case_words)
qed

end
